(* ===== verification/Prelude.thy ===== *)
theory Prelude
  imports Main "HOL-Library.Word" "HOL-Library.Multiset"
begin

text \<open>
  Shared vocabulary of the development: the C integer types as machine words, the
  sequencing of computations that may stop, and the bit-level lemmas that turn a
  statement about 32-bit words into one about their 32 bits.

  A C \<^verbatim>\<open>int\<close> is a \<open>32 word\<close>; it is read as signed with \<open>sint\<close>, and the casts
  \<^verbatim>\<open>(unsigned)\<close> and \<^verbatim>\<open>(int)\<close> of the source are the identity on it. Addition, subtraction
  and multiplication wrap around, as the compiled programs do.
\<close>

unbundle bit_operations_syntax

type_synonym cint = "32 word"
type_synonym byte = "8 word"

named_theorems stop_simps
named_theorems byte_simps

section \<open>Computations that may stop\<close>

text \<open>
  A C function that may end the process returns \<open>'e + 'a\<close>: \<open>Inl\<close> is the way it ended,
  \<open>Inr\<close> the value it returned. \<open>seq\<close> runs a continuation on the value.
\<close>

definition seq :: "'e + 'a \<Rightarrow> ('a \<Rightarrow> 'e + 'b) \<Rightarrow> 'e + 'b" where
  "seq m f = (case m of Inl e \<Rightarrow> Inl e | Inr x \<Rightarrow> f x)"

lemma seq_Inl [simp, stop_simps]: "seq (Inl e) f = Inl e"
  by (simp add: seq_def)

lemma seq_Inr [simp, stop_simps]: "seq (Inr x) f = f x"
  by (simp add: seq_def)

lemma seq_eq_Inr: "seq m f = Inr y \<longleftrightarrow> (\<exists>x. m = Inr x \<and> f x = Inr y)"
  by (cases m) auto

lemma seq_eq_Inl: "seq m f = Inl e \<longleftrightarrow> m = Inl e \<or> (\<exists>x. m = Inr x \<and> f x = Inl e)"
  by (cases m) auto

lemma seq_assoc: "seq (seq m f) g = seq m (\<lambda>x. seq (f x) g)"
  by (cases m) auto

section \<open>Bits of 32-bit words\<close>

lemma all_less_32:
  "(\<forall>n<32. P n) \<longleftrightarrow>
     P 0 \<and> P 1 \<and> P 2 \<and> P 3 \<and> P 4 \<and> P 5 \<and> P 6 \<and> P 7 \<and> P 8 \<and> P 9 \<and> P 10 \<and> P 11 \<and> P 12 \<and>
     P 13 \<and> P 14 \<and> P 15 \<and> P 16 \<and> P 17 \<and> P 18 \<and> P 19 \<and> P 20 \<and> P 21 \<and> P 22 \<and> P 23 \<and> P 24 \<and>
     P 25 \<and> P 26 \<and> P 27 \<and> P 28 \<and> P 29 \<and> P 30 \<and> P (31 :: nat)"
  by (simp add: eval_nat_numeral All_less_Suc conj_ac)

lemma all_less_8:
  "(\<forall>n<8. P n) \<longleftrightarrow> P 0 \<and> P 1 \<and> P 2 \<and> P 3 \<and> P 4 \<and> P 5 \<and> P 6 \<and> P (7 :: nat)"
  by (simp add: eval_nat_numeral All_less_Suc conj_ac)

lemma word32_eqI: "(\<forall>n<32. bit a n = bit b n) \<Longrightarrow> a = (b :: 32 word)"
  by (rule bit_word_eqI) simp

lemma word32_eq_iff: "a = b \<longleftrightarrow> (\<forall>n<32. bit a n = bit (b :: 32 word) n)"
  by (auto intro: word32_eqI)

lemma word8_eqI: "(\<forall>n<8. bit a n = bit b n) \<Longrightarrow> a = (b :: 8 word)"
  by (rule bit_word_eqI) simp

lemma bit32_high [simp]: "32 \<le> n \<Longrightarrow> \<not> bit (w :: 32 word) n"
  by (simp add: impossible_bit)

lemma bit8_high [simp]: "8 \<le> n \<Longrightarrow> \<not> bit (w :: 8 word) n"
  by (simp add: impossible_bit)

lemma all_less_4: "(\<forall>n<4. P n) \<longleftrightarrow> P 0 \<and> P 1 \<and> P 2 \<and> P (3 :: nat)"
  by (simp add: eval_nat_numeral All_less_Suc conj_ac)

text \<open>The simplifier writes \<^verbatim>\<open>x << 1\<close> as a multiplication.\<close>

lemma bit_times_two: "bit (x * 2 :: 32 word) n \<longleftrightarrow> 0 < n \<and> n < 32 \<and> bit x (n - 1)"
proof -
  have "x * 2 = push_bit 1 x" by simp
  then show ?thesis
    by (simp only: bit_push_bit_iff) (auto simp: possible_bit_def)
qed

lemma low_two_bits:
  fixes a :: cint
  shows "a AND 3 = 0 \<or> a AND 3 = 1 \<or> a AND 3 = 2 \<or> a AND 3 = 3"
proof -
  have "unat (a AND 3) < 4"
    using word_and_le1 [of a 3] by (simp add: word_le_nat_alt)
  then have "unat (a AND 3) \<in> {0, 1, 2, 3}"
    by auto
  then show ?thesis
    by (auto simp: word_unat_eq_iff)
qed

text \<open>
  The loops of the immediate decoder that copy the sign bit upwards,
  \<^verbatim>\<open>for (i = 0; i < m; i++) r |= firstBit << (k + i)\<close>.
\<close>

lemma bit_sign_fill:
  "bit (fold (\<lambda>i r. r OR push_bit (k + i) (drop_bit 31 w)) [0..<m] r) n \<longleftrightarrow>
     bit r n \<or> (n < 32 \<and> k \<le> n \<and> n < k + m \<and> bit (w :: 32 word) 31)"
proof (induction m)
  case 0
  show ?case by auto
next
  case (Suc m)
  have top: "bit (push_bit (k + m) (drop_bit 31 w)) n \<longleftrightarrow> n < 32 \<and> n = k + m \<and> bit w 31"
  proof (cases "n = k + m")
    case False
    then show ?thesis
      by (cases "n < k + m") (simp_all add: bit_simps)
  qed (simp add: bit_simps)
  show ?case
    by (auto simp: bit_or_iff Suc.IH top)
qed

section \<open>Bytes of a word\<close>

text \<open>The word made of four bytes, least significant first.\<close>

definition le_word :: "byte \<Rightarrow> byte \<Rightarrow> byte \<Rightarrow> byte \<Rightarrow> cint" where
  "le_word b0 b1 b2 b3 =
     ucast b0 OR push_bit 8 (ucast b1) OR push_bit 16 (ucast b2) OR push_bit 24 (ucast b3)"

definition byte_of :: "nat \<Rightarrow> cint \<Rightarrow> byte" where
  "byte_of k d = ucast (drop_bit (8 * k) d)"

lemma byte_of_le_word [byte_simps]:
  "byte_of 0 (le_word b0 b1 b2 b3) = b0" "byte_of 1 (le_word b0 b1 b2 b3) = b1"
  "byte_of 2 (le_word b0 b1 b2 b3) = b2" "byte_of 3 (le_word b0 b1 b2 b3) = b3"
  unfolding byte_of_def le_word_def
  by (rule word8_eqI, simp add: all_less_8 bit_simps)+

lemma le_word_byte_of [byte_simps]:
  "le_word (byte_of 0 d) (byte_of 1 d) (byte_of 2 d) (byte_of 3 d) = d"
  unfolding byte_of_def le_word_def
  by (rule word32_eqI) (simp add: all_less_32 bit_simps)

lemmas byte_of_Suc_simps [byte_simps] =
  byte_of_le_word(2) [unfolded One_nat_def] le_word_byte_of [unfolded One_nat_def]

section \<open>Small numbers as signed words\<close>

lemma sint_of_nat:
  assumes "n < 2 ^ 31"
  shows "sint (word_of_nat n :: cint) = int n"
proof -
  have "sint (word_of_int (int n) :: cint) = signed_take_bit 31 (int n)"
    by (simp only: sint_sbintrunc') simp
  also have "\<dots> = int n" using assms by (intro signed_take_bit_int_eq_self) simp_all
  finally show ?thesis by simp
qed

section \<open>Lists\<close>

lemma nth_update_other: "i \<noteq> j \<Longrightarrow> xs[i := x] ! j = xs ! j"
  by simp

lemma set_update_length: "i < length xs \<Longrightarrow> x \<in> set (xs[i := x])"
  by (simp add: set_update_memI)

section \<open>Characters\<close>

text \<open>The code of a character, as C's arithmetic on \<^verbatim>\<open>char\<close> sees it for ASCII text.\<close>

abbreviation code :: "char \<Rightarrow> int" where "code c \<equiv> of_char c"

lemma code_char_of: "n < 256 \<Longrightarrow> code (char_of (n :: nat)) = int n"
  using of_char_of [of "int n"] by simp

section \<open>Reading lines\<close>

abbreviation newline :: char where "newline \<equiv> CHR 0x0A"

text \<open>\<^verbatim>\<open>fgets\<close> with room for \<open>n\<close> characters: the line read and the rest of the file.\<close>

fun fgets :: "nat \<Rightarrow> string \<Rightarrow> string \<times> string" where
  "fgets 0 xs = ([], xs)"
| "fgets (Suc n) [] = ([], [])"
| "fgets (Suc n) (c # xs) =
     (if c = newline then ([c], xs) else (case fgets n xs of (l, ys) \<Rightarrow> (c # l, ys)))"

lemma length_fgets: "length (snd (fgets n xs)) = length xs - length (fst (fgets n xs))"
  by (induction n xs rule: fgets.induct) (auto split: prod.splits)

lemma fgets_nonempty: "xs \<noteq> [] \<Longrightarrow> 0 < n \<Longrightarrow> fst (fgets n xs) \<noteq> []"
  by (cases n; cases xs) (auto split: prod.splits)

lemma fgets_line:
  "newline \<notin> set l \<Longrightarrow> length l < n \<Longrightarrow> fgets n (l @ newline # xs) = (l @ [newline], xs)"
proof (induction l arbitrary: n)
  case Nil
  then show ?case by (cases n) simp_all
next
  case (Cons c l)
  then have "c \<noteq> newline" by auto
  then show ?case using Cons by (cases n) simp_all
qed

text \<open>The string in a buffer of characters: what \<^verbatim>\<open>print_string\<close>, \<^verbatim>\<open>%s\<close> and \<^verbatim>\<open>strstr\<close> see of it.\<close>

definition c_str :: "string \<Rightarrow> string" where
  "c_str buffer = takeWhile (\<lambda>c. c \<noteq> CHR 0x00) buffer"

section \<open>Fibonacci numbers\<close>

fun fibonacci :: "nat \<Rightarrow> nat" where
  "fibonacci 0 = 0"
| "fibonacci (Suc 0) = 1"
| "fibonacci (Suc (Suc n)) = fibonacci (Suc n) + fibonacci n"

lemma fibonacci_mono: "m \<le> n \<Longrightarrow> fibonacci m \<le> fibonacci n"
proof (rule lift_Suc_mono_le [of fibonacci])
  show "fibonacci k \<le> fibonacci (Suc k)" for k by (induction k rule: fibonacci.induct) simp_all
qed

text \<open>Two at a time, for evaluation.\<close>

primrec fibonacci_pair :: "nat \<Rightarrow> nat \<times> nat" where
  "fibonacci_pair 0 = (0, 1)"
| "fibonacci_pair (Suc n) = (case fibonacci_pair n of (a, b) \<Rightarrow> (b, a + b))"

lemma fibonacci_pair: "fibonacci_pair n = (fibonacci n, fibonacci (Suc n))"
  by (induction n) simp_all

end
