(* ===== verification/Sim_Memory.thy ===== *)
theory Sim_Memory
  imports Prelude
begin

text \<open>
  The simulated memory of the RISC-V simulator, \<^verbatim>\<open>A5/src/memory.c\<close>: 65536 pages of 16384
  words, allocated and zeroed on first use (also by a read). An unaligned word or
  halfword access prints a message and ends the process.

  The lemmas show that the paged store is a flat memory of 2^32 bytes in little-endian
  order (\<open>byte_at\<close> is the abstraction), that stores change exactly the addressed bytes and
  that loads are zero-extended, as \<^verbatim>\<open>memory.h\<close> promises.
\<close>

section \<open>State\<close>

datatype access = Word_write | Halfword_write | Word_read | Halfword_read

datatype stop = Unaligned access cint | Exit_success | Exit_failure | Undefined_behaviour

type_synonym page = "nat \<Rightarrow> cint"

record memory =
  pages :: "nat \<rightharpoonup> page"

definition zero_page :: page where
  "zero_page = (\<lambda>_. 0)"

definition memory_create :: memory where
  "memory_create = \<lparr>pages = Map.empty\<rparr>"

definition page_number :: "cint \<Rightarrow> nat" where
  "page_number addr = unat (signed_drop_bit 16 addr AND 0x0ffff)"

definition word_index :: "cint \<Rightarrow> nat" where
  "word_index addr = unat (signed_drop_bit 2 addr AND 0x3fff)"

definition get_page :: "memory \<Rightarrow> cint \<Rightarrow> page \<times> memory" where
  "get_page mem addr =
     (case pages mem (page_number addr) of
        None \<Rightarrow> (zero_page, mem\<lparr>pages := (pages mem)(page_number addr \<mapsto> zero_page)\<rparr>)
      | Some p \<Rightarrow> (p, mem))"

text \<open>The assignment \<^verbatim>\<open>page[index] = v\<close> through the pointer that \<^verbatim>\<open>get_page\<close> returned.\<close>

definition put_word :: "memory \<Rightarrow> cint \<Rightarrow> page \<Rightarrow> nat \<Rightarrow> cint \<Rightarrow> memory" where
  "put_word mem addr p i v = mem\<lparr>pages := (pages mem)(page_number addr \<mapsto> p(i := v))\<rparr>"

section \<open>Operations\<close>

definition memory_wr_w :: "memory \<Rightarrow> cint \<Rightarrow> cint \<Rightarrow> stop + memory" where
  "memory_wr_w mem addr data =
     (if addr AND 0x3 \<noteq> 0 then Inl (Unaligned Word_write addr)
      else let (p, mem) = get_page mem addr
           in Inr (put_word mem addr p (word_index addr) data))"

definition memory_wr_h :: "memory \<Rightarrow> cint \<Rightarrow> cint \<Rightarrow> stop + memory" where
  "memory_wr_h mem addr data =
     (if addr AND 0x1 \<noteq> 0 then Inl (Unaligned Halfword_write addr)
      else let (p, mem) = get_page mem addr; i = word_index addr
           in if addr AND 2 = 0
              then Inr (put_word mem addr p i
                     ((p i AND 0xffff0000) OR (data AND 0x0000ffff)))
              else Inr (put_word mem addr p i
                     ((p i AND 0x0000ffff) OR push_bit 16 data)))"

definition memory_wr_b :: "memory \<Rightarrow> cint \<Rightarrow> cint \<Rightarrow> memory" where
  "memory_wr_b mem addr data =
     (let (p, mem) = get_page mem addr; i = word_index addr
      in if addr AND 0x3 = 0 then
           put_word mem addr p i ((p i AND 0xffffff00) OR (data AND 0xff))
         else if addr AND 0x3 = 1 then
           put_word mem addr p i ((p i AND 0xffff00ff) OR push_bit 8 (data AND 0xff))
         else if addr AND 0x3 = 2 then
           put_word mem addr p i ((p i AND 0xff00ffff) OR push_bit 16 (data AND 0xff))
         else if addr AND 0x3 = 3 then
           put_word mem addr p i ((p i AND 0x00ffffff) OR push_bit 24 (data AND 0xff))
         else mem)"

definition memory_rd_w :: "memory \<Rightarrow> cint \<Rightarrow> stop + (cint \<times> memory)" where
  "memory_rd_w mem addr =
     (let (p, mem) = get_page mem addr
      in if addr AND 0x3 \<noteq> 0 then Inl (Unaligned Word_read addr)
         else Inr (p (word_index addr), mem))"

definition memory_rd_h :: "memory \<Rightarrow> cint \<Rightarrow> stop + (cint \<times> memory)" where
  "memory_rd_h mem addr =
     (let (p, mem) = get_page mem addr; i = word_index addr
      in if addr AND 0x1 \<noteq> 0 then Inl (Unaligned Halfword_read addr)
         else if addr AND 2 = 0 then Inr (p i AND 0xffff, mem)
         else Inr (signed_drop_bit 16 (p i) AND 0xffff, mem))"

definition memory_rd_b :: "memory \<Rightarrow> cint \<Rightarrow> cint \<times> memory" where
  "memory_rd_b mem addr =
     (let (p, mem) = get_page mem addr; i = word_index addr
      in if addr AND 0x3 = 0 then (p i AND 0xff, mem)
         else if addr AND 0x3 = 1 then (signed_drop_bit 8 (p i) AND 0xff, mem)
         else if addr AND 0x3 = 2 then (signed_drop_bit 16 (p i) AND 0xff, mem)
         else if addr AND 0x3 = 3 then (signed_drop_bit 24 (p i) AND 0xff, mem)
         else (0, mem))"

section \<open>The byte view\<close>

text \<open>What the store holds, whether or not the page has been allocated yet.\<close>

definition peek :: "memory \<Rightarrow> nat \<Rightarrow> nat \<Rightarrow> cint" where
  "peek mem pn i = (case pages mem pn of None \<Rightarrow> 0 | Some p \<Rightarrow> p i)"

definition word_at :: "memory \<Rightarrow> cint \<Rightarrow> cint" where
  "word_at mem addr = peek mem (page_number addr) (word_index addr)"

definition byte_at :: "memory \<Rightarrow> cint \<Rightarrow> byte" where
  "byte_at mem addr = ucast (drop_bit (8 * unat (addr AND 3)) (word_at mem addr))"

lemma page_number_eq: "page_number addr = unat (drop_bit 16 addr)"
proof -
  have "signed_drop_bit 16 addr AND 0xffff = drop_bit 16 addr"
    by (rule word32_eqI) (simp add: all_less_32 bit_simps)
  then show ?thesis by (simp add: page_number_def)
qed

lemma word_index_eq: "word_index addr = unat (drop_bit 2 addr AND 0x3fff)"
proof -
  have "signed_drop_bit 2 addr AND 0x3fff = drop_bit 2 addr AND 0x3fff"
    by (rule word32_eqI) (simp add: all_less_32 bit_simps numeral_2_eq_2 numeral_3_eq_3)
  then show ?thesis by (simp add: word_index_def)
qed

text \<open>Page, index and offset together determine the address: the indexing never aliases.\<close>

lemma same_word_iff:
  "page_number a = page_number b \<and> word_index a = word_index b \<longleftrightarrow> a AND - 4 = b AND - 4"
  unfolding page_number_eq word_index_eq word_unat_eq_iff [symmetric] word32_eq_iff all_less_32
  by (simp add: bit_simps) (rule iffI; elim conjE; intro conjI; assumption)

lemma address_split: "a AND - 4 = b AND - 4 \<Longrightarrow> a AND 3 = b AND 3 \<Longrightarrow> a = (b :: cint)"
  by (simp add: word32_eq_iff all_less_32 bit_simps)

lemma get_page_cases:
  obtains p mem' where "get_page mem a = (p, mem')"
    and "\<And>i. p i = peek mem (page_number a) i" and "peek mem' = peek mem"
    and "pages mem' (page_number a) = Some p"
proof -
  obtain p mem' where eq: "get_page mem a = (p, mem')" by (cases "get_page mem a")
  have "p i = peek mem (page_number a) i" for i
    using eq by (auto simp: get_page_def peek_def zero_page_def split: option.splits)
  moreover have "peek mem' = peek mem"
  proof (intro ext)
    fix pn i
    show "peek mem' pn i = peek mem pn i"
      using eq by (cases "pages mem (page_number a)")
        (auto simp: get_page_def peek_def zero_page_def)
  qed
  moreover have "pages mem' (page_number a) = Some p"
    using eq by (auto simp: get_page_def split: option.splits)
  ultimately show thesis using eq that by blast
qed

lemma peek_put_word:
  assumes "pages mem (page_number a) = Some p"
  shows "peek (put_word mem a p i v) pn j =
    (if pn = page_number a \<and> j = i then v else peek mem pn j)"
  using assms by (auto simp: put_word_def peek_def)

section \<open>The store is a little-endian byte memory\<close>

lemma view_cong:
  assumes "peek mem' = peek mem"
  shows "word_at mem' = word_at mem" and "byte_at mem' = byte_at mem"
  using assms by (simp_all add: fun_eq_iff word_at_def byte_at_def)

lemma aligned_add:
  assumes "a AND 3 = (0 :: cint)"
  shows "a + 1 = a OR 1" "a + 2 = a OR 2" "a + 3 = a OR 3"
proof -
  have "a AND 1 = 0" "a AND 2 = 0"
    using assms by (simp_all add: word32_eq_iff all_less_32 bit_simps)
  with assms show "a + 1 = a OR 1" "a + 2 = a OR 2" "a + 3 = a OR 3"
    using word_plus_and_or [of a 1] word_plus_and_or [of a 2] word_plus_and_or [of a 3]
    by simp_all
qed

lemma half_aligned_add: "a AND 1 = (0 :: cint) \<Longrightarrow> a + 1 = a OR 1"
  using word_plus_and_or [of a 1] by simp

lemma same_word_base: "word_at mem a = word_at mem b" if "a AND - 4 = b AND - 4"
  using same_word_iff [of a b] that by (simp add: word_at_def)

text \<open>A store of the addressed word, seen from every byte.\<close>

lemma byte_at_put_word:
  assumes "pages mem (page_number a) = Some p"
  shows "byte_at (put_word mem a p (word_index a) v) b =
    (if b AND - 4 = a AND - 4 then byte_of (unat (b AND 3)) v else byte_at mem b)"
  using same_word_iff [of b a]
  by (auto simp: byte_at_def word_at_def byte_of_def peek_put_word [OF assms])

lemma byte_at_word: "byte_at mem b = byte_of (unat (b AND 3)) (word_at mem b)"
  by (simp add: byte_at_def byte_of_def)

lemma memory_rd_b_view:
  "\<exists>mem'. memory_rd_b mem a = (ucast (byte_at mem a), mem') \<and> byte_at mem' = byte_at mem"
proof -
  obtain p mem' where p: "get_page mem a = (p, mem')" "p (word_index a) = word_at mem a"
    and v: "peek mem' = peek mem"
    using get_page_cases [of mem a] unfolding word_at_def by metis
  show ?thesis
    using low_two_bits [of a]
  proof (elim disjE)
  qed (simp_all add: memory_rd_b_def p view_cong [OF v] byte_at_def,
      (rule word32_eqI, simp add: all_less_32 bit_simps)+)
qed

lemma memory_wr_b_view: "byte_at (memory_wr_b mem a d) = (byte_at mem)(a := ucast d)"
proof
  fix b
  obtain p mem' where p: "get_page mem a = (p, mem')" "p (word_index a) = word_at mem a"
    and v: "peek mem' = peek mem" and m: "pages mem' (page_number a) = Some p"
    using get_page_cases [of mem a] unfolding word_at_def by metis
  note put = byte_at_put_word [OF m]
  show "byte_at (memory_wr_b mem a d) b = ((byte_at mem)(a := ucast d)) b"
  proof (cases "b AND - 4 = a AND - 4")
    case False
    then show ?thesis
      using low_two_bits [of a] by (auto simp: memory_wr_b_def p put view_cong [OF v])
  next
    case True
    then have w: "word_at mem b = word_at mem a" by (rule same_word_base)
    have ab: "b = a \<longleftrightarrow> b AND 3 = a AND 3" using address_split [OF True] by auto
    have "byte_at (memory_wr_b mem a d) b =
      (if b AND 3 = a AND 3 then ucast d else byte_of (unat (b AND 3)) (word_at mem a))"
      using low_two_bits [of a] low_two_bits [of b]
    proof (elim disjE)
    qed (simp_all add: memory_wr_b_def p put True byte_of_def,
        (rule word8_eqI, simp add: all_less_8 bit_simps)+)
    then show ?thesis by (simp add: ab byte_at_word w)
  qed
qed

lemma in_word_iff:
  assumes "a AND 3 = (0 :: cint)"
  shows "b AND - 4 = a AND - 4 \<longleftrightarrow> b = a \<or> b = a + 1 \<or> b = a + 2 \<or> b = a + 3"
proof
  assume eq: "b AND - 4 = a AND - 4"
  have "b = a OR (b AND 3)"
    using eq assms by (simp add: word32_eq_iff all_less_32 bit_simps)
  then show "b = a \<or> b = a + 1 \<or> b = a + 2 \<or> b = a + 3"
    using low_two_bits [of b] by (auto simp: aligned_add [OF assms])
next
  assume "b = a \<or> b = a + 1 \<or> b = a + 2 \<or> b = a + 3"
  then show "b AND - 4 = a AND - 4"
    unfolding aligned_add [OF assms]
    by (elim disjE) (simp_all add: word32_eq_iff all_less_32 bit_simps)
qed

lemma aligned_low_bits:
  assumes "a AND 3 = (0 :: cint)"
  shows "(a + 1) AND 3 = 1" "(a + 2) AND 3 = 2" "(a + 3) AND 3 = 3"
  using assms unfolding aligned_add [OF assms]
  by (simp_all add: word32_eq_iff all_less_32 bit_simps)

lemma word_at_aligned:
  assumes "a AND 3 = 0"
  shows "word_at mem (a + 1) = word_at mem a" "word_at mem (a + 2) = word_at mem a"
    "word_at mem (a + 3) = word_at mem a"
  using in_word_iff [OF assms] by (blast intro: same_word_base)+

lemma word_at_bytes:
  assumes "a AND 3 = 0"
  shows "word_at mem a =
    le_word (byte_at mem a) (byte_at mem (a + 1)) (byte_at mem (a + 2)) (byte_at mem (a + 3))"
  unfolding byte_at_word aligned_low_bits [OF assms] assms word_at_aligned [OF assms]
  by (simp add: byte_simps)

lemma memory_rd_w_view:
  assumes "a AND 3 = 0"
  shows "\<exists>mem'. memory_rd_w mem a = Inr (le_word (byte_at mem a) (byte_at mem (a + 1))
      (byte_at mem (a + 2)) (byte_at mem (a + 3)), mem') \<and> byte_at mem' = byte_at mem"
proof -
  obtain p mem' where p: "get_page mem a = (p, mem')" "p (word_index a) = word_at mem a"
    and v: "peek mem' = peek mem"
    using get_page_cases [of mem a] unfolding word_at_def by metis
  then show ?thesis
    using assms by (simp add: memory_rd_w_def view_cong [OF v] flip: word_at_bytes)
qed

lemma memory_wr_w_view:
  assumes "a AND 3 = 0"
  shows "\<exists>mem'. memory_wr_w mem a d = Inr mem' \<and> byte_at mem' = (byte_at mem)
    (a := byte_of 0 d, a + 1 := byte_of 1 d, a + 2 := byte_of 2 d, a + 3 := byte_of 3 d)"
proof -
  obtain p mem' where p: "get_page mem a = (p, mem')"
    and v: "peek mem' = peek mem" and m: "pages mem' (page_number a) = Some p"
    using get_page_cases [of mem a] by metis
  have "byte_at (put_word mem' a p (word_index a) d) = (byte_at mem)
    (a := byte_of 0 d, a + 1 := byte_of 1 d, a + 2 := byte_of 2 d, a + 3 := byte_of 3 d)"
    by (rule ext) (auto simp: byte_at_put_word [OF m] in_word_iff [OF assms]
        aligned_low_bits [OF assms] assms view_cong [OF v])
  then show ?thesis
    using assms p by (simp add: memory_wr_w_def)
qed

lemma half_word_at:
  assumes "a AND 1 = 0"
  shows "word_at mem (a + 1) = word_at mem a"
    and "(a + 1) AND 3 = (a AND 3) OR 1"
proof -
  show "word_at mem (a + 1) = word_at mem a"
    unfolding half_aligned_add [OF assms]
    by (rule same_word_base) (simp add: word32_eq_iff all_less_32 bit_simps)
  show "(a + 1) AND 3 = (a AND 3) OR 1"
    unfolding half_aligned_add [OF assms] by (simp add: word32_eq_iff all_less_32 bit_simps)
qed

lemma half_cases:
  assumes "a AND 1 = (0 :: cint)"
  obtains (lo) "a AND 3 = 0" "a AND 2 = 0" | (hi) "a AND 3 = 2" "a AND 2 = 2"
proof -
  have "a AND 1 = (a AND 3) AND 1" "a AND 2 = (a AND 3) AND 2"
    by (simp_all add: word32_eq_iff all_less_32 bit_simps)
  with assms low_two_bits [of a] show thesis
    using that by (elim disjE) simp_all
qed

definition le_half :: "byte \<Rightarrow> byte \<Rightarrow> cint" where
  "le_half b0 b1 = ucast b0 OR push_bit 8 (ucast b1)"

lemma memory_rd_h_view:
  assumes "a AND 1 = 0"
  shows "\<exists>mem'. memory_rd_h mem a = Inr (le_half (byte_at mem a) (byte_at mem (a + 1)), mem')
    \<and> byte_at mem' = byte_at mem"
proof -
  obtain p mem' where p: "get_page mem a = (p, mem')" "p (word_index a) = word_at mem a"
    and v: "peek mem' = peek mem"
    using get_page_cases [of mem a] unfolding word_at_def by metis
  have "le_half (byte_at mem a) (byte_at mem (a + 1)) =
    (if a AND 2 = 0 then word_at mem a AND 0xffff
     else signed_drop_bit 16 (word_at mem a) AND 0xffff)"
    unfolding byte_at_word half_word_at [OF assms] le_half_def byte_of_def
    using assms
    by (cases rule: half_cases)
      (simp_all, (rule word32_eqI, simp add: all_less_32 bit_simps)+)
  then show ?thesis
    using assms p by (auto simp: memory_rd_h_def view_cong [OF v])
qed

lemma memory_wr_h_view:
  assumes "a AND 1 = 0"
  shows "\<exists>mem'. memory_wr_h mem a d = Inr mem' \<and>
    byte_at mem' = (byte_at mem)(a := byte_of 0 d, a + 1 := byte_of 1 d)"
proof -
  obtain p mem' where p: "get_page mem a = (p, mem')" "p (word_index a) = word_at mem a"
    and v: "peek mem' = peek mem" and m: "pages mem' (page_number a) = Some p"
    using get_page_cases [of mem a] unfolding word_at_def by metis
  define w where "w = (if a AND 2 = 0
    then (word_at mem a AND 0xffff0000) OR (d AND 0x0000ffff)
    else (word_at mem a AND 0x0000ffff) OR push_bit 16 d)"
  have "byte_at (put_word mem' a p (word_index a) w) b =
    ((byte_at mem)(a := byte_of 0 d, a + 1 := byte_of 1 d)) b" for b
  proof (cases "b AND - 4 = a AND - 4")
    case False
    then have "b \<noteq> a" "b \<noteq> a + 1"
      unfolding half_aligned_add [OF assms]
      by (auto simp: word32_eq_iff all_less_32 bit_simps)
    with False show ?thesis by (simp add: byte_at_put_word [OF m] view_cong [OF v])
  next
    case True
    then have wb: "word_at mem b = word_at mem a" by (rule same_word_base)
    have base: "(a + 1) AND - 4 = a AND - 4"
      unfolding half_aligned_add [OF assms] by (simp add: word32_eq_iff all_less_32 bit_simps)
    have ba: "b = a \<longleftrightarrow> b AND 3 = a AND 3"
      using address_split [of b a] True by auto
    have ba1: "b = a + 1 \<longleftrightarrow> b AND 3 = (a AND 3) OR 1"
      using address_split [of b "a + 1"] True base half_word_at [OF assms] by auto
    have "byte_of (unat (b AND 3)) w = (if b AND 3 = (a AND 3) OR 1 then byte_of 1 d
      else if b AND 3 = a AND 3 then byte_of 0 d else byte_of (unat (b AND 3)) (word_at mem a))"
      using assms
    proof (cases rule: half_cases)
      case lo
      then show ?thesis using low_two_bits [of b] unfolding w_def byte_of_def
        by (elim disjE) (simp_all, (rule word8_eqI, simp add: all_less_8 bit_simps)+)
    next
      case hi
      then show ?thesis using low_two_bits [of b] unfolding w_def byte_of_def
        by (elim disjE) (simp_all, (rule word8_eqI, simp add: all_less_8 bit_simps)+)
    qed
    then show ?thesis
      by (simp add: byte_at_put_word [OF m] True ba ba1 byte_at_word [of mem b] wb)
  qed
  then have "byte_at (put_word mem' a p (word_index a) w) =
    (byte_at mem)(a := byte_of 0 d, a + 1 := byte_of 1 d)" ..
  moreover have "memory_wr_h mem a d = Inr (put_word mem' a p (word_index a) w)"
    using assms p by (simp add: memory_wr_h_def w_def Let_def)
  ultimately show ?thesis by blast
qed

text \<open>The error branches: an unaligned access ends the process, whatever is stored.\<close>

lemma memory_rd_w_unaligned: "a AND 3 \<noteq> 0 \<Longrightarrow> memory_rd_w mem a = Inl (Unaligned Word_read a)"
  by (simp add: memory_rd_w_def split: prod.splits)

lemma memory_rd_h_unaligned: "a AND 1 \<noteq> 0 \<Longrightarrow> memory_rd_h mem a = Inl (Unaligned Halfword_read a)"
  by (simp add: memory_rd_h_def Let_def split: prod.splits)

lemma memory_wr_w_unaligned: "a AND 3 \<noteq> 0 \<Longrightarrow> memory_wr_w mem a d = Inl (Unaligned Word_write a)"
  by (simp add: memory_wr_w_def)

lemma memory_wr_h_unaligned: "a AND 1 \<noteq> 0 \<Longrightarrow> memory_wr_h mem a d = Inl (Unaligned Halfword_write a)"
  by (simp add: memory_wr_h_def)

section \<open>The interface the simulator and the loader rely on\<close>

text \<open>
  What \<^verbatim>\<open>memory.h\<close> promises, as a contract over a byte view of the memory: an aligned
  access succeeds, loads are zero-extended and change nothing that is visible, stores
  change exactly the addressed bytes, unaligned word and halfword accesses stop.
\<close>

locale byte_memory =
  fixes view :: "'m \<Rightarrow> cint \<Rightarrow> byte"
    and rd_w :: "'m \<Rightarrow> cint \<Rightarrow> stop + (cint \<times> 'm)"
    and rd_h :: "'m \<Rightarrow> cint \<Rightarrow> stop + (cint \<times> 'm)"
    and rd_b :: "'m \<Rightarrow> cint \<Rightarrow> cint \<times> 'm"
    and wr_w :: "'m \<Rightarrow> cint \<Rightarrow> cint \<Rightarrow> stop + 'm"
    and wr_h :: "'m \<Rightarrow> cint \<Rightarrow> cint \<Rightarrow> stop + 'm"
    and wr_b :: "'m \<Rightarrow> cint \<Rightarrow> cint \<Rightarrow> 'm"
  assumes rd_w_aligned: "a AND 3 = 0 \<Longrightarrow> \<exists>m'. rd_w m a =
      Inr (le_word (view m a) (view m (a + 1)) (view m (a + 2)) (view m (a + 3)), m')
      \<and> view m' = view m"
    and rd_w_unaligned: "a AND 3 \<noteq> 0 \<Longrightarrow> rd_w m a = Inl (Unaligned Word_read a)"
    and rd_h_aligned: "a AND 1 = 0 \<Longrightarrow> \<exists>m'. rd_h m a =
      Inr (le_half (view m a) (view m (a + 1)), m') \<and> view m' = view m"
    and rd_h_unaligned: "a AND 1 \<noteq> 0 \<Longrightarrow> rd_h m a = Inl (Unaligned Halfword_read a)"
    and rd_b_any: "\<exists>m'. rd_b m a = (ucast (view m a), m') \<and> view m' = view m"
    and wr_w_aligned: "a AND 3 = 0 \<Longrightarrow> \<exists>m'. wr_w m a d = Inr m' \<and> view m' = (view m)
      (a := byte_of 0 d, a + 1 := byte_of 1 d, a + 2 := byte_of 2 d, a + 3 := byte_of 3 d)"
    and wr_w_unaligned: "a AND 3 \<noteq> 0 \<Longrightarrow> wr_w m a d = Inl (Unaligned Word_write a)"
    and wr_h_aligned: "a AND 1 = 0 \<Longrightarrow> \<exists>m'. wr_h m a d = Inr m' \<and> view m' =
      (view m)(a := byte_of 0 d, a + 1 := byte_of 1 d)"
    and wr_h_unaligned: "a AND 1 \<noteq> 0 \<Longrightarrow> wr_h m a d = Inl (Unaligned Halfword_write a)"
    and wr_b_any: "view (wr_b m a d) = (view m)(a := ucast d)"
begin

lemma word_roundtrip:
  assumes "a AND 3 = 0"
  shows "\<exists>m' m''. wr_w m a d = Inr m' \<and> rd_w m' a = Inr (d, m'') \<and> view m'' = view m'"
proof -
  obtain m' where m': "wr_w m a d = Inr m'" and v: "view m' = (view m)
      (a := byte_of 0 d, a + 1 := byte_of 1 d, a + 2 := byte_of 2 d, a + 3 := byte_of 3 d)"
    using wr_w_aligned [OF assms] by metis
  have "view m' a = byte_of 0 d" "view m' (a + 1) = byte_of 1 d"
    "view m' (a + 2) = byte_of 2 d" "view m' (a + 3) = byte_of 3 d"
    by (simp_all add: v)
  then show ?thesis
    using m' rd_w_aligned [OF assms, of m'] by (simp add: byte_simps)
qed

lemma word_write_bytes:
  assumes "a AND 3 = 0" and "k < 4"
  shows "\<exists>m' m''. wr_w m a d = Inr m' \<and> rd_b m' (a + of_nat k) = (ucast (byte_of k d), m'')"
proof -
  obtain m' where m': "wr_w m a d = Inr m'" and v: "view m' = (view m)
      (a := byte_of 0 d, a + 1 := byte_of 1 d, a + 2 := byte_of 2 d, a + 3 := byte_of 3 d)"
    using wr_w_aligned [OF assms(1)] by metis
  have "k = 0 \<or> k = 1 \<or> k = 2 \<or> k = 3" using assms(2) by auto
  then have "view m' (a + of_nat k) = byte_of k d" by (elim disjE) (simp_all add: v)
  then show ?thesis using m' rd_b_any [of m' "a + of_nat k"] by auto
qed

lemma byte_write_frame: "b \<noteq> a \<Longrightarrow> view (wr_b m a d) b = view m b"
  by (simp add: wr_b_any)

text \<open>Consecutive bytes written one by one, as the loader does.\<close>

lemma view_fold_wr_b_other:
  assumes "\<And>i. i < length ds \<Longrightarrow> b \<noteq> a + of_nat i"
  shows "view (snd (fold (\<lambda>d (a, m). (a + 1, wr_b m a d)) ds (a, m))) b = view m b"
  using assms
proof (induction ds arbitrary: a m)
  case (Cons d ds)
  have "b \<noteq> a" using Cons.prems [of 0] by simp
  moreover have "b \<noteq> (a + 1) + of_nat i" if "i < length ds" for i
    using Cons.prems [of "Suc i"] that by (simp add: add.assoc)
  ultimately show ?case by (simp add: Cons.IH wr_b_any)
qed simp

lemma view_fold_wr_b:
  assumes "length ds \<le> 2 ^ 32" and "i < length ds"
  shows "view (snd (fold (\<lambda>d (a, m). (a + 1, wr_b m a d)) ds (a, m))) (a + of_nat i) = ucast (ds ! i)"
  using assms
proof (induction ds arbitrary: a m i)
  case (Cons d ds)
  show ?case
  proof (cases i)
    case 0
    have "a \<noteq> (a + 1) + of_nat j" if "j < length ds" for j
    proof
      assume "a = a + 1 + of_nat j"
      then have "(of_nat (Suc j) :: cint) = 0" by (simp add: add.assoc)
      then have "2 ^ 32 dvd Suc j" by (simp add: word_of_nat_eq_0_iff del: of_nat_Suc)
      then show False using that Cons.prems(1) by (auto dest!: dvd_imp_le)
    qed
    then show ?thesis using 0 by (simp add: view_fold_wr_b_other wr_b_any)
  next
    case (Suc j)
    then show ?thesis
      using Cons.IH [of j "a + 1"] Cons.prems by (simp add: add.assoc)
  qed
qed simp

end

interpretation paged: byte_memory byte_at memory_rd_w memory_rd_h memory_rd_b
  memory_wr_w memory_wr_h memory_wr_b
  by unfold_locales
    (erule memory_rd_w_view memory_rd_w_unaligned memory_rd_h_view memory_rd_h_unaligned
      memory_wr_w_view memory_wr_w_unaligned memory_wr_h_view memory_wr_h_unaligned
     | rule memory_rd_b_view memory_wr_b_view)+

section \<open>Properties\<close>

text \<open>
  An aligned word store followed by a word load of the same address returns the
  stored value and leaves every byte as it was.
\<close>

theorem memory_word_roundtrip:
  assumes "a AND 3 = 0"
  shows "\<exists>mem' mem''. memory_wr_w mem a d = Inr mem' \<and> memory_rd_w mem' a = Inr (d, mem'')
    \<and> byte_at mem'' = byte_at mem'"
  using assms by (rule paged.word_roundtrip)

theorem memory_word_roundtrip_witness:
  "\<exists>mem' mem''. memory_wr_w memory_create 0x1000000 7 = Inr mem' \<and>
    memory_rd_w mem' 0x1000000 = Inr (7, mem'') \<and> byte_at mem'' = byte_at mem'"
  by (rule memory_word_roundtrip) simp

text \<open>
  C19: the paged, word-organised store is a flat byte memory: a byte store at any address
  changes that byte to the low eight bits of the data and no other byte of the 2^32, and
  a byte load returns the byte, zero-extended, changing nothing.
\<close>

theorem memory_byte_store_load:
  "byte_at (memory_wr_b mem a d) = (byte_at mem)(a := ucast d) \<and>
   (\<exists>mem'. memory_rd_b mem b = (ucast (byte_at mem b), mem') \<and> byte_at mem' = byte_at mem)"
  by (intro conjI paged.wr_b_any paged.rd_b_any)

text \<open>
  The store is little-endian: after a word store the byte at offset \<open>k\<close> of the word
  is bits 8k to 8k+7 of the data.
\<close>

theorem memory_little_endian:
  assumes "a AND 3 = 0" and "k < 4"
  shows "\<exists>mem' mem''. memory_wr_w mem a d = Inr mem' \<and>
    memory_rd_b mem' (a + of_nat k) = (ucast (byte_of k d), mem'')"
  using assms by (rule paged.word_write_bytes)

theorem memory_little_endian_witness:
  "\<exists>mem' mem''. memory_wr_w memory_create 8 0x01020304 = Inr mem' \<and>
    memory_rd_b mem' (8 + of_nat 2) = (ucast (byte_of 2 0x01020304), mem'')"
  by (rule memory_little_endian) simp_all

end
