(* ===== verification/Sim_Assembly.thy ===== *)
theory Sim_Assembly
  imports Sim_Memory "HOL-Library.Signed_Division"
begin

text \<open>
  The table of disassembled instructions, \<^verbatim>\<open>A5/src/assembly.c\<close>: a hash table from
  addresses to strings with linear probing over at most four slots, which grows and
  rehashes when no slot is free. Sizes and addresses are C \<^verbatim>\<open>int\<close> values, written as
  \<open>int\<close>; \<open>Undefined_behaviour\<close> stands for an index outside the table (a negative address
  gives a negative remainder) and for a size beyond \<^verbatim>\<open>INT_MAX\<close>.

  The lemmas show that a table reached from \<open>assembly_create\<close> implements a finite map as
  long as the addresses are below 5 * 2^28 - 1, and that growing always terminates.
\<close>

section \<open>State\<close>

record entry =
  e_valid :: bool
  e_addr :: int
  e_text :: string

record assembly =
  table_size :: int
  lookup_table :: "entry list"

abbreviation INT_MAX :: int where
  "INT_MAX \<equiv> 2147483647"

definition NOT_FOUND :: int where
  "NOT_FOUND = -1"

text \<open>A zeroed entry, as \<^verbatim>\<open>calloc\<close> returns it.\<close>

definition zero_entry :: entry where
  "zero_entry = \<lparr>e_valid = False, e_addr = 0, e_text = ''''\<rparr>"

definition assembly_create :: assembly where
  "assembly_create = \<lparr>table_size = 4, lookup_table = replicate 4 zero_entry\<rparr>"

section \<open>Operations\<close>

text \<open>
  The probing loop that \<^verbatim>\<open>assembly_find_entry\<close> and \<^verbatim>\<open>assembly_find_empty\<close> share, up to
  the test on the entry: \<open>n\<close> slots are left to look at.
\<close>

fun probe :: "(entry \<Rightarrow> bool) \<Rightarrow> assembly \<Rightarrow> int \<Rightarrow> nat \<Rightarrow> stop + int" where
  "probe P as idx 0 = Inr NOT_FOUND"
| "probe P as idx (Suc n) =
     (if idx < 0 \<or> int (length (lookup_table as)) \<le> idx then Inl Undefined_behaviour
      else if P (lookup_table as ! nat idx) then Inr idx
      else probe P as (if idx + 1 = table_size as then 0 else idx + 1) n)"

definition assembly_find_entry :: "assembly \<Rightarrow> int \<Rightarrow> stop + int" where
  "assembly_find_entry as addr =
     (if table_size as = 0 then Inl Undefined_behaviour
      else probe (\<lambda>e. e_valid e \<and> e_addr e = addr) as (addr smod table_size as) 4)"

definition assembly_find_empty :: "assembly \<Rightarrow> int \<Rightarrow> stop + int" where
  "assembly_find_empty as addr =
     (if table_size as = 0 then Inl Undefined_behaviour
      else probe (\<lambda>e. \<not> e_valid e) as (addr smod table_size as) 4)"

definition put_entry :: "assembly \<Rightarrow> int \<Rightarrow> entry \<Rightarrow> assembly" where
  "put_entry as idx e = as\<lparr>lookup_table := (lookup_table as)[nat idx := e]\<rparr>"

text \<open>
  The inner loop of \<^verbatim>\<open>assembly_grow_and_rehash\<close> over the old table: \<open>Inr None\<close> is the
  \<^verbatim>\<open>break\<close> on a collision.
\<close>

fun rehash_loop :: "entry list \<Rightarrow> assembly \<Rightarrow> stop + assembly option" where
  "rehash_loop [] as = Inr (Some as)"
| "rehash_loop (e # es) as =
     (if e_valid e then
        seq (assembly_find_empty as (e_addr e)) (\<lambda>new_idx.
          if new_idx = NOT_FOUND then Inr None
          else rehash_loop es (put_entry as new_idx e))
      else rehash_loop es as)"

text \<open>The \<^verbatim>\<open>do ... while (!done)\<close> loop: a bigger table after each collision.\<close>

function grow_loop :: "entry list \<Rightarrow> int \<Rightarrow> stop + assembly" where
  "grow_loop old_table new_size =
     (if new_size < 0 \<or> INT_MAX < new_size then Inl Undefined_behaviour
      else case rehash_loop old_table
             \<lparr>table_size = new_size, lookup_table = replicate (nat new_size) zero_entry\<rparr> of
             Inl e \<Rightarrow> Inl e
           | Inr None \<Rightarrow> grow_loop old_table (1 + new_size * 2)
           | Inr (Some as) \<Rightarrow> Inr as)"
  by pat_completeness auto
termination
  by (relation "measure (\<lambda>(_, n). nat (INT_MAX + 1 - n))") auto

declare grow_loop.simps [simp del]

definition assembly_grow_and_rehash :: "assembly \<Rightarrow> stop + assembly" where
  "assembly_grow_and_rehash as = grow_loop (lookup_table as) (1 + 2 * table_size as)"

lemma table_size_rehash: "rehash_loop es as = Inr (Some as') \<Longrightarrow> table_size as' = table_size as"
  by (induction es arbitrary: as) (auto simp: seq_eq_Inr put_entry_def split: if_splits)

lemma table_size_grow_loop:
  "grow_loop old n = Inr as' \<Longrightarrow> n \<le> table_size as' \<and> 0 \<le> table_size as' \<and> table_size as' \<le> INT_MAX"
proof (induction old n rule: grow_loop.induct)
  case (1 old n)
  let ?new = "\<lparr>table_size = n, lookup_table = replicate (nat n) zero_entry\<rparr>"
  from "1.prems" have n: "\<not> (n < 0 \<or> INT_MAX < n)"
    by (auto simp: grow_loop.simps [of old n])
  show ?case
  proof (cases "rehash_loop old ?new")
    case (Inl e)
    then show ?thesis using "1.prems" n by (simp add: grow_loop.simps [of old n])
  next
    case (Inr r)
    show ?thesis
    proof (cases r)
      case None
      then show ?thesis
        using "1.IH" [OF n Inr] "1.prems" n Inr by (auto simp: grow_loop.simps [of old n])
    next
      case (Some as)
      then show ?thesis
        using "1.prems" n Inr table_size_rehash [of old ?new as]
        by (auto simp: grow_loop.simps [of old n])
    qed
  qed
qed

lemma table_size_grow:
  "assembly_grow_and_rehash as = Inr as' \<Longrightarrow>
   table_size as < table_size as' \<and> table_size as' \<le> INT_MAX"
  unfolding assembly_grow_and_rehash_def by (drule table_size_grow_loop) linarith

text \<open>The loop of \<^verbatim>\<open>assembly_set\<close>: grow until a slot within reach is free.\<close>

function empty_slot :: "assembly \<Rightarrow> int \<Rightarrow> stop + (assembly \<times> int)" where
  "empty_slot as addr =
     (case assembly_find_empty as addr of
        Inl e \<Rightarrow> Inl e
      | Inr idx \<Rightarrow>
          if idx = NOT_FOUND then
            (case assembly_grow_and_rehash as of
               Inl e \<Rightarrow> Inl e
             | Inr as' \<Rightarrow> empty_slot as' addr)
          else Inr (as, idx))"
  by pat_completeness auto
termination
  by (relation "measure (\<lambda>(as, _). nat (INT_MAX + 1 - table_size as))")
    (auto dest: table_size_grow)

declare empty_slot.simps [simp del]

definition assembly_set :: "assembly \<Rightarrow> int \<Rightarrow> string \<Rightarrow> stop + assembly" where
  "assembly_set as addr txt =
     seq (assembly_find_entry as addr) (\<lambda>idx.
       seq (if idx = NOT_FOUND then empty_slot as addr else Inr (as, idx)) (\<lambda>(as, idx).
         Inr (put_entry as idx \<lparr>e_valid = True, e_addr = addr, e_text = txt\<rparr>)))"

definition assembly_get :: "assembly \<Rightarrow> int \<Rightarrow> stop + string" where
  "assembly_get as addr =
     seq (assembly_find_entry as addr) (\<lambda>idx.
       if idx = NOT_FOUND then Inr '''' else Inr (e_text (lookup_table as ! nat idx)))"

text \<open>\<^verbatim>\<open>assembly_delete\<close> frees the strings and marks every entry invalid.\<close>

definition assembly_delete :: "assembly \<Rightarrow> assembly" where
  "assembly_delete as =
     as\<lparr>lookup_table := map (\<lambda>e. if e_valid e then e\<lparr>e_valid := False\<rparr> else e) (lookup_table as)\<rparr>"

section \<open>What the table stores\<close>

definition uniq :: "entry list \<Rightarrow> bool" where
  "uniq t \<longleftrightarrow> (\<forall>i<length t. \<forall>j<length t. e_valid (t ! i) \<and> e_valid (t ! j) \<and>
     e_addr (t ! i) = e_addr (t ! j) \<longrightarrow> i = j)"

definition has :: "entry list \<Rightarrow> int \<Rightarrow> string \<Rightarrow> bool" where
  "has t a x \<longleftrightarrow> (\<exists>e \<in> set t. e_valid e \<and> e_addr e = a \<and> e_text e = x)"

text \<open>An entry is in reach of the probing when it lies in the four slots from its home.\<close>

definition slot :: "nat \<Rightarrow> int \<Rightarrow> nat \<Rightarrow> nat" where
  "slot len a k = (nat a + k) mod len"

definition in_reach :: "entry list \<Rightarrow> bool" where
  "in_reach t \<longleftrightarrow> (\<forall>i<length t. e_valid (t ! i) \<longrightarrow>
     0 \<le> e_addr (t ! i) \<and> (\<exists>k<4. i = slot (length t) (e_addr (t ! i)) k))"

definition at_home :: "entry list \<Rightarrow> bool" where
  "at_home t \<longleftrightarrow> (\<forall>i<length t. e_valid (t ! i) \<longrightarrow> e_addr (t ! i) = int i)"

definition asm_shape :: "assembly \<Rightarrow> bool" where
  "asm_shape as \<longleftrightarrow> table_size as = int (length (lookup_table as)) \<and> 4 \<le> length (lookup_table as) \<and>
     uniq (lookup_table as) \<and> in_reach (lookup_table as)"

text \<open>The abstraction: the map from addresses to the stored text.\<close>

definition asm_map :: "assembly \<Rightarrow> int \<Rightarrow> string option" where
  "asm_map as = map_of (map (\<lambda>e. (e_addr e, e_text e)) (filter e_valid (lookup_table as)))"

lemma has_nth: "has t a x \<longleftrightarrow> (\<exists>i<length t. e_valid (t ! i) \<and> e_addr (t ! i) = a \<and> e_text (t ! i) = x)"
  unfolding has_def by (metis in_set_conv_nth)

lemma has_unique: "uniq t \<Longrightarrow> has t a x \<Longrightarrow> has t a y \<Longrightarrow> x = y"
  by (auto simp: has_nth uniq_def)

lemma asm_map_has:
  assumes "uniq (lookup_table as)"
  shows "asm_map as a = Some x \<longleftrightarrow> has (lookup_table as) a x"
proof
  assume "asm_map as a = Some x"
  then show "has (lookup_table as) a x"
    by (auto simp: asm_map_def has_def dest!: map_of_SomeD)
next
  assume h: "has (lookup_table as) a x"
  then have "asm_map as a \<noteq> None"
    by (auto simp: asm_map_def has_def map_of_eq_None_iff image_iff)
  then obtain y where y: "asm_map as a = Some y" by blast
  then have "has (lookup_table as) a y"
    by (auto simp: asm_map_def has_def dest!: map_of_SomeD)
  with h y show "asm_map as a = Some x"
    using has_unique [OF assms] by blast
qed

lemma asm_map_eqI:
  assumes "uniq (lookup_table as)" and "\<And>a x. has (lookup_table as) a x \<longleftrightarrow> m a = Some x"
  shows "asm_map as = m"
proof
  fix a show "asm_map as a = m a"
    using asm_map_has [OF assms(1), of a] assms(2) [of a] by (cases "m a"; cases "asm_map as a") auto
qed

section \<open>Probing\<close>

text \<open>
  Either the first entry in reach that passes the test is returned, or none of the \<open>n\<close>
  entries passes it.
\<close>

lemma probe_spec:
  assumes "table_size as = int (length (lookup_table as))" and "i < length (lookup_table as)"
  shows "(\<exists>k<n. P (lookup_table as ! ((i + k) mod length (lookup_table as))) \<and>
        (\<forall>k'<k. \<not> P (lookup_table as ! ((i + k') mod length (lookup_table as)))) \<and>
        probe P as (int i) n = Inr (int ((i + k) mod length (lookup_table as))))
    \<or> ((\<forall>k<n. \<not> P (lookup_table as ! ((i + k) mod length (lookup_table as)))) \<and>
        probe P as (int i) n = Inr NOT_FOUND)"
  using assms(2)
proof (induction n arbitrary: i)
  case (Suc n)
  let ?len = "length (lookup_table as)"
  let ?Q = "\<lambda>i k. P (lookup_table as ! ((i + k) mod ?len))"
  let ?j = "(i + 1) mod ?len"
  have j: "(if int i + 1 = table_size as then 0 else int i + 1) = int ?j"
    using Suc.prems assms(1) by (auto simp: mod_if)
  have Q: "?Q ?j k = ?Q i (Suc k)" and slot: "(?j + k) mod ?len = (i + Suc k) mod ?len" for k
    by (simp_all add: mod_simps)
  show ?case
  proof (cases "P (lookup_table as ! i)")
    case True
    then have "?Q i 0 \<and> (\<forall>k'<0. \<not> ?Q i k') \<and> probe P as (int i) (Suc n) = Inr (int ((i + 0) mod ?len))"
      using Suc.prems by simp
    then show ?thesis by blast
  next
    case False
    then have step: "probe P as (int i) (Suc n) = probe P as (int ?j) n"
      using Suc.prems by (simp add: j)
    have "?j < ?len" using Suc.prems by (intro mod_less_divisor) auto
    from Suc.IH [OF this] show ?thesis
      unfolding step slot
    proof (elim disjE exE conjE)
      fix k assume "k < n" "?Q i (Suc k)" "\<forall>k'<k. \<not> ?Q i (Suc k')"
        "probe P as (int ?j) n = Inr (int ((i + Suc k) mod ?len))"
      moreover have "\<not> ?Q i 0" using False Suc.prems by simp
      ultimately show "(\<exists>k<Suc n. ?Q i k \<and> (\<forall>k'<k. \<not> ?Q i k') \<and>
          probe P as (int ?j) n = Inr (int ((i + k) mod ?len))) \<or>
        ((\<forall>k<Suc n. \<not> ?Q i k) \<and> probe P as (int ?j) n = Inr NOT_FOUND)"
        by (intro disjI1 exI [of _ "Suc k"]) (auto simp: less_Suc_eq_0_disj)
    next
      assume "\<forall>k<n. \<not> ?Q i (Suc k)" "probe P as (int ?j) n = Inr NOT_FOUND"
      moreover have "\<not> ?Q i 0" using False Suc.prems by simp
      ultimately show "(\<exists>k<Suc n. ?Q i k \<and> (\<forall>k'<k. \<not> ?Q i k') \<and>
          probe P as (int ?j) n = Inr (int ((i + k) mod ?len))) \<or>
        ((\<forall>k<Suc n. \<not> ?Q i k) \<and> probe P as (int ?j) n = Inr NOT_FOUND)"
        by (intro disjI2) (auto simp: less_Suc_eq_0_disj)
    qed
  qed
qed simp

lemma home_index:
  assumes "table_size as = int (length (lookup_table as))" and "4 \<le> length (lookup_table as)" and "0 \<le> a"
  shows "a smod table_size as = int (slot (length (lookup_table as)) a 0)"
  using assms by (simp add: signed_modulo_int_def slot_def sgn_if zmod_int)

lemma slot_shift: "(slot len a 0 + k) mod len = slot len a k"
  by (simp add: slot_def mod_simps)

lemma slot_less: "0 < len \<Longrightarrow> slot len a k < len"
  by (simp add: slot_def)

lemma probe_from_home:
  assumes "asm_shape as" and "0 \<le> a"
  obtains (found) k where "k < 4" "P (lookup_table as ! slot (length (lookup_table as)) a k)"
      "\<And>k'. k' < k \<Longrightarrow> \<not> P (lookup_table as ! slot (length (lookup_table as)) a k')"
      "probe P as (a smod table_size as) 4 = Inr (int (slot (length (lookup_table as)) a k))"
  | (missing) "\<And>k. k < 4 \<Longrightarrow> \<not> P (lookup_table as ! slot (length (lookup_table as)) a k)"
      "probe P as (a smod table_size as) 4 = Inr NOT_FOUND"
proof -
  let ?len = "length (lookup_table as)"
  have sz: "table_size as = int ?len" and len: "4 \<le> ?len"
    using assms by (auto simp: asm_shape_def)
  have "0 < ?len" using len by linarith
  then have "slot ?len a 0 < ?len" by (rule slot_less)
  from probe_spec [OF sz this, of 4 P] that show thesis
    unfolding slot_shift home_index [OF sz len assms(2)] by blast
qed

lemma find_entry_spec:
  assumes "asm_shape as" and "0 \<le> a"
  shows "(\<exists>i<length (lookup_table as). assembly_find_entry as a = Inr (int i) \<and>
      e_valid (lookup_table as ! i) \<and> e_addr (lookup_table as ! i) = a)
    \<or> (assembly_find_entry as a = Inr NOT_FOUND \<and> (\<forall>x. \<not> has (lookup_table as) a x))"
proof -
  let ?t = "lookup_table as"
  have len: "4 \<le> length ?t" and sz: "table_size as \<noteq> 0" and reach: "in_reach ?t"
    using assms by (auto simp: asm_shape_def)
  have lt: "slot (length ?t) a k < length ?t" for k
    using len by (intro slot_less) linarith
  show ?thesis
  proof (cases rule: probe_from_home [OF assms, of "\<lambda>e. e_valid e \<and> e_addr e = a",
        case_names found missing])
    case (found k)
    then show ?thesis
      using lt [of k] sz unfolding assembly_find_entry_def by auto
  next
    case missing
    have "\<not> has ?t a x" for x
    proof
      assume "has ?t a x"
      then obtain i where i: "i < length ?t" "e_valid (?t ! i)" "e_addr (?t ! i) = a"
        by (auto simp: has_nth)
      then obtain k where "k < 4" "i = slot (length ?t) a k"
        using reach unfolding in_reach_def by blast
      then show False using missing(1) [of k] i by simp
    qed
    then show ?thesis using missing(2) sz by (simp add: assembly_find_entry_def)
  qed
qed

lemma find_empty_spec:
  assumes "asm_shape as" and "0 \<le> a"
  shows "(\<exists>i k. k < 4 \<and> i = slot (length (lookup_table as)) a k \<and> i < length (lookup_table as) \<and>
      assembly_find_empty as a = Inr (int i) \<and> \<not> e_valid (lookup_table as ! i) \<and>
      (\<not> e_valid (lookup_table as ! slot (length (lookup_table as)) a 0) \<longrightarrow> k = 0))
    \<or> (assembly_find_empty as a = Inr NOT_FOUND \<and>
       e_valid (lookup_table as ! slot (length (lookup_table as)) a 0))"
proof -
  let ?t = "lookup_table as"
  have len: "4 \<le> length ?t" and sz: "table_size as \<noteq> 0"
    using assms by (auto simp: asm_shape_def)
  have lt: "slot (length ?t) a k < length ?t" for k
    using len by (intro slot_less) linarith
  show ?thesis
  proof (cases rule: probe_from_home [OF assms, of "\<lambda>e. \<not> e_valid e", case_names found missing])
    case (found k)
    then show ?thesis
      using lt [of k] sz found(3) [of 0] unfolding assembly_find_empty_def by auto
  next
    case missing
    then show ?thesis using missing(1) [of 0] sz by (simp add: assembly_find_empty_def)
  qed
qed

section \<open>Storing an entry\<close>

lemma put_entry_spec:
  assumes shape: "asm_shape as" and i: "i < length (lookup_table as)"
    and own: "\<forall>j<length (lookup_table as). e_valid (lookup_table as ! j) \<and>
      e_addr (lookup_table as ! j) = a \<longrightarrow> j = i"
    and old: "e_valid (lookup_table as ! i) \<longrightarrow> e_addr (lookup_table as ! i) = a"
    and reach: "0 \<le> a" "k < 4" "i = slot (length (lookup_table as)) a k"
    and e: "e_valid e" "e_addr e = a"
  shows "asm_shape (put_entry as (int i) e)"
    and "has (lookup_table (put_entry as (int i) e)) b y \<longleftrightarrow>
      (if b = a then y = e_text e else has (lookup_table as) b y)"
proof -
  let ?t = "lookup_table as"
  have nth: "(?t[i := e]) ! j = (if j = i then e else ?t ! j)" if "j < length ?t" for j
    using that by auto
  have "uniq (?t[i := e])"
    unfolding uniq_def length_list_update
  proof (intro allI impI)
    fix p q
    assume pq: "p < length ?t" "q < length ?t"
      "e_valid (?t[i := e] ! p) \<and> e_valid (?t[i := e] ! q) \<and> e_addr (?t[i := e] ! p) = e_addr (?t[i := e] ! q)"
    show "p = q"
    proof (cases "p = i \<or> q = i")
      case True
      have clash: "y = i" if "y < length ?t" "e_valid (?t[i := e] ! y)" "e_addr (?t[i := e] ! y) = a" for y
      proof (rule ccontr)
        assume "y \<noteq> i"
        then have "e_valid (?t ! y)" "e_addr (?t ! y) = a" using that by simp_all
        with own that(1) \<open>y \<noteq> i\<close> show False by blast
      qed
      have "e_addr (?t[i := e] ! i) = a" using i e(2) by simp
      then show ?thesis using True pq clash [of p] clash [of q] by metis
    next
      case False
      then show ?thesis using pq shape by (auto simp: nth asm_shape_def uniq_def)
    qed
  qed
  moreover have "in_reach (?t[i := e])"
    unfolding in_reach_def length_list_update
  proof (intro allI impI)
    fix j assume j: "j < length ?t" "e_valid (?t[i := e] ! j)"
    show "0 \<le> e_addr (?t[i := e] ! j) \<and> (\<exists>k<4. j = slot (length ?t) (e_addr (?t[i := e] ! j)) k)"
    proof (cases "j = i")
      case True
      then have adr: "e_addr (?t[i := e] ! j) = a" using j e(2) by simp
      show ?thesis
        unfolding adr using True reach(1,3) by (intro conjI exI [of _ k] reach(2)) simp_all
    next
      case False
      then show ?thesis using shape j by (simp add: asm_shape_def in_reach_def)
    qed
  qed
  ultimately show "asm_shape (put_entry as (int i) e)"
    using shape by (simp add: asm_shape_def put_entry_def)
  show "has (lookup_table (put_entry as (int i) e)) b y \<longleftrightarrow>
      (if b = a then y = e_text e else has ?t b y)"
  proof (cases "b = a")
    case True
    have "has (?t[i := e]) a y \<longleftrightarrow> y = e_text e"
    proof
      assume "has (?t[i := e]) a y"
      then show "y = e_text e"
        unfolding has_nth length_list_update using own nth by metis
    next
      assume "y = e_text e"
      then show "has (?t[i := e]) a y"
        using i e by (auto simp: has_def intro!: bexI [of _ e] set_update_memI)
    qed
    with True show ?thesis by (simp add: put_entry_def)
  next
    case False
    have "has (?t[i := e]) b y \<longleftrightarrow> has ?t b y"
      unfolding has_nth length_list_update
      using e old False by (auto simp: nth split: if_splits)
    with False show ?thesis by (simp add: put_entry_def)
  qed
qed

lemma at_home_put_entry:
  assumes "at_home (lookup_table as)" and "e_addr e = int i"
  shows "at_home (lookup_table (put_entry as (int i) e))"
  unfolding at_home_def
proof (intro allI impI)
  fix j
  assume "j < length (lookup_table (put_entry as (int i) e))"
    and "e_valid (lookup_table (put_entry as (int i) e) ! j)"
  then show "e_addr (lookup_table (put_entry as (int i) e) ! j) = int j"
    using assms by (cases "j = i") (auto simp: at_home_def put_entry_def)
qed

lemma length_put_entry [simp]: "length (lookup_table (put_entry as i e)) = length (lookup_table as)"
  by (simp add: put_entry_def)

section \<open>Rehashing keeps every entry\<close>

definition addresses :: "entry list \<Rightarrow> int set" where
  "addresses t = {a. \<exists>x. has t a x}"

lemma not_has_other:
  assumes "a \<notin> addresses t" and "j < length t" and "e_valid (t ! j)"
  shows "e_addr (t ! j) \<noteq> a"
  using assms by (auto simp: addresses_def has_nth)

lemma uniq_ConsD:
  assumes "uniq (e # es)"
  shows "uniq es" and "e_valid e \<Longrightarrow> e_addr e \<notin> addresses es"
proof -
  show "uniq es"
    unfolding uniq_def
  proof (intro allI impI)
    fix i j assume "i < length es" "j < length es"
      "e_valid (es ! i) \<and> e_valid (es ! j) \<and> e_addr (es ! i) = e_addr (es ! j)"
    then have "Suc i = Suc j"
      using assms unfolding uniq_def by (metis Suc_less_eq length_Cons nth_Cons_Suc)
    then show "i = j" by simp
  qed
  show "e_addr e \<notin> addresses es" if "e_valid e"
  proof
    assume "e_addr e \<in> addresses es"
    then obtain j where "j < length es" "e_valid (es ! j)" "e_addr (es ! j) = e_addr e"
      by (auto simp: addresses_def has_nth)
    then have "Suc j = 0"
      using assms that unfolding uniq_def
      by (metis Suc_less_eq length_Cons nth_Cons_0 nth_Cons_Suc zero_less_Suc)
    then show False by simp
  qed
qed

lemma has_Cons: "has (e # es) a x \<longleftrightarrow> (e_valid e \<and> e_addr e = a \<and> e_text e = x) \<or> has es a x"
  by (auto simp: has_def)

text \<open>
  A pass over the old table either hits a collision or stores every valid entry. With
  \<open>H\<close> (every entry can go to its home slot) there is no collision.
\<close>

lemma rehash_spec:
  assumes "asm_shape as" and "uniq es" and "\<forall>a \<in> addresses es. 0 \<le> a"
    and "addresses es \<inter> addresses (lookup_table as) = {}"
    and "H \<longrightarrow> at_home (lookup_table as) \<and> (\<forall>a \<in> addresses es. a < int (length (lookup_table as)))"
  shows "rehash_loop es as = Inr None \<and> \<not> H \<or> (\<exists>as'. rehash_loop es as = Inr (Some as') \<and>
    asm_shape as' \<and> length (lookup_table as') = length (lookup_table as) \<and>
    has (lookup_table as') = (\<lambda>a x. has (lookup_table as) a x \<or> has es a x) \<and>
    (H \<longrightarrow> at_home (lookup_table as')))"
  using assms
proof (induction es arbitrary: as)
  case Nil
  then show ?case by (auto simp: has_def fun_eq_iff)
next
  case (Cons e es)
  let ?t = "lookup_table as"
  have es: "uniq es" "\<forall>a \<in> addresses es. 0 \<le> a"
    using Cons.prems uniq_ConsD by (auto simp: addresses_def has_Cons)
  show ?case
  proof (cases "e_valid e")
    case False
    then have "has (e # es) = has es" "addresses (e # es) = addresses es"
      by (auto simp: has_Cons addresses_def fun_eq_iff)
    then show ?thesis
      using Cons.IH [OF Cons.prems(1) es] Cons.prems(4,5) False by simp
  next
    case True
    let ?a = "e_addr e"
    have adr: "addresses (e # es) = insert ?a (addresses es)"
      using True by (auto simp: addresses_def has_Cons)
    have a0: "0 \<le> ?a" and new: "?a \<notin> addresses ?t" and aes: "?a \<notin> addresses es"
      using Cons.prems uniq_ConsD(2) [OF Cons.prems(2)] True by (auto simp: adr)
    have home_free: "slot (length ?t) ?a 0 = nat ?a \<and> \<not> e_valid (?t ! nat ?a)" if H
    proof -
      have "nat ?a < length ?t" using that Cons.prems(5) a0 by (auto simp: adr)
      then show ?thesis
        using that Cons.prems(5) not_has_other [OF new, of "nat ?a"] a0
        by (auto simp: at_home_def slot_def)
    qed
    from find_empty_spec [OF Cons.prems(1) a0] show ?thesis
    proof (elim disjE exE conjE)
      assume miss: "assembly_find_empty as ?a = Inr NOT_FOUND" "e_valid (?t ! slot (length ?t) ?a 0)"
      then have "\<not> H" using home_free by auto
      then show ?thesis using True miss by simp
    next
      fix i k
      assume f: "k < 4" "i = slot (length ?t) ?a k" "i < length ?t"
        "assembly_find_empty as ?a = Inr (int i)" "\<not> e_valid (?t ! i)"
        and k0: "\<not> e_valid (?t ! slot (length ?t) ?a 0) \<longrightarrow> k = 0"
      let ?as = "put_entry as (int i) e"
      have step: "rehash_loop (e # es) as = rehash_loop es ?as"
        using True f by (simp add: NOT_FOUND_def)
      have own: "\<forall>j<length ?t. e_valid (?t ! j) \<and> e_addr (?t ! j) = ?a \<longrightarrow> j = i"
        using not_has_other [OF new] by auto
      have old: "e_valid (?t ! i) \<longrightarrow> e_addr (?t ! i) = ?a"
        using f(5) by simp
      note put = put_entry_spec [OF Cons.prems(1) f(3) own old a0 f(1,2) True refl]
      have h: "has (lookup_table ?as) b y \<longleftrightarrow> has ?t b y \<or> (b = ?a \<and> y = e_text e)" for b y
        using put(2) [of b y] new by (auto simp: addresses_def)
      have "addresses (lookup_table ?as) = insert ?a (addresses ?t)"
        by (auto simp: addresses_def h)
      then have disj: "addresses es \<inter> addresses (lookup_table ?as) = {}"
        using Cons.prems(4) aes by (auto simp: adr)
      have home: "H \<longrightarrow> at_home (lookup_table ?as) \<and>
          (\<forall>a \<in> addresses es. a < int (length (lookup_table ?as)))"
      proof
        assume H
        then have "?a = int i" using home_free k0 f(2) a0 by auto
        with \<open>H\<close> Cons.prems(5) show "at_home (lookup_table ?as) \<and>
            (\<forall>a \<in> addresses es. a < int (length (lookup_table ?as)))"
          by (simp add: adr at_home_put_entry)
      qed
      have hs: "(\<lambda>b y. has (lookup_table ?as) b y \<or> has es b y) = (\<lambda>b y. has ?t b y \<or> has (e # es) b y)"
        using True by (auto simp: h has_Cons fun_eq_iff)
      show ?thesis
        unfolding step using Cons.IH [OF put(1) es disj home] by (simp add: hs)
    qed
  qed
qed

section \<open>The invariant of the table\<close>

text \<open>
  The sizes a table takes are 5 * 2^k - 1, and 5 * 2^28 - 1 is the largest of them below
  \<^verbatim>\<open>INT_MAX\<close>. With every address below that bound the largest table holds each entry
  at its home slot, so it never has to grow.
\<close>

definition cap :: "nat \<Rightarrow> nat" where
  "cap k = 5 * 2 ^ k - 1"

definition ADDR_LIMIT :: int where
  "ADDR_LIMIT = 1342177279"

definition asm_ok :: "assembly \<Rightarrow> bool" where
  "asm_ok as \<longleftrightarrow> asm_shape as \<and>
     (\<exists>k\<le>28. length (lookup_table as) = cap k \<and> (k = 28 \<longrightarrow> at_home (lookup_table as))) \<and>
     (\<forall>a \<in> addresses (lookup_table as). 0 \<le> a \<and> a < ADDR_LIMIT)"

lemma cap_Suc: "cap (Suc k) = 1 + cap k * 2"
proof -
  have "1 \<le> (2 :: nat) ^ k" by simp
  then show ?thesis unfolding cap_def power_Suc by linarith
qed

lemma cap_28: "int (cap 28) = ADDR_LIMIT"
  by (simp add: cap_def ADDR_LIMIT_def)

lemma cap_mono: "k \<le> l \<Longrightarrow> cap k \<le> cap l"
  by (simp add: cap_def diff_le_mono)

lemma cap_bounds: "k \<le> 28 \<Longrightarrow> 4 \<le> cap k \<and> int (cap k) \<le> INT_MAX"
proof -
  assume "k \<le> 28"
  then have "cap 0 \<le> cap k" "int (cap k) \<le> int (cap 28)" by (simp_all add: cap_mono)
  moreover have "cap 0 = 4" by (simp add: cap_def)
  ultimately show ?thesis by (simp add: cap_28 ADDR_LIMIT_def)
qed

lemma addresses_unique: "asm_shape as \<Longrightarrow> a \<in> addresses (lookup_table as) \<Longrightarrow> 0 \<le> a"
  by (auto simp: asm_shape_def in_reach_def addresses_def has_nth)

lemma fresh_table:
  assumes "4 \<le> n"
  shows "asm_shape \<lparr>table_size = int n, lookup_table = replicate n zero_entry\<rparr>"
    and "at_home (replicate n zero_entry)" and "has (replicate n zero_entry) = (\<lambda>a x. False)"
    and "addresses (replicate n zero_entry) = {}"
  using assms by (auto simp: asm_shape_def uniq_def in_reach_def at_home_def has_def addresses_def
      zero_entry_def fun_eq_iff)

lemma grow_loop_spec:
  assumes "k \<le> 28" and "uniq old" and "\<forall>a \<in> addresses old. 0 \<le> a \<and> a < ADDR_LIMIT"
  shows "\<exists>as' l. grow_loop old (int (cap k)) = Inr as' \<and> asm_shape as' \<and> k \<le> l \<and> l \<le> 28 \<and>
    length (lookup_table as') = cap l \<and> has (lookup_table as') = has old \<and>
    (l = 28 \<longrightarrow> at_home (lookup_table as'))"
  using assms(1)
proof (induction "28 - k" arbitrary: k)
  case 0
  let ?new = "\<lparr>table_size = int (cap k), lookup_table = replicate (cap k) zero_entry\<rparr>"
  have k: "k = 28" using 0 by simp
  have b: "4 \<le> cap k" "int (cap k) \<le> INT_MAX" using cap_bounds [OF 0(2)] by auto
  have "True \<longrightarrow> at_home (lookup_table ?new) \<and> (\<forall>a \<in> addresses old. a < int (length (lookup_table ?new)))"
    using fresh_table(2) [OF b(1)] assms(3) cap_28 by (simp add: k)
  then obtain as' where as': "rehash_loop old ?new = Inr (Some as')" "asm_shape as'"
    "length (lookup_table as') = cap k" "has (lookup_table as') = has old" "at_home (lookup_table as')"
    using rehash_spec [of ?new old True] fresh_table [OF b(1)] assms(2,3) by auto
  then have "grow_loop old (int (cap k)) = Inr as'"
    using b by (simp add: grow_loop.simps [of old "int (cap k)"])
  then show ?case using as' k by blast
next
  case (Suc d)
  let ?new = "\<lparr>table_size = int (cap k), lookup_table = replicate (cap k) zero_entry\<rparr>"
  have b: "4 \<le> cap k" "int (cap k) \<le> INT_MAX" using cap_bounds [OF Suc(3)] by auto
  from rehash_spec [of ?new old False] fresh_table [OF b(1)] assms(2,3)
  consider (coll) "rehash_loop old ?new = Inr None"
    | (ok) as' where "rehash_loop old ?new = Inr (Some as')" "asm_shape as'"
      "length (lookup_table as') = cap k" "has (lookup_table as') = has old"
    by auto
  then show ?case
  proof cases
    case coll
    then have "grow_loop old (int (cap k)) = grow_loop old (int (cap (Suc k)))"
      using b by (simp add: grow_loop.simps [of old "int (cap k)"] cap_Suc mult.commute)
    moreover have "d = 28 - Suc k" "Suc k \<le> 28" using Suc.hyps(2) by linarith+
    ultimately show ?thesis using Suc.hyps(1) [of "Suc k"] Suc_leD by fastforce
  next
    case ok
    then have "grow_loop old (int (cap k)) = Inr as'"
      using b by (simp add: grow_loop.simps [of old "int (cap k)"])
    moreover have "k \<noteq> 28" using Suc.hyps(2) by linarith
    ultimately show ?thesis using ok Suc.prems by blast
  qed
qed

text \<open>Growing keeps every entry and gives a table that satisfies the invariant again.\<close>

lemma grow_spec:
  assumes "asm_ok as" and "length (lookup_table as) \<noteq> cap 28"
  shows "\<exists>as'. assembly_grow_and_rehash as = Inr as' \<and> asm_ok as' \<and>
    has (lookup_table as') = has (lookup_table as) \<and>
    length (lookup_table as) < length (lookup_table as')"
proof -
  obtain k where k: "k \<le> 28" "length (lookup_table as) = cap k"
    using assms(1) by (auto simp: asm_ok_def)
  then have k28: "Suc k \<le> 28" using assms(2) by (cases "k = 28") auto
  have sz: "1 + 2 * table_size as = int (cap (Suc k))"
    using assms(1) k by (simp add: asm_ok_def asm_shape_def cap_Suc)
  have old: "uniq (lookup_table as)" "\<forall>a \<in> addresses (lookup_table as). 0 \<le> a \<and> a < ADDR_LIMIT"
    using assms(1) by (auto simp: asm_ok_def asm_shape_def)
  obtain as' l where as': "grow_loop (lookup_table as) (int (cap (Suc k))) = Inr as'" "asm_shape as'"
    "Suc k \<le> l" "l \<le> 28" "length (lookup_table as') = cap l"
    "has (lookup_table as') = has (lookup_table as)" "l = 28 \<longrightarrow> at_home (lookup_table as')"
    using grow_loop_spec [OF k28 old] by blast
  have "cap k < cap (Suc k)" using cap_bounds [OF k(1)] by (simp add: cap_Suc)
  also have "\<dots> \<le> cap l" by (rule cap_mono [OF as'(3)])
  finally have "length (lookup_table as) < length (lookup_table as')" by (simp add: k as')
  moreover have "asm_ok as'"
    using as' old unfolding asm_ok_def addresses_def by auto
  ultimately show ?thesis
    using as' sz by (auto simp: assembly_grow_and_rehash_def)
qed

text \<open>
  The loop of \<^verbatim>\<open>assembly_set\<close> ends with a free slot in reach of the new address.
\<close>

lemma empty_slot_spec:
  assumes "asm_ok as" and "0 \<le> a" and "a < ADDR_LIMIT" and "a \<notin> addresses (lookup_table as)"
  shows "\<exists>as' i k. empty_slot as a = Inr (as', int i) \<and> asm_ok as' \<and>
    has (lookup_table as') = has (lookup_table as) \<and> i < length (lookup_table as') \<and>
    \<not> e_valid (lookup_table as' ! i) \<and> k < 4 \<and> i = slot (length (lookup_table as')) a k \<and>
    (length (lookup_table as') = cap 28 \<longrightarrow> i = nat a)"
  using assms
proof (induction "cap 28 - length (lookup_table as)" arbitrary: as rule: less_induct)
  case less
  let ?t = "lookup_table as"
  have shape: "asm_shape as" using less.prems(1) by (simp add: asm_ok_def)
  have home: "slot (length ?t) a 0 = nat a \<and> \<not> e_valid (?t ! nat a)" if "length ?t = cap 28"
  proof -
    have lt: "nat a < length ?t" using that less.prems(2,3) cap_28 by simp
    obtain k where "k \<le> 28" "length ?t = cap k" "k = 28 \<longrightarrow> at_home ?t"
      using less.prems(1) by (auto simp: asm_ok_def)
    moreover have "k = 28"
      using calculation that cap_Suc [of k] cap_mono [of "Suc k" 28] cap_bounds [of k]
      by (cases "k = 28") auto
    ultimately have "at_home ?t" by simp
    then show ?thesis
      using lt not_has_other [OF less.prems(4) lt] less.prems(2) by (auto simp: at_home_def slot_def)
  qed
  from find_empty_spec [OF shape less.prems(2)] show ?case
  proof (elim disjE exE conjE)
    fix i k
    assume f: "k < 4" "i = slot (length ?t) a k" "i < length ?t" "assembly_find_empty as a = Inr (int i)"
      "\<not> e_valid (?t ! i)" and k0: "\<not> e_valid (?t ! slot (length ?t) a 0) \<longrightarrow> k = 0"
    have "empty_slot as a = Inr (as, int i)"
      using f(4) by (simp add: empty_slot.simps [of as a] NOT_FOUND_def)
    moreover have "length ?t = cap 28 \<longrightarrow> i = nat a" using home k0 f(2) by auto
    ultimately show ?thesis using f less.prems(1) by blast
  next
    assume miss: "assembly_find_empty as a = Inr NOT_FOUND" "e_valid (?t ! slot (length ?t) a 0)"
    then have "length ?t \<noteq> cap 28" using home by auto
    then obtain as' where as': "assembly_grow_and_rehash as = Inr as'" "asm_ok as'"
      "has (lookup_table as') = has ?t" "length ?t < length (lookup_table as')"
      using grow_spec [OF less.prems(1)] by blast
    have eq: "empty_slot as a = empty_slot as' a"
      using miss as' by (simp add: empty_slot.simps [of as a])
    obtain l where "l \<le> 28" "length (lookup_table as') = cap l" using as'(2) by (auto simp: asm_ok_def)
    then have dec: "cap 28 - length (lookup_table as') < cap 28 - length ?t"
      using as'(4) cap_mono [of l 28] by simp
    have "a \<notin> addresses (lookup_table as')" using less.prems(4) by (simp add: addresses_def as'(3))
    from less.hyps [OF dec as'(2) less.prems(2,3) this] show ?thesis
      unfolding eq as'(3) .
  qed
qed

section \<open>The operations implement a map\<close>

lemma assembly_get_spec:
  assumes "asm_ok as" and "0 \<le> a"
  shows "assembly_get as a = Inr (case asm_map as a of None \<Rightarrow> '''' | Some x \<Rightarrow> x)"
proof -
  have shape: "asm_shape as" and u: "uniq (lookup_table as)"
    using assms(1) by (auto simp: asm_ok_def asm_shape_def)
  from find_entry_spec [OF shape assms(2)] show ?thesis
  proof (elim disjE exE conjE)
    fix i assume i: "i < length (lookup_table as)" "assembly_find_entry as a = Inr (int i)"
      "e_valid (lookup_table as ! i)" "e_addr (lookup_table as ! i) = a"
    then have "asm_map as a = Some (e_text (lookup_table as ! i))"
      using asm_map_has [OF u] by (auto simp: has_nth)
    then show ?thesis using i by (simp add: assembly_get_def NOT_FOUND_def)
  next
    assume "assembly_find_entry as a = Inr NOT_FOUND" "\<forall>x. \<not> has (lookup_table as) a x"
    moreover from this have "asm_map as a = None"
      using asm_map_has [OF u] by (cases "asm_map as a") auto
    ultimately show ?thesis by (simp add: assembly_get_def)
  qed
qed

lemma asm_ok_put_entry:
  assumes "asm_ok as" and "i < length (lookup_table as)"
    and "\<forall>j<length (lookup_table as). e_valid (lookup_table as ! j) \<and> e_addr (lookup_table as ! j) = a \<longrightarrow> j = i"
    and "e_valid (lookup_table as ! i) \<longrightarrow> e_addr (lookup_table as ! i) = a"
    and "0 \<le> a" "a < ADDR_LIMIT" "k < 4" "i = slot (length (lookup_table as)) a k"
    and "length (lookup_table as) = cap 28 \<longrightarrow> i = nat a"
  shows "asm_ok (put_entry as (int i) \<lparr>e_valid = True, e_addr = a, e_text = x\<rparr>)"
    and "asm_map (put_entry as (int i) \<lparr>e_valid = True, e_addr = a, e_text = x\<rparr>) = (asm_map as)(a \<mapsto> x)"
proof -
  let ?e = "\<lparr>e_valid = True, e_addr = a, e_text = x\<rparr>"
  have shape: "asm_shape as" using assms(1) by (simp add: asm_ok_def)
  have put: "asm_shape (put_entry as (int i) ?e)"
    and h: "has (lookup_table (put_entry as (int i) ?e)) b y \<longleftrightarrow>
      (if b = a then y = x else has (lookup_table as) b y)" for b y
    using put_entry_spec [OF shape assms(2-5,7,8), of ?e] by simp_all
  obtain l where l: "l \<le> 28" "length (lookup_table as) = cap l" "l = 28 \<longrightarrow> at_home (lookup_table as)"
    using assms(1) by (auto simp: asm_ok_def)
  have "l = 28 \<longrightarrow> at_home (lookup_table (put_entry as (int i) ?e))"
  proof
    assume "l = 28"
    then have "a = int i" "at_home (lookup_table as)" using assms(5,9) l by auto
    then show "at_home (lookup_table (put_entry as (int i) ?e))" by (simp add: at_home_put_entry)
  qed
  then show "asm_ok (put_entry as (int i) ?e)"
    using put l assms(1,5,6) unfolding asm_ok_def by (auto simp: addresses_def h split: if_splits)
  have "uniq (lookup_table as)" "uniq (lookup_table (put_entry as (int i) ?e))"
    using shape put by (auto simp: asm_shape_def)
  then show "asm_map (put_entry as (int i) ?e) = (asm_map as)(a \<mapsto> x)"
    by (intro asm_map_eqI) (auto simp: h asm_map_has)
qed

lemma assembly_set_spec:
  assumes "asm_ok as" and "0 \<le> a" and "a < ADDR_LIMIT"
  shows "\<exists>as'. assembly_set as a x = Inr as' \<and> asm_ok as' \<and> asm_map as' = (asm_map as)(a \<mapsto> x)"
proof -
  let ?e = "\<lparr>e_valid = True, e_addr = a, e_text = x\<rparr>"
  have shape: "asm_shape as" and u: "uniq (lookup_table as)"
    using assms(1) by (auto simp: asm_ok_def asm_shape_def)
  from find_entry_spec [OF shape assms(2)] show ?thesis
  proof (elim disjE exE conjE)
    fix i assume i: "i < length (lookup_table as)" "assembly_find_entry as a = Inr (int i)"
      "e_valid (lookup_table as ! i)" "e_addr (lookup_table as ! i) = a"
    have own: "\<forall>j<length (lookup_table as).
        e_valid (lookup_table as ! j) \<and> e_addr (lookup_table as ! j) = a \<longrightarrow> j = i"
      using u i unfolding uniq_def by metis
    obtain k where k: "k < 4" "i = slot (length (lookup_table as)) a k"
      using shape i unfolding asm_shape_def in_reach_def by metis
    have home: "length (lookup_table as) = cap 28 \<longrightarrow> i = nat a"
    proof
      assume c: "length (lookup_table as) = cap 28"
      obtain l where "l \<le> 28" "length (lookup_table as) = cap l" "l = 28 \<longrightarrow> at_home (lookup_table as)"
        using assms(1) by (auto simp: asm_ok_def)
      moreover have "l = 28"
        using calculation c cap_Suc [of l] cap_mono [of "Suc l" 28] cap_bounds [of l]
        by (cases "l = 28") auto
      ultimately show "i = nat a" using i by (auto simp: at_home_def)
    qed
    show ?thesis
      using asm_ok_put_entry [OF assms(1) i(1) own _ assms(2,3) k home, of x] i
      by (auto simp: assembly_set_def NOT_FOUND_def)
  next
    assume miss: "assembly_find_entry as a = Inr NOT_FOUND" "\<forall>x. \<not> has (lookup_table as) a x"
    then have new: "a \<notin> addresses (lookup_table as)" by (simp add: addresses_def)
    obtain as' i k where s: "empty_slot as a = Inr (as', int i)" "asm_ok as'"
      "has (lookup_table as') = has (lookup_table as)" "i < length (lookup_table as')"
      "\<not> e_valid (lookup_table as' ! i)" "k < 4" "i = slot (length (lookup_table as')) a k"
      "length (lookup_table as') = cap 28 \<longrightarrow> i = nat a"
      using empty_slot_spec [OF assms new] by blast
    have own: "\<forall>j<length (lookup_table as').
        e_valid (lookup_table as' ! j) \<and> e_addr (lookup_table as' ! j) = a \<longrightarrow> j = i"
      using miss(2) s(3) by (metis has_nth)
    have u': "uniq (lookup_table as')" using s(2) by (simp add: asm_ok_def asm_shape_def)
    have "asm_map as' = asm_map as"
      by (rule asm_map_eqI [OF u']) (simp add: s(3) asm_map_has [OF u])
    then show ?thesis
      using asm_ok_put_entry [OF s(2,4) own _ assms(2,3) s(6,7,8), of x] s(1,5) miss
      by (auto simp: assembly_set_def)
  qed
qed

lemma assembly_create_ok: "asm_ok assembly_create" "asm_map assembly_create = Map.empty"
proof -
  have c: "assembly_create = \<lparr>table_size = int 4, lookup_table = replicate 4 zero_entry\<rparr>"
    by (simp add: assembly_create_def)
  have "length (lookup_table assembly_create) = cap 0" by (simp add: assembly_create_def cap_def)
  then show "asm_ok assembly_create"
    using fresh_table [of 4] unfolding asm_ok_def c by auto
  show "asm_map assembly_create = Map.empty"
    by (simp add: asm_map_def assembly_create_def zero_entry_def)
qed

section \<open>The interface the loader and the logger rely on\<close>

locale text_table =
  fixes create :: "'t"
    and set_text :: "'t \<Rightarrow> int \<Rightarrow> string \<Rightarrow> stop + 't"
    and get_text :: "'t \<Rightarrow> int \<Rightarrow> stop + string"
    and content :: "'t \<Rightarrow> int \<Rightarrow> string option"
    and ok :: "'t \<Rightarrow> bool"
    and limit :: int
  assumes create: "ok create" "content create = Map.empty"
    and set_text: "ok t \<Longrightarrow> 0 \<le> a \<Longrightarrow> a < limit \<Longrightarrow>
      \<exists>t'. set_text t a x = Inr t' \<and> ok t' \<and> content t' = (content t)(a \<mapsto> x)"
    and get_text: "ok t \<Longrightarrow> 0 \<le> a \<Longrightarrow>
      get_text t a = Inr (case content t a of None \<Rightarrow> '''' | Some x \<Rightarrow> x)"
begin

primrec set_all :: "(int \<times> string) list \<Rightarrow> 't \<Rightarrow> stop + 't" where
  "set_all [] t = Inr t"
| "set_all (p # ps) t = seq (set_text t (fst p) (snd p)) (set_all ps)"

text \<open>A whole listing is stored, and each address shows the last text stored for it.\<close>

lemma set_all_content:
  assumes "ok t" and "\<forall>(a, x) \<in> set ps. 0 \<le> a \<and> a < limit"
  shows "\<exists>t'. set_all ps t = Inr t' \<and> ok t' \<and> content t' = content t ++ map_of (rev ps)"
  using assms
proof (induction ps arbitrary: t)
  case (Cons p ps)
  obtain a x where p: "p = (a, x)" by (cases p)
  obtain t1 where t1: "set_text t a x = Inr t1" "ok t1" "content t1 = (content t)(a \<mapsto> x)"
    using set_text [of t a x] Cons.prems p by auto
  obtain t' where "set_all ps t1 = Inr t'" "ok t'" "content t' = content t1 ++ map_of (rev ps)"
    using Cons.IH [OF t1(2)] Cons.prems(2) by auto
  then show ?case using t1 p by (auto simp: map_add_assoc)
qed simp

lemma get_after_set:
  assumes "ok t" and "0 \<le> a" "a < limit" and "0 \<le> b"
  shows "\<exists>t'. set_text t a x = Inr t' \<and> get_text t' b = (if b = a then Inr x else get_text t b)"
  using set_text [OF assms(1-3), of x] get_text assms(1,4) by auto

end

interpretation hashed: text_table assembly_create assembly_set assembly_get asm_map asm_ok ADDR_LIMIT
  by unfold_locales (simp_all add: assembly_create_ok assembly_set_spec assembly_get_spec)

lemma assembly_delete_empty: "asm_map (assembly_delete as) = Map.empty"
proof -
  have "filter e_valid (lookup_table (assembly_delete as)) = []"
    by (auto simp: assembly_delete_def filter_empty_conv)
  then show ?thesis by (simp add: asm_map_def)
qed

section \<open>Properties\<close>

text \<open>
  C18: \<^verbatim>\<open>assembly_set\<close> always returns for an address below 5 * 2^28 - 1 (the probing, the
  growing and the rehashing terminate without overflowing the table size), keeps the
  table's invariant, and the table then is the old map with the one address updated:
  no entry is lost or duplicated by a rehash.
\<close>

theorem assembly_set_refines_update:
  assumes "asm_ok as" and "0 \<le> addr" and "addr < ADDR_LIMIT"
  shows "\<exists>as'. assembly_set as addr txt = Inr as' \<and> asm_ok as' \<and>
    asm_map as' = (asm_map as)(addr \<mapsto> txt)"
  using assms by (rule hashed.set_text)

theorem assembly_set_refines_update_witness:
  "\<exists>as'. assembly_set assembly_create 65564 ''lui'' = Inr as' \<and> asm_ok as' \<and>
    asm_map as' = (asm_map assembly_create)(65564 \<mapsto> ''lui'')"
  by (rule assembly_set_refines_update) (simp_all add: assembly_create_ok ADDR_LIMIT_def)

text \<open>
  \<^verbatim>\<open>assembly_get\<close> after \<^verbatim>\<open>assembly_set\<close> returns the text just stored for that
  address and what it returned before for every other address.
\<close>

theorem assembly_get_after_set:
  assumes "asm_ok as" and "0 \<le> addr" "addr < ADDR_LIMIT" and "0 \<le> b"
  shows "\<exists>as'. assembly_set as addr txt = Inr as' \<and>
    assembly_get as' b = (if b = addr then Inr txt else assembly_get as b)"
  using assms by (rule hashed.get_after_set)

theorem assembly_get_after_set_witness:
  "\<exists>as'. assembly_set assembly_create 8 ''addi'' = Inr as' \<and>
    assembly_get as' 8 = (if (8 :: int) = 8 then Inr ''addi'' else assembly_get assembly_create 8)"
  by (rule assembly_get_after_set) (simp_all add: assembly_create_ok ADDR_LIMIT_def)

text \<open>
  A negative address (a simulated address of 0x80000000 and above, converted to
  \<^verbatim>\<open>int\<close>) that is not a multiple of the table size hashes to a negative index: both
  \<^verbatim>\<open>assembly_get\<close> and \<^verbatim>\<open>assembly_set\<close> read outside the table.
\<close>

theorem assembly_negative_address:
  assumes "addr < 0" and "0 < table_size as" and "\<not> table_size as dvd addr"
  shows "assembly_get as addr = Inl Undefined_behaviour \<and>
    assembly_set as addr txt = Inl Undefined_behaviour"
proof -
  have "\<bar>addr\<bar> mod \<bar>table_size as\<bar> \<noteq> 0"
    using assms by (metis abs_dvd_iff dvd_abs_iff dvd_eq_mod_eq_0)
  then have "0 < \<bar>addr\<bar> mod \<bar>table_size as\<bar>"
    using assms(2) by (simp add: order_less_le)
  then have "addr smod table_size as < 0"
    using assms(1) by (simp add: signed_modulo_int_def)
  then have "assembly_find_entry as addr = Inl Undefined_behaviour"
    using assms(2) by (simp add: assembly_find_entry_def eval_nat_numeral)
  then show ?thesis
    by (simp_all add: assembly_get_def assembly_set_def)
qed

theorem assembly_negative_address_witness:
  "assembly_get assembly_create (- 1) = Inl Undefined_behaviour \<and>
    assembly_set assembly_create (- 1) ''lui'' = Inl Undefined_behaviour"
  by (rule assembly_negative_address) (simp_all add: assembly_create_def)

end
