(* ===== verification/Sim_Load.thy ===== *)
theory Sim_Load
  imports Sim_Assembly
begin

text \<open>
  Loading a program, \<^verbatim>\<open>A5/src/read_exec.c\<close>, and passing its arguments,
  \<^verbatim>\<open>pass_args_to_program\<close> of \<^verbatim>\<open>A5/src/main.c\<close>. A listing is read line by line: lines of
  data bytes, lines of instructions with their text, and symbols, of which \<^verbatim>\<open>_start\<close>
  gives the entry point. The conversions of \<^verbatim>\<open>sscanf\<close> that the loader uses are written
  out (\<open>scan_x\<close>, \<open>scan_s\<close>); a value beyond 32 bits wraps around.

  The four buffers \<^verbatim>\<open>hexes[4][9]\<close> are one block of 36 bytes. A token that is too long for
  its row runs into the rows after it, which are written later or not read; a token that
  runs past the block is \<open>Undefined_behaviour\<close>. The same holds for an empty line, for
  which \<^verbatim>\<open>line[last]\<close> lies before the buffer.

  The lemmas show that a printed line is read back: the bytes, words and texts arrive in
  memory and in the table of texts, and that the argument block has the layout that the
  comments promise.
\<close>

section \<open>Characters\<close>

definition isspace :: "char \<Rightarrow> bool" where
  "isspace c \<longleftrightarrow> code c = 32 \<or> (9 \<le> code c \<and> code c \<le> 13)"

definition is_hex :: "char \<Rightarrow> bool" where
  "is_hex c \<longleftrightarrow> (48 \<le> code c \<and> code c \<le> 57) \<or> (97 \<le> code c \<and> code c \<le> 102)"

definition to_hex :: "char \<Rightarrow> int" where
  "to_hex c =
     (if 48 \<le> code c \<and> code c \<le> 57 then code c - 48
      else if 97 \<le> code c \<and> code c \<le> 102 then code c - 97 + 10
      else if 65 \<le> code c \<and> code c \<le> 70 then code c - 65 + 10
      else 0)"

definition to_hex2 :: "char \<Rightarrow> char \<Rightarrow> int" where
  "to_hex2 a b = to_hex a * 16 + to_hex b"

section \<open>The conversions of sscanf\<close>

text \<open>
  \<^verbatim>\<open>%s\<close> with a maximal width: skip white space, take the characters up to the next white
  space. \<^verbatim>\<open>%x\<close>: skip white space, an optional sign, an optional \<^verbatim>\<open>0x\<close>, at least one digit.
\<close>

definition scan_s :: "nat \<Rightarrow> string \<Rightarrow> (string \<times> string) option" where
  "scan_s w xs =
     (let ys = dropWhile isspace xs; t = take w (takeWhile (\<lambda>c. \<not> isspace c) ys)
      in if t = [] then None else Some (t, drop (length t) ys))"

primrec scan_tokens :: "nat list \<Rightarrow> string \<Rightarrow> string list" where
  "scan_tokens [] xs = []"
| "scan_tokens (w # ws) xs =
     (case scan_s w xs of None \<Rightarrow> [] | Some (t, ys) \<Rightarrow> t # scan_tokens ws ys)"

definition is_xdigit :: "char \<Rightarrow> bool" where
  "is_xdigit c \<longleftrightarrow> is_hex c \<or> (65 \<le> code c \<and> code c \<le> 70)"

definition hex_value :: "string \<Rightarrow> int" where
  "hex_value ds = foldl (\<lambda>v c. v * 16 + to_hex c) 0 ds"

definition scan_x :: "string \<Rightarrow> (cint \<times> string) option" where
  "scan_x xs =
     (let ys = dropWhile isspace xs;
          neg = (ys \<noteq> [] \<and> hd ys = CHR ''-'');
          ys = (if ys \<noteq> [] \<and> (hd ys = CHR ''-'' \<or> hd ys = CHR ''+'') then tl ys else ys);
          ys = (if take 2 ys = ''0x'' \<or> take 2 ys = ''0X'' then drop 2 ys else ys);
          ds = takeWhile is_xdigit ys
      in if ds = [] then None
         else Some ((if neg then - word_of_int (hex_value ds) else word_of_int (hex_value ds)),
                dropWhile is_xdigit ys))"

section \<open>Loading a line\<close>

record loader =
  ld_mem :: memory
  ld_as :: assembly
  ld_start :: cint

text \<open>\<^verbatim>\<open>count_hexes\<close>: the strings are read up to their terminating zero.\<close>

fun count_row :: "nat \<Rightarrow> string \<Rightarrow> nat \<times> bool" where
  "count_row 0 cs = (0, True)"
| "count_row (Suc n) [] = (0, False)"
| "count_row (Suc n) (c # cs) =
     (if is_hex c then (case count_row n cs of (k, full) \<Rightarrow> (Suc k, full)) else (0, False))"

primrec count_digits :: "string list \<Rightarrow> nat" where
  "count_digits [] = 0"
| "count_digits (r # rs) =
     (case count_row 8 r of (k, full) \<Rightarrow> if full then k + count_digits rs else k)"

definition count_hexes :: "string list \<Rightarrow> nat" where
  "count_hexes rows = count_digits rows div 2"

text \<open>The tokens of \<^verbatim>\<open>" %x %s%s%s%s"\<close> and whether they stay inside the block of buffers.\<close>

definition scan_data :: "string \<Rightarrow> (cint \<times> string list) option" where
  "scan_data line =
     (case scan_x line of None \<Rightarrow> None
      | Some (addr, xs) \<Rightarrow>
          Some (addr, scan_tokens (replicate 4 (length xs)) xs))"

primrec overflows_from :: "nat \<Rightarrow> string list \<Rightarrow> bool" where
  "overflows_from k [] = False"
| "overflows_from k (t # ts) = (36 < 9 * k + length t + 1 \<or> overflows_from (Suc k) ts)"

abbreviation overflows :: "string list \<Rightarrow> bool" where
  "overflows toks \<equiv> overflows_from 0 toks"

definition wr_data :: "string list \<Rightarrow> nat \<Rightarrow> memory \<times> cint \<Rightarrow> memory \<times> cint" where
  "wr_data hexes i = (\<lambda>(mem, addr).
     (let block = i div 4; disp = (i mod 4) * 2;
          data = to_hex2 (hexes ! block ! disp) (hexes ! block ! (disp + 1))
      in (memory_wr_b mem addr (word_of_int data), addr + 1)))"

text \<open>The result of \<^verbatim>\<open>" %x: %x %7s %15s %23s"\<close> when at least two conversions succeed.\<close>

definition scan_insn :: "string \<Rightarrow> (cint \<times> cint \<times> string list) option" where
  "scan_insn line =
     (case scan_x line of None \<Rightarrow> None
      | Some (addr, xs) \<Rightarrow>
          (case xs of [] \<Rightarrow> None
           | c # ys \<Rightarrow> if c \<noteq> CHR '':'' then None
               else (case scan_x ys of None \<Rightarrow> None
                     | Some (a, zs) \<Rightarrow> Some (addr, a, scan_tokens [7, 15, 23] zs))))"

text \<open>The conversion \<^verbatim>\<open>%-ns\<close> of \<^verbatim>\<open>sprintf\<close> and the three formats.\<close>

definition pad :: "nat \<Rightarrow> string \<Rightarrow> string" where
  "pad n s = s @ replicate (n - length s) (CHR '' '')"

fun insn_text :: "string list \<Rightarrow> string" where
  "insn_text [opcode] = pad 8 opcode"
| "insn_text [opcode, args] = pad 8 opcode @ '' '' @ pad 16 args"
| "insn_text [opcode, args, rest] = pad 8 opcode @ '' '' @ pad 16 args @ '' '' @ pad 24 rest"
| "insn_text _ = ''''"

definition scan_symbol :: "string \<Rightarrow> (cint \<times> string) option" where
  "scan_symbol line =
     (case scan_x line of None \<Rightarrow> None
      | Some (addr, xs) \<Rightarrow>
          (case dropWhile isspace xs of [] \<Rightarrow> None
           | c # ys \<Rightarrow> if c \<noteq> CHR ''<'' then None
               else (case scan_s (length ys) ys of None \<Rightarrow> None
                     | Some (symbol, _) \<Rightarrow> Some (addr, symbol))))"

definition load_insn :: "cint \<Rightarrow> cint \<Rightarrow> string list \<Rightarrow> loader \<Rightarrow> stop + loader" where
  "load_insn addr a texts ld =
     seq (memory_wr_w (ld_mem ld) addr a) (\<lambda>mem.
       if texts = [] then Inr (ld\<lparr>ld_mem := mem\<rparr>)
       else seq (assembly_set (ld_as ld) (sint addr) (insn_text texts)) (\<lambda>as.
              Inr (ld\<lparr>ld_mem := mem, ld_as := as\<rparr>)))"

definition load_line :: "string \<Rightarrow> loader \<Rightarrow> stop + loader" where
  "load_line line ld =
     (let (addr, toks) = (case scan_data line of None \<Rightarrow> (0, []) | Some d \<Rightarrow> d);
          num_hex = count_hexes toks
      in if overflows toks then Inl Undefined_behaviour
         else if num_hex \<noteq> 0
         then Inr (ld\<lparr>ld_mem := fst (fold (wr_data toks) [0..<num_hex] (ld_mem ld, addr))\<rparr>)
         else case scan_insn line of
                Some (addr, a, texts) \<Rightarrow> load_insn addr a texts ld
              | None \<Rightarrow>
                  (case scan_symbol line of None \<Rightarrow> Inr ld
                   | Some (addr, symbol) \<Rightarrow>
                       if symbol = ''_start>:'' then Inr (ld\<lparr>ld_start := addr\<rparr>) else Inr ld))"

section \<open>Loading a file\<close>

text \<open>The line as a C string, its trailing newline removed.\<close>

definition chomp :: "string \<Rightarrow> stop + string" where
  "chomp buf =
     (let line = takeWhile (\<lambda>c. c \<noteq> CHR 0x00) buf
      in if line = [] then Inl Undefined_behaviour
         else if last line = newline then Inr (butlast line) else Inr line)"

function read_lines :: "string \<Rightarrow> loader \<Rightarrow> stop + loader" where
  "read_lines content ld =
     (if content = [] then Inr ld
      else let (buf, rest) = fgets 1023 content
           in seq (chomp buf) (\<lambda>line. case load_line line ld of
                Inl e \<Rightarrow> Inl e | Inr ld' \<Rightarrow> read_lines rest ld'))"
  by pat_completeness auto
termination
proof (relation "measure (\<lambda>(content, _). length content)")
  fix content ld p buf rest line ld'
  assume "content \<noteq> []" and "p = fgets 1023 content" and "(buf, rest) = p"
  then show "((rest, ld'), content, ld) \<in> measure (\<lambda>(content, _). length content)"
    using length_fgets [of 1023 content] fgets_nonempty [of content 1023]
    by (cases "fgets 1023 content") (auto simp: less_le_trans intro!: diff_less)
qed simp

declare read_lines.simps [simp del]

text \<open>\<open>None\<close> is a file that cannot be opened.\<close>

definition read_exec :: "string option \<Rightarrow> memory \<Rightarrow> assembly \<Rightarrow> stop + (cint \<times> memory \<times> assembly)" where
  "read_exec file mem as =
     (case file of None \<Rightarrow> Inl Exit_failure
      | Some content \<Rightarrow>
          seq (read_lines content \<lparr>ld_mem = mem, ld_as = as, ld_start = - 1\<rparr>) (\<lambda>ld.
            if ld_start ld \<noteq> - 1 then Inr (ld_start ld, ld_mem ld, ld_as ld) else Inl Exit_failure))"

section \<open>Printed numbers are read back\<close>

definition hex_digit :: "nat \<Rightarrow> char" where
  "hex_digit d = char_of (if d < 10 then 48 + d else 87 + d)"

primrec hex_digits :: "nat \<Rightarrow> nat \<Rightarrow> string" where
  "hex_digits 0 v = []"
| "hex_digits (Suc k) v = hex_digits k (v div 16) @ [hex_digit (v mod 16)]"

lemma code_hex_digit: "d < 16 \<Longrightarrow> code (hex_digit d) = int (if d < 10 then 48 + d else 87 + d)"
  unfolding hex_digit_def by (rule code_char_of) simp

lemma hex_digit_props:
  assumes "d < 16"
  shows "is_hex (hex_digit d)" "is_xdigit (hex_digit d)" "\<not> isspace (hex_digit d)"
    "to_hex (hex_digit d) = int d"
  using code_hex_digit [OF assms] assms
  by (auto simp: is_hex_def is_xdigit_def isspace_def to_hex_def split: if_splits)

lemma xdigit_not:
  assumes "is_xdigit c"
  shows "c \<noteq> CHR ''-''" "c \<noteq> CHR ''+''" "c \<noteq> CHR ''x''" "c \<noteq> CHR ''X''" "\<not> isspace c"
    "c \<noteq> CHR 0x00"
  using assms by (auto simp: is_xdigit_def is_hex_def isspace_def)

lemma length_hex_digits [simp]: "length (hex_digits k v) = k"
  by (induction k arbitrary: v) simp_all

lemma hex_digits_Nil_iff [simp]: "hex_digits k v = [] \<longleftrightarrow> k = 0"
  by (cases k) simp_all

lemma hex_digits_xdigit: "c \<in> set (hex_digits k v) \<Longrightarrow> is_xdigit c \<and> is_hex c"
  by (induction k arbitrary: v) (auto simp: hex_digit_props)

lemma hex_value_append: "hex_value (xs @ [c]) = hex_value xs * 16 + to_hex c"
  by (simp add: hex_value_def)

lemma hex_value_digits: "hex_value (hex_digits k v) = int (v mod 16 ^ k)"
proof (induction k arbitrary: v)
  case (Suc k)
  have "v mod 16 ^ Suc k = 16 * (v div 16 mod 16 ^ k) + v mod 16"
    by (simp add: mod_mult2_eq)
  then show ?case by (simp add: hex_value_append Suc.IH hex_digit_props)
qed (simp add: hex_value_def)

lemma takeWhile_stop: "(\<And>x. x \<in> set xs \<Longrightarrow> P x) \<Longrightarrow> ys = [] \<or> \<not> P (hd ys) \<Longrightarrow>
    takeWhile P (xs @ ys) = xs \<and> dropWhile P (xs @ ys) = ys"
  by (cases ys) (auto simp: takeWhile_append2 dropWhile_append2)

lemma scan_x_digits:
  assumes ds: "ds \<noteq> []" "\<And>c. c \<in> set ds \<Longrightarrow> is_xdigit c"
    and ws: "\<And>c. c \<in> set ws \<Longrightarrow> isspace c"
    and rest: "rest = [] \<or> (\<not> is_xdigit (hd rest) \<and> hd rest \<noteq> CHR ''x'' \<and> hd rest \<noteq> CHR ''X'')"
  shows "scan_x (ws @ ds @ rest) = Some (word_of_int (hex_value ds), rest)"
proof -
  obtain d ds' where d: "ds = d # ds'" using ds(1) by (cases ds) auto
  have hd: "is_xdigit d" using ds(2) d by simp
  have skip: "dropWhile isspace (ws @ ds @ rest) = ds @ rest"
    using ws d xdigit_not(5) [OF hd] by (simp add: dropWhile_append2)
  have "take 2 (ds @ rest) \<noteq> ''0x'' \<and> take 2 (ds @ rest) \<noteq> ''0X''"
  proof (cases ds')
    case Nil
    then show ?thesis using rest d by (cases rest) (auto simp: numeral_2_eq_2)
  next
    case (Cons e es)
    then have "is_xdigit e" using ds(2) d by simp
    then show ?thesis using d Cons xdigit_not by (auto simp: numeral_2_eq_2)
  qed
  moreover have "takeWhile is_xdigit (ds @ rest) = ds \<and> dropWhile is_xdigit (ds @ rest) = rest"
    using ds(2) rest by (intro takeWhile_stop) auto
  moreover have "hd (ds @ rest) = d" using d by simp
  ultimately show ?thesis
    unfolding scan_x_def Let_def skip using ds(1) xdigit_not(1,2) [OF hd] by (simp only:) simp
qed

lemma scan_s_token:
  assumes "t \<noteq> []" "\<And>c. c \<in> set t \<Longrightarrow> \<not> isspace c" "length t \<le> w"
    and "\<And>c. c \<in> set ws \<Longrightarrow> isspace c" and "rest = [] \<or> isspace (hd rest)"
  shows "scan_s w (ws @ t @ rest) = Some (t, rest)"
proof -
  have "\<not> isspace (hd t)" using assms(1,2) by (cases t) auto
  then have "dropWhile isspace (ws @ t @ rest) = t @ rest"
    using assms(1,4) by (cases t) (auto simp: dropWhile_append2)
  moreover have "takeWhile (\<lambda>c. \<not> isspace c) (t @ rest) = t"
    using assms(2,5) takeWhile_stop [of t "\<lambda>c. \<not> isspace c" rest] by auto
  ultimately show ?thesis using assms(1,3) by (cases w) (simp_all add: scan_s_def Let_def)
qed

lemma scan_s_end: "(\<And>c. c \<in> set ws \<Longrightarrow> isspace c) \<Longrightarrow> scan_s w ws = None"
  by (simp add: scan_s_def dropWhile_eq_Nil_conv [THEN iffD2])

text \<open>A token is a nonempty string without white space and zeros; \<open>spaced\<close> prints tokens after blanks.\<close>

definition token :: "string \<Rightarrow> bool" where
  "token t \<longleftrightarrow> t \<noteq> [] \<and> (\<forall>c \<in> set t. \<not> isspace c \<and> c \<noteq> CHR 0x00)"

definition spaced :: "string list \<Rightarrow> string" where
  "spaced ts = concat (map (\<lambda>t. '' '' @ t) ts)"

lemma spaced_simps [simp]: "spaced [] = []" "spaced (t # ts) = CHR '' '' # t @ spaced ts"
  by (simp_all add: spaced_def)

lemma isspace_blank [simp]: "isspace (CHR '' '')"
  by (simp add: isspace_def)

lemma hd_spaced: "spaced ts = [] \<or> isspace (hd (spaced ts))"
  by (cases ts) simp_all

lemma scan_tokens_spaced:
  assumes "length ts \<le> length ws" and "\<And>t. t \<in> set ts \<Longrightarrow> token t"
    and "\<And>i. i < length ts \<Longrightarrow> length (ts ! i) \<le> ws ! i"
  shows "scan_tokens ws (spaced ts) = ts"
  using assms
proof (induction ts arbitrary: ws)
  case Nil
  show ?case by (cases ws) (simp_all add: scan_s_def)
next
  case (Cons t ts)
  then obtain w ws' where ws: "ws = w # ws'" by (cases ws) auto
  have "scan_s w ('' '' @ t @ spaced ts) = Some (t, spaced ts)"
    using Cons.prems(2) [of t] Cons.prems(3) [of 0] ws hd_spaced [of ts]
    by (intro scan_s_token) (auto simp: token_def)
  moreover have "scan_tokens ws' (spaced ts) = ts"
  proof (rule Cons.IH)
    show "length (ts ! i) \<le> ws' ! i" if "i < length ts" for i
      using Cons.prems(3) [of "Suc i"] ws that by simp
  qed (use Cons.prems(1,2) ws in auto)
  ultimately show ?case by (simp add: ws)
qed

section \<open>Lines of data\<close>

text \<open>The printed form: an address of eight digits and up to four groups of four bytes.\<close>

definition print_bytes :: "byte list \<Rightarrow> string" where
  "print_bytes bs = concat (map (\<lambda>b. hex_digits 2 (unat b)) bs)"

definition data_line :: "cint \<Rightarrow> byte list list \<Rightarrow> string" where
  "data_line addr gs = hex_digits 8 (unat addr) @ spaced (map print_bytes gs)"

text \<open>Groups that are full, the last one excepted, which is not empty.\<close>

fun grouped :: "'a list list \<Rightarrow> bool" where
  "grouped [] = False"
| "grouped [g] = (1 \<le> length g \<and> length g \<le> 4)"
| "grouped (g # gs) = (length g = 4 \<and> grouped gs)"

lemma print_bytes_simps [simp]:
  "print_bytes [] = []" "print_bytes (b # bs) = hex_digits 2 (unat b) @ print_bytes bs"
  "length (print_bytes bs) = 2 * length bs"
  by (induction bs) (simp_all add: print_bytes_def)

lemma print_bytes_hex: "c \<in> set (print_bytes bs) \<Longrightarrow> is_xdigit c \<and> is_hex c"
  by (auto simp: print_bytes_def dest: hex_digits_xdigit)

lemma grouped_length: "grouped gs \<Longrightarrow> g \<in> set gs \<Longrightarrow> 1 \<le> length g \<and> length g \<le> 4"
  by (induction gs rule: grouped.induct) auto

lemma grouped_nth:
  "grouped gs \<Longrightarrow> i < length (concat gs) \<Longrightarrow>
   i div 4 < length gs \<and> i mod 4 < length (gs ! (i div 4)) \<and> gs ! (i div 4) ! (i mod 4) = concat gs ! i"
proof (induction gs arbitrary: i rule: grouped.induct)
  case (3 g h gs)
  show ?case
  proof (cases "i < 4")
    case False
    then have "i div 4 = Suc ((i - 4) div 4)" "(i - 4) mod 4 = i mod 4"
      by (simp_all add: le_div_geq le_mod_geq)
    then show ?thesis using "3.IH" [of "i - 4"] "3.prems" False by (auto simp: nth_append)
  qed (use "3.prems" in \<open>auto simp: nth_append\<close>)
qed auto

lemma count_row_hex:
  "(\<forall>c \<in> set r. is_hex c) \<Longrightarrow> length r \<le> n \<Longrightarrow> count_row n r = (length r, length r = n)"
  by (induction n r rule: count_row.induct) auto

lemma count_digits_grouped: "grouped gs \<Longrightarrow> count_digits (map print_bytes gs) = 2 * length (concat gs)"
proof (induction gs rule: grouped.induct)
  case (2 g)
  have "count_row 8 (print_bytes g) = (2 * length g, 2 * length g = 8)"
    using count_row_hex [of "print_bytes g" 8] print_bytes_hex "2.prems" by auto
  then show ?case by simp
next
  case (3 g h gs)
  have "count_row 8 (print_bytes g) = (8, True)"
    using count_row_hex [of "print_bytes g" 8] print_bytes_hex "3.prems" by auto
  then show ?case using "3.IH" "3.prems" by simp
qed simp

lemma nth_print_bytes:
  "i < length bs \<Longrightarrow>
   to_hex2 (print_bytes bs ! (i * 2)) (print_bytes bs ! (i * 2 + 1)) = uint (bs ! i)"
proof (induction bs arbitrary: i)
  case (Cons b bs)
  have d: "hex_digits 2 v = [hex_digit (v div 16 mod 16), hex_digit (v mod 16)]" for v
    by (simp add: numeral_2_eq_2)
  have lt: "unat b < 256" using unsigned_less [of b, where ?'a = nat] by simp
  show ?case
  proof (cases i)
    case 0
    have e: "to_hex (hex_digit (unat b div 16)) = int (unat b div 16)"
      "to_hex (hex_digit (unat b mod 16)) = int (unat b mod 16)"
      using lt by (simp_all only: hex_digit_props(4))
    have "int (unat b) = uint b" by simp
    then have "to_hex2 (hex_digit (unat b div 16)) (hex_digit (unat b mod 16)) = uint b"
      unfolding to_hex2_def e using div_mult_mod_eq [of "unat b" 16] by linarith
    then show ?thesis using 0 lt by (simp add: d)
  next
    case (Suc j)
    then have "to_hex2 (print_bytes bs ! (j * 2)) (print_bytes bs ! (j * 2 + 1)) = uint (bs ! j)"
      using Cons.prems by (intro Cons.IH) simp
    then show ?thesis using Suc by (simp add: d)
  qed
qed simp

lemma fold_wr_data:
  "fold (wr_data rows) is (mem, addr) =
   prod.swap (fold (\<lambda>d (a, m). (a + 1, memory_wr_b m a d))
     (map (\<lambda>i. word_of_int (to_hex2 (rows ! (i div 4) ! ((i mod 4) * 2))
                                     (rows ! (i div 4) ! ((i mod 4) * 2 + 1)))) is) (addr, mem))"
  by (induction "is" arbitrary: mem addr) (simp_all add: wr_data_def Let_def)

lemma token_print_bytes: "1 \<le> length g \<Longrightarrow> token (print_bytes g)"
  using print_bytes_hex xdigit_not(5,6) unfolding token_def
  by (metis One_nat_def length_0_conv mult_is_0 not_one_le_zero print_bytes_simps(3) zero_neq_numeral)

lemma scan_data_line:
  assumes "grouped gs" and "length gs \<le> 4"
  shows "scan_data (data_line addr gs) = Some (addr, map print_bytes gs)"
proof -
  let ?rows = "map print_bytes gs"
  have "scan_x ([] @ hex_digits 8 (unat addr) @ spaced ?rows) =
      Some (word_of_int (hex_value (hex_digits 8 (unat addr))), spaced ?rows)"
    using hd_spaced [of ?rows] hex_digits_xdigit xdigit_not
    by (intro scan_x_digits) (auto simp: isspace_def is_xdigit_def is_hex_def)
  moreover have "unat addr mod 16 ^ 8 = unat addr"
    using unsigned_less [of addr, where ?'a = nat] by simp
  then have "word_of_int (hex_value (hex_digits 8 (unat addr))) = addr"
    by (simp only: hex_value_digits) simp
  ultimately have "scan_x (data_line addr gs) = Some (addr, spaced ?rows)"
    by (simp add: data_line_def)
  moreover have "scan_tokens (replicate 4 (length (spaced ?rows))) (spaced ?rows) = ?rows"
  proof (rule scan_tokens_spaced)
    show "length ?rows \<le> length (replicate 4 (length (spaced ?rows)))" using assms(2) by simp
    show "token t" if "t \<in> set ?rows" for t
      using that grouped_length [OF assms(1)] token_print_bytes by auto
    show "length (?rows ! i) \<le> replicate 4 (length (spaced ?rows)) ! i" if "i < length ?rows" for i
    proof -
      have "length t \<le> length (spaced ts)" if "t \<in> set ts" for t ts
        using that by (induction ts) auto
      from this [OF nth_mem [OF that]] show ?thesis using that assms(2) by simp
    qed
  qed
  ultimately show ?thesis by (simp add: scan_data_def)
qed

lemma overflows_rows:
  "(\<And>t. t \<in> set ts \<Longrightarrow> length t \<le> 8) \<Longrightarrow> k + length ts \<le> 4 \<Longrightarrow> \<not> overflows_from k ts"
proof (induction ts arbitrary: k)
  case (Cons t ts)
  have "length t \<le> 8" "k \<le> 3" using Cons.prems by auto
  then have "\<not> 36 < 9 * k + length t + 1" by linarith
  then show ?case using Cons.IH [of "Suc k"] Cons.prems by auto
qed simp

text \<open>Consecutive bytes put into a byte memory.\<close>

primrec put_bytes :: "byte list \<Rightarrow> cint \<Rightarrow> (cint \<Rightarrow> byte) \<Rightarrow> cint \<Rightarrow> byte" where
  "put_bytes [] a f = f"
| "put_bytes (b # bs) a f = put_bytes bs (a + 1) (f(a := b))"

lemma view_put_bytes:
  "byte_at (snd (fold (\<lambda>d (a, m). (a + 1, memory_wr_b m a d)) ds (a, m))) =
   put_bytes (map ucast ds) a (byte_at m)"
  by (induction ds arbitrary: a m) (simp_all add: paged.wr_b_any)

lemma load_data_line:
  assumes "grouped gs" and "length gs \<le> 4"
  shows "\<exists>mem. load_line (data_line addr gs) ld = Inr (ld\<lparr>ld_mem := mem\<rparr>) \<and>
    byte_at mem = put_bytes (concat gs) addr (byte_at (ld_mem ld)) \<and>
    (\<forall>i<length (concat gs). byte_at mem (addr + of_nat i) = concat gs ! i) \<and>
    (\<forall>b. (\<forall>i<length (concat gs). b \<noteq> addr + of_nat i) \<longrightarrow> byte_at mem b = byte_at (ld_mem ld) b)"
proof -
  let ?rows = "map print_bytes gs" and ?bs = "concat gs"
  let ?ds = "map (\<lambda>b. word_of_int (uint b)) ?bs :: cint list"
  have len: "length t \<le> 8" if "t \<in> set ?rows" for t
    using that grouped_length [OF assms(1)] by fastforce
  have num: "count_hexes ?rows = length ?bs"
    by (simp add: count_hexes_def count_digits_grouped [OF assms(1)])
  have pos: "?bs \<noteq> []" using assms(1) by (cases gs rule: grouped.cases) auto
  have small: "length ?bs \<le> 2 ^ 32"
  proof -
    have "length (concat gs) \<le> 4 * length gs" if "\<And>g. g \<in> set gs \<Longrightarrow> length g \<le> 4" for gs :: "byte list list"
      using that by (induction gs) (auto simp: add_mono)
    then have "length ?bs \<le> 4 * length gs" using grouped_length [OF assms(1)] by blast
    then show ?thesis using assms(2) by simp
  qed
  have ds: "map (\<lambda>i. word_of_int (to_hex2 (?rows ! (i div 4) ! ((i mod 4) * 2))
      (?rows ! (i div 4) ! ((i mod 4) * 2 + 1)))) [0..<length ?bs] = ?ds"
  proof (rule nth_equalityI)
    fix i assume "i < length (map (\<lambda>i. word_of_int (to_hex2 (?rows ! (i div 4) ! ((i mod 4) * 2))
      (?rows ! (i div 4) ! ((i mod 4) * 2 + 1))) :: cint) [0..<length ?bs])"
    then have i: "i < length ?bs" by simp
    show "map (\<lambda>i. word_of_int (to_hex2 (?rows ! (i div 4) ! ((i mod 4) * 2))
        (?rows ! (i div 4) ! ((i mod 4) * 2 + 1)))) [0..<length ?bs] ! i = ?ds ! i"
      using i grouped_nth [OF assms(1) i] nth_print_bytes [of "i mod 4" "gs ! (i div 4)"] by simp
  qed simp
  define mem where "mem = snd (fold (\<lambda>d (a, m). (a + 1, memory_wr_b m a d)) ?ds (addr, ld_mem ld))"
  have "fst (fold (wr_data ?rows) [0..<length ?bs] (ld_mem ld, addr)) = mem"
    unfolding fold_wr_data ds mem_def by simp
  moreover have "\<not> overflows ?rows" using len assms(2) by (intro overflows_rows) auto
  ultimately have "load_line (data_line addr gs) ld = Inr (ld\<lparr>ld_mem := mem\<rparr>)"
    unfolding load_line_def scan_data_line [OF assms] Let_def option.case prod.case num
    using pos by (simp only: if_False) simp
  moreover have u: "(ucast (word_of_int (uint b) :: cint) :: byte) = b" for b :: byte
    by (rule word8_eqI) (simp add: all_less_8 bit_simps)
  have "map ucast ?ds = ?bs" by (simp only: map_map comp_def u map_ident)
  then have "byte_at mem = put_bytes ?bs addr (byte_at (ld_mem ld))"
    unfolding mem_def view_put_bytes by simp
  moreover have "byte_at mem (addr + of_nat i) = ?bs ! i" if "i < length ?bs" for i
  proof -
    show ?thesis using u unfolding mem_def using paged.view_fold_wr_b [of ?ds i] small that by simp
  qed
  moreover have "byte_at mem b = byte_at (ld_mem ld) b"
    if "\<forall>i<length ?bs. b \<noteq> addr + of_nat i" for b
    unfolding mem_def using that by (intro paged.view_fold_wr_b_other) simp
  ultimately show ?thesis by blast
qed

text \<open>
  A row of four groups may be followed by the column of characters that objdump prints: the
  four strings are read by then, and the rest of the line is not looked at.
\<close>

lemma scan_tokens_tail:
  assumes "length ts = length ws" and "\<And>t. t \<in> set ts \<Longrightarrow> token t"
    and "\<And>i. i < length ts \<Longrightarrow> length (ts ! i) \<le> ws ! i" and "tail = [] \<or> isspace (hd tail)"
  shows "scan_tokens ws (spaced ts @ tail) = ts"
  using assms
proof (induction ts arbitrary: ws)
  case (Cons t ts)
  then obtain w ws' where ws: "ws = w # ws'" by (cases ws) auto
  have "spaced ts @ tail = [] \<or> isspace (hd (spaced ts @ tail))"
    using hd_spaced [of ts] Cons.prems(4) by (cases "spaced ts") auto
  then have "scan_s w ('' '' @ t @ spaced ts @ tail) = Some (t, spaced ts @ tail)"
    using Cons.prems(2) [of t] Cons.prems(3) [of 0] ws
    by (intro scan_s_token) (auto simp: token_def)
  moreover have "scan_tokens ws' (spaced ts @ tail) = ts"
  proof (rule Cons.IH)
    show "length (ts ! i) \<le> ws' ! i" if "i < length ts" for i
      using Cons.prems(3) [of "Suc i"] ws that by simp
  qed (use Cons.prems(1,2,4) ws in auto)
  ultimately show ?case by (simp add: ws)
qed simp

lemma scan_data_tail:
  assumes gs: "grouped gs" "length gs = 4" and tail: "tail = [] \<or> isspace (hd tail)"
  shows "scan_data (data_line addr gs @ tail) = Some (addr, map print_bytes gs)"
proof -
  let ?rows = "map print_bytes gs"
  let ?xs = "spaced ?rows @ tail"
  have "?rows \<noteq> []" using gs(2) by auto
  then obtain xs where xs: "?xs = CHR '' '' # xs" by (cases ?rows) auto
  have "scan_x ([] @ hex_digits 8 (unat addr) @ ?xs) =
      Some (word_of_int (hex_value (hex_digits 8 (unat addr))), ?xs)"
    using hex_digits_xdigit unfolding xs
    by (intro scan_x_digits) (auto simp: isspace_def is_xdigit_def is_hex_def)
  moreover have "unat addr mod 16 ^ 8 = unat addr"
    using unsigned_less [of addr, where ?'a = nat] by simp
  then have "word_of_int (hex_value (hex_digits 8 (unat addr))) = addr"
    by (simp only: hex_value_digits) simp
  ultimately have "scan_x (data_line addr gs @ tail) = Some (addr, ?xs)"
    by (simp add: data_line_def)
  moreover have "scan_tokens (replicate 4 (length ?xs)) ?xs = ?rows"
  proof (rule scan_tokens_tail)
    show "token t" if "t \<in> set ?rows" for t
      using that grouped_length [OF gs(1)] token_print_bytes by auto
    show "length (?rows ! i) \<le> replicate 4 (length ?xs) ! i" if "i < length ?rows" for i
    proof -
      have "length t \<le> length (spaced ts @ tail)" if "t \<in> set ts" for t ts
        using that by (induction ts) auto
      from this [OF nth_mem [OF that]] show ?thesis using that gs(2) by simp
    qed
  qed (use gs tail in auto)
  ultimately show ?thesis by (simp add: scan_data_def)
qed

lemma load_data_tail:
  assumes "grouped gs" "length gs = 4" "tail = [] \<or> isspace (hd tail)"
  shows "load_line (data_line addr gs @ tail) ld = load_line (data_line addr gs) ld"
proof -
  have "concat gs \<noteq> []" using assms(1) by (cases gs rule: grouped.cases) auto
  then have "count_hexes (map print_bytes gs) \<noteq> 0"
    by (simp add: count_hexes_def count_digits_grouped [OF assms(1)])
  then show ?thesis
    using assms unfolding load_line_def scan_data_tail [OF assms]
    by (simp add: scan_data_line Let_def)
qed

section \<open>Lines of instructions and symbols\<close>

text \<open>\<^verbatim>\<open>addr: word opcode args rest\<close>, with up to three texts.\<close>

definition insn_line :: "cint \<Rightarrow> cint \<Rightarrow> string list \<Rightarrow> string" where
  "insn_line addr w texts = hex_digits 8 (unat addr) @ '':'' @ spaced (hex_digits 8 (unat w) # texts)"

definition symbol_line :: "cint \<Rightarrow> string \<Rightarrow> string" where
  "symbol_line addr symbol = hex_digits 8 (unat addr) @ '' <'' @ symbol"

definition texts_ok :: "string list \<Rightarrow> bool" where
  "texts_ok texts \<longleftrightarrow> length texts \<le> 3 \<and> (\<forall>t \<in> set texts. token t) \<and>
     (\<forall>i<length texts. length (texts ! i) \<le> [7, 15, 23] ! i)"

lemma scan_x_word:
  assumes "\<And>c. c \<in> set ws \<Longrightarrow> isspace c"
    and "rest = [] \<or> (\<not> is_xdigit (hd rest) \<and> hd rest \<noteq> CHR ''x'' \<and> hd rest \<noteq> CHR ''X'')"
  shows "scan_x (ws @ hex_digits 8 (unat w) @ rest) = Some (w, rest)"
proof -
  have "unat w mod 16 ^ 8 = unat w"
    using unsigned_less [of w, where ?'a = nat] by simp
  then have "word_of_int (hex_value (hex_digits 8 (unat w))) = w"
    by (simp only: hex_value_digits) simp
  moreover have "scan_x (ws @ hex_digits 8 (unat w) @ rest) =
      Some (word_of_int (hex_value (hex_digits 8 (unat w))), rest)"
    using assms hex_digits_xdigit by (intro scan_x_digits) auto
  ultimately show ?thesis by simp
qed

lemma spaced_follows:
  "spaced ts = [] \<or> (\<not> is_xdigit (hd (spaced ts)) \<and> hd (spaced ts) \<noteq> CHR ''x'' \<and> hd (spaced ts) \<noteq> CHR ''X'')"
  using hd_spaced [of ts] xdigit_not(5) by (auto simp: isspace_def)

lemma scan_insn_line:
  assumes "texts_ok texts"
  shows "scan_insn (insn_line addr w texts) = Some (addr, w, texts)"
proof -
  have "scan_x ([] @ hex_digits 8 (unat addr) @ CHR '':'' # spaced (hex_digits 8 (unat w) # texts)) =
      Some (addr, CHR '':'' # spaced (hex_digits 8 (unat w) # texts))"
    by (rule scan_x_word) (simp_all add: is_xdigit_def is_hex_def)
  moreover have "scan_x ('' '' @ hex_digits 8 (unat w) @ spaced texts) = Some (w, spaced texts)"
    by (rule scan_x_word [OF _ spaced_follows]) simp
  moreover have "scan_tokens [7, 15, 23] (spaced texts) = texts"
    using assms by (intro scan_tokens_spaced) (auto simp: texts_ok_def)
  ultimately show ?thesis by (simp add: scan_insn_def insn_line_def)
qed

text \<open>
  The first \<^verbatim>\<open>sscanf\<close> on such a line reads the colon as its first string, which has no
  hexadecimal digit; the fourth string must fit into its row.
\<close>

lemma token_colon: "token '':''"
  by (simp add: token_def isspace_def)

lemma token_hex: "0 < k \<Longrightarrow> token (hex_digits k v)"
  unfolding token_def using hex_digits_xdigit xdigit_not(5,6) by auto

lemma scan_tokens_unlimited:
  "(\<And>t. t \<in> set ts \<Longrightarrow> token t) \<Longrightarrow> length (spaced ts) \<le> n \<Longrightarrow>
   scan_tokens (replicate k n) (spaced ts) = take k ts"
proof (induction k arbitrary: ts)
  case (Suc k)
  show ?case
  proof (cases ts)
    case (Cons t us)
    have "scan_s n ('' '' @ t @ spaced us) = Some (t, spaced us)"
      using Suc.prems Cons hd_spaced [of us] by (intro scan_s_token) (auto simp: token_def)
    then show ?thesis using Suc.IH [of us] Suc.prems Cons by simp
  qed (simp add: scan_s_def)
qed simp

lemma scan_colon: "scan_s (Suc n) ('':'' @ spaced ts) = Some ('':'', spaced ts)"
proof -
  have "\<not> isspace (CHR '':'')" by (simp add: isspace_def)
  then show ?thesis using scan_s_token [of "'':''" "Suc n" "[]" "spaced ts"] hd_spaced [of ts] by simp
qed

lemma scan_data_insn_line:
  assumes "texts_ok texts"
  shows "scan_data (insn_line addr w texts) =
    Some (addr, '':'' # hex_digits 8 (unat w) # take 2 texts)"
proof -
  let ?rest = "spaced (hex_digits 8 (unat w) # texts)"
  have "scan_x ([] @ hex_digits 8 (unat addr) @ CHR '':'' # ?rest) = Some (addr, CHR '':'' # ?rest)"
    by (rule scan_x_word) (simp_all add: is_xdigit_def is_hex_def)
  then have x: "scan_x (insn_line addr w texts) = Some (addr, '':'' @ ?rest)"
    by (simp add: insn_line_def)
  have "\<And>t. t \<in> set (hex_digits 8 (unat w) # texts) \<Longrightarrow> token t"
    using assms token_hex [of 8] by (auto simp: texts_ok_def)
  from scan_tokens_unlimited [OF this, of "hex_digits 8 (unat w) # texts" "Suc (length ?rest)" 3]
  have "scan_tokens (replicate 3 (Suc (length ?rest))) ?rest = take (Suc 2) (hex_digits 8 (unat w) # texts)"
    by (simp only: numeral_3_eq_3 numeral_2_eq_2)
  moreover have "replicate 4 n = n # replicate 3 n" for n :: nat
    by (simp add: eval_nat_numeral)
  then have "replicate 4 (length ('':'' @ ?rest)) = Suc (length ?rest) # replicate 3 (Suc (length ?rest))"
    by (simp del: spaced_simps)
  ultimately show ?thesis unfolding scan_data_def x option.case prod.case
    by (simp only: scan_tokens.simps scan_colon option.case prod.case take_Suc_Cons)
qed

lemma count_hexes_no_hex: "\<not> is_hex c \<Longrightarrow> count_hexes ((c # t) # ts) = 0"
proof -
  have "count_row 8 (c # t) = (0, False)" if "\<not> is_hex c"
    using that count_row.simps(3) [of 7 c t] by simp
  then show "\<not> is_hex c \<Longrightarrow> count_hexes ((c # t) # ts) = 0"
    by (simp add: count_hexes_def)
qed

lemma colon_not_hex: "\<not> is_hex (CHR '':'')"
  by (simp add: is_hex_def)

lemma insn_overflow_iff:
  assumes "texts_ok texts"
  shows "overflows ('':'' # hex_digits 8 (unat w) # take 2 texts) \<longleftrightarrow>
    1 < length texts \<and> 8 < length (texts ! 1)"
proof (cases texts)
  case (Cons t us)
  have "length t \<le> 7" using assms Cons by (force simp: texts_ok_def)
  then show ?thesis using Cons by (cases us) (simp_all add: numeral_2_eq_2)
qed simp

lemma load_insn_line:
  assumes "texts_ok texts" and "\<not> (1 < length texts \<and> 8 < length (texts ! 1))"
  shows "load_line (insn_line addr w texts) ld = load_insn addr w texts ld"
  using assms(2)
  unfolding load_line_def scan_data_insn_line [OF assms(1)] scan_insn_line [OF assms(1)] Let_def
    option.case prod.case insn_overflow_iff [OF assms(1)] count_hexes_no_hex [OF colon_not_hex]
  by (simp only: if_False) simp

lemma load_insn_line_overflow:
  assumes "texts_ok texts" and "1 < length texts" "8 < length (texts ! 1)"
  shows "load_line (insn_line addr w texts) ld = Inl Undefined_behaviour"
  using assms(2,3)
  unfolding load_line_def scan_data_insn_line [OF assms(1)] Let_def
    option.case prod.case insn_overflow_iff [OF assms(1)]
  by simp

lemma load_insn_effect:
  assumes "addr AND 3 = 0" and "asm_ok (ld_as ld)" and "0 \<le> sint addr" "sint addr < ADDR_LIMIT"
  shows "\<exists>ld'. load_insn addr w texts ld = Inr ld' \<and> ld_start ld' = ld_start ld \<and> asm_ok (ld_as ld') \<and>
    word_at (ld_mem ld') addr = w \<and>
    byte_at (ld_mem ld') = (byte_at (ld_mem ld))(addr := byte_of 0 w, addr + 1 := byte_of 1 w,
      addr + 2 := byte_of 2 w, addr + 3 := byte_of 3 w) \<and>
    asm_map (ld_as ld') = (if texts = [] then asm_map (ld_as ld)
      else (asm_map (ld_as ld))(sint addr \<mapsto> insn_text texts))"
proof -
  obtain mem where mem: "memory_wr_w (ld_mem ld) addr w = Inr mem"
    and bytes: "byte_at mem = (byte_at (ld_mem ld))(addr := byte_of 0 w, addr + 1 := byte_of 1 w,
      addr + 2 := byte_of 2 w, addr + 3 := byte_of 3 w)"
    using paged.wr_w_aligned [OF assms(1)] by metis
  have word: "word_at mem addr = w"
    unfolding word_at_bytes [OF assms(1)] bytes by (simp add: byte_simps)
  show ?thesis
  proof (cases "texts = []")
    case True
    then show ?thesis using mem bytes word assms(2) by (auto simp: load_insn_def)
  next
    case False
    obtain as where "assembly_set (ld_as ld) (sint addr) (insn_text texts) = Inr as" "asm_ok as"
      "asm_map as = (asm_map (ld_as ld))(sint addr \<mapsto> insn_text texts)"
      using hashed.set_text [OF assms(2-4)] by blast
    then show ?thesis using False mem bytes word by (auto simp: load_insn_def)
  qed
qed

lemma load_symbol_line:
  assumes "token symbol" and "length symbol < 35"
  shows "load_line (symbol_line addr symbol) ld =
    Inr (if symbol = ''_start>:'' then ld\<lparr>ld_start := addr\<rparr> else ld)"
proof -
  have x: "scan_x (symbol_line addr symbol) = Some (addr, '' <'' @ symbol)"
    using scan_x_word [of "[]" "'' <'' @ symbol" addr] by (simp add: symbol_line_def is_xdigit_def is_hex_def)
  have lt: "\<not> isspace (CHR ''<'')" "\<not> is_hex (CHR ''<'')" by (simp_all add: isspace_def is_hex_def)
  have tok: "token (CHR ''<'' # symbol)" using assms(1) lt(1) by (simp add: token_def)
  have "scan_tokens (replicate 4 (length ('' <'' @ symbol))) (spaced [CHR ''<'' # symbol]) =
      take 4 [CHR ''<'' # symbol]"
    by (rule scan_tokens_unlimited) (use tok in auto)
  then have d: "scan_data (symbol_line addr symbol) = Some (addr, [CHR ''<'' # symbol])"
    unfolding scan_data_def x by simp
  have i: "scan_insn (symbol_line addr symbol) = None"
    by (simp add: scan_insn_def x)
  have "scan_s (length symbol) ([] @ symbol @ []) = Some (symbol, [])"
    using assms(1) by (intro scan_s_token) (auto simp: token_def)
  then have s: "scan_symbol (symbol_line addr symbol) = Some (addr, symbol)"
    by (simp add: scan_symbol_def x lt(1))
  have "\<not> overflows [CHR ''<'' # symbol]" using assms(2) by simp
  then show ?thesis
    by (simp add: load_line_def d i s count_hexes_no_hex [OF lt(2)])
qed

section \<open>Arguments of the simulated program\<close>

definition c_char :: "char \<Rightarrow> cint" where
  "c_char c = scast (word_of_int (code c) :: byte)"

text \<open>The \<^verbatim>\<open>do ... while (c)\<close> loop over a string without its terminating zero.\<close>

fun copy_string :: "string \<Rightarrow> memory \<times> cint \<Rightarrow> memory \<times> cint" where
  "copy_string [] (mem, str_addr) = (memory_wr_b mem str_addr 0, str_addr + 1)"
| "copy_string (c # cs) (mem, str_addr) =
     copy_string cs (memory_wr_b mem str_addr (c_char c), str_addr + 1)"

fun copy_args :: "string list \<Rightarrow> cint \<Rightarrow> memory \<times> cint \<Rightarrow> stop + memory" where
  "copy_args [] p (mem, str_addr) = Inr mem"
| "copy_args (a # as) p (mem, str_addr) =
     seq (memory_wr_w mem p str_addr) (\<lambda>mem. copy_args as (p + 4) (copy_string a (mem, str_addr)))"

definition pass_args_to_program :: "memory \<Rightarrow> string list \<Rightarrow> stop + (nat \<times> memory)" where
  "pass_args_to_program mem argv =
     (let pos = 1 + length (takeWhile (\<lambda>s. s \<noteq> ''--'') (tl argv))
      in if pos < length argv then
           (let args = drop pos argv; num_args = of_nat (length args);
                count_addr = 0x1000000; argv_addr = 0x1000004;
                str_addr = argv_addr + 4 * num_args
            in seq (memory_wr_w mem count_addr num_args) (\<lambda>mem.
               seq (copy_args args argv_addr (mem, str_addr)) (\<lambda>mem. Inr (pos, mem))))
         else Inr (pos, mem))"

text \<open>
  The argument block, seen as bytes at offsets from \<^verbatim>\<open>0x1000000\<close>. Offsets are natural
  numbers below \<open>BLOCK\<close>, which keeps them from wrapping around.
\<close>

definition BLOCK :: nat where "BLOCK = 2 ^ 24"

definition off :: "nat \<Rightarrow> cint" where "off x = 0x1000000 + of_nat x"

definition arg_byte :: "memory \<Rightarrow> nat \<Rightarrow> byte" where
  "arg_byte mem x = byte_at mem (off x)"

lemma off_eq_iff: "x < BLOCK \<Longrightarrow> y < BLOCK \<Longrightarrow> off x = off y \<longleftrightarrow> x = y"
proof -
  assume "x < BLOCK" "y < BLOCK"
  then have "x mod 2 ^ 32 = x" "y mod 2 ^ 32 = y" by (simp_all add: BLOCK_def)
  then show ?thesis
    by (simp add: off_def word_of_nat_eq_iff take_bit_eq_mod)
qed

lemma off_add: "off x + of_nat k = off (x + k)"
  by (simp add: off_def add.assoc)

lemma off_Suc: "off x + 1 = off (Suc x)"
  using off_add [of x 1] by simp

lemma off_aligned: "off (4 * x) AND 3 = 0"
proof -
  have "off (4 * x) = push_bit 2 (0x400000 + of_nat x)"
    by (simp add: off_def push_bit_eq_mult)
  then show ?thesis by (simp only:) (rule word32_eqI, simp add: all_less_32 bit_simps)
qed

lemma arg_byte_wr_b:
  "x < BLOCK \<Longrightarrow> y < BLOCK \<Longrightarrow>
   arg_byte (memory_wr_b mem (off x) d) y = (if y = x then ucast d else arg_byte mem y)"
  by (simp add: arg_byte_def paged.wr_b_any off_eq_iff)

lemma arg_byte_wr_w:
  assumes "4 * x + 4 \<le> BLOCK"
  shows "\<exists>mem'. memory_wr_w mem (off (4 * x)) d = Inr mem' \<and>
    (\<forall>y<BLOCK. arg_byte mem' y =
       (if 4 * x \<le> y \<and> y < 4 * x + 4 then byte_of (y - 4 * x) d else arg_byte mem y))"
proof -
  obtain mem' where mem': "memory_wr_w mem (off (4 * x)) d = Inr mem'"
    and v: "byte_at mem' = (byte_at mem)(off (4 * x) := byte_of 0 d, off (4 * x) + 1 := byte_of 1 d,
      off (4 * x) + 2 := byte_of 2 d, off (4 * x) + 3 := byte_of 3 d)"
    using paged.wr_w_aligned [OF off_aligned] by metis
  have o: "off (4 * x) + 1 = off (4 * x + 1)" "off (4 * x) + 2 = off (4 * x + 2)"
    "off (4 * x) + 3 = off (4 * x + 3)"
    using off_add [of "4 * x" 1] off_add [of "4 * x" 2] off_add [of "4 * x" 3] by simp_all
  have "arg_byte mem' y =
       (if 4 * x \<le> y \<and> y < 4 * x + 4 then byte_of (y - 4 * x) d else arg_byte mem y)"
    if "y < BLOCK" for y
  proof -
    have "y < 4 * x \<or> y = 4 * x \<or> y = 4 * x + 1 \<or> y = 4 * x + 2 \<or> y = 4 * x + 3 \<or> 4 * x + 4 \<le> y"
      by linarith
    then show ?thesis
      using that assms unfolding arg_byte_def v o by (elim disjE) (simp_all add: off_eq_iff)
  qed
  then show ?thesis using mem' by blast
qed

lemma ucast_c_char: "ucast (c_char c) = (word_of_int (code c) :: byte)"
  unfolding c_char_def by (rule word8_eqI) (simp add: all_less_8 bit_simps)

lemma copy_string_effect:
  "x + length cs < BLOCK \<Longrightarrow>
   \<exists>mem'. copy_string cs (mem, off x) = (mem', off (x + length cs + 1)) \<and>
     (\<forall>y<BLOCK. arg_byte mem' y =
       (if x \<le> y \<and> y < x + length cs then word_of_int (code (cs ! (y - x)))
        else if y = x + length cs then 0 else arg_byte mem y))"
proof (induction cs arbitrary: x mem)
  case Nil
  then show ?case by (auto simp: off_Suc arg_byte_wr_b)
next
  case (Cons c cs)
  have "Suc x + length cs < BLOCK" using Cons.prems by simp
  from Cons.IH [OF this, of "memory_wr_b mem (off x) (c_char c)"]
  obtain mem' where mem': "copy_string (c # cs) (mem, off x) = (mem', off (x + length (c # cs) + 1))"
    and b: "\<And>y. y < BLOCK \<Longrightarrow> arg_byte mem' y =
      (if Suc x \<le> y \<and> y < Suc x + length cs then word_of_int (code (cs ! (y - Suc x)))
       else if y = Suc x + length cs then 0 else arg_byte (memory_wr_b mem (off x) (c_char c)) y)"
    by (auto simp: off_Suc)
  have "arg_byte mem' y =
       (if x \<le> y \<and> y < x + length (c # cs) then word_of_int (code ((c # cs) ! (y - x)))
        else if y = x + length (c # cs) then 0 else arg_byte mem y)" if "y < BLOCK" for y
    using b [OF that] that Cons.prems
    by (cases "y = x") (auto simp: arg_byte_wr_b ucast_c_char nth_Cons')
  then show ?case using mem' by blast
qed

text \<open>Where the strings start, and what the block must hold.\<close>

definition size_of :: "string list \<Rightarrow> nat" where
  "size_of args = sum_list (map (\<lambda>a. length a + 1) args)"

lemma size_of_simps [simp]: "size_of [] = 0" "size_of (a # as) = length a + 1 + size_of as"
  by (simp_all add: size_of_def)

definition word_in :: "memory \<Rightarrow> nat \<Rightarrow> cint \<Rightarrow> bool" where
  "word_in mem x w \<longleftrightarrow> (\<forall>k<4. arg_byte mem (4 * x + k) = byte_of k w)"

definition string_in :: "memory \<Rightarrow> nat \<Rightarrow> string \<Rightarrow> bool" where
  "string_in mem x s \<longleftrightarrow>
     (\<forall>k<length s. arg_byte mem (x + k) = word_of_int (code (s ! k))) \<and>
     arg_byte mem (x + length s) = 0"

lemma copy_args_effect:
  assumes "4 * (i + length args) \<le> x" and "x + size_of args \<le> BLOCK"
  shows "\<exists>mem'. copy_args args (off (4 * i)) (mem, off x) = Inr mem' \<and>
    (\<forall>j<length args. word_in mem' (i + j) (off (x + size_of (take j args)))) \<and>
    (\<forall>j<length args. string_in mem' (x + size_of (take j args)) (args ! j)) \<and>
    (\<forall>y<BLOCK. \<not> (4 * i \<le> y \<and> y < 4 * (i + length args)) \<and> \<not> (x \<le> y \<and> y < x + size_of args) \<longrightarrow>
      arg_byte mem' y = arg_byte mem y)"
  using assms
proof (induction args arbitrary: i x mem)
  case (Cons a as)
  have fits: "4 * i + 4 \<le> BLOCK" "x + length a < BLOCK" using Cons.prems by simp_all
  obtain m1 where m1: "memory_wr_w mem (off (4 * i)) (off x) = Inr m1"
    and b1: "\<And>y. y < BLOCK \<Longrightarrow> arg_byte m1 y =
      (if 4 * i \<le> y \<and> y < 4 * i + 4 then byte_of (y - 4 * i) (off x) else arg_byte mem y)"
    using arg_byte_wr_w [OF fits(1), of mem "off x"] by blast
  obtain m2 where m2: "copy_string a (m1, off x) = (m2, off (x + length a + 1))"
    and b2: "\<And>y. y < BLOCK \<Longrightarrow> arg_byte m2 y =
      (if x \<le> y \<and> y < x + length a then word_of_int (code (a ! (y - x)))
       else if y = x + length a then 0 else arg_byte m1 y)"
    using copy_string_effect [OF fits(2), of m1] by blast
  let ?x = "x + length a + 1"
  have "4 * (Suc i + length as) \<le> ?x" "?x + size_of as \<le> BLOCK" using Cons.prems by simp_all
  from Cons.IH [OF this, of m2] obtain m3 where
    m3: "copy_args as (off (4 * Suc i)) (m2, off ?x) = Inr m3"
    and w3: "\<And>j. j < length as \<Longrightarrow> word_in m3 (Suc i + j) (off (?x + size_of (take j as)))"
    and s3: "\<And>j. j < length as \<Longrightarrow> string_in m3 (?x + size_of (take j as)) (as ! j)"
    and f3: "\<And>y. y < BLOCK \<Longrightarrow> \<not> (4 * Suc i \<le> y \<and> y < 4 * (Suc i + length as)) \<Longrightarrow>
      \<not> (?x \<le> y \<and> y < ?x + size_of as) \<Longrightarrow> arg_byte m3 y = arg_byte m2 y"
    by blast
  have "off (4 * i) + 4 = off (4 * Suc i)" using off_add [of "4 * i" 4] by (simp add: add.commute)
  then have run: "copy_args (a # as) (off (4 * i)) (mem, off x) = Inr m3"
    using m1 m2 m3 by simp
  have word: "word_in m3 i (off x)"
    unfolding word_in_def
  proof (intro allI impI)
    fix k :: nat assume "k < 4"
    then have k: "4 * i + k < 4 * Suc i" "4 * i + k < x" "4 * i + k < BLOCK"
      using Cons.prems by simp_all
    then show "arg_byte m3 (4 * i + k) = byte_of k (off x)"
      using f3 [OF k(3)] b2 [OF k(3)] b1 [OF k(3)] \<open>k < 4\<close> by simp
  qed
  have str: "string_in m3 x a"
    unfolding string_in_def
  proof (intro conjI allI impI)
    have "4 * (Suc i + length as) \<le> x" using Cons.prems by simp
    then have keep: "arg_byte m3 (x + k) = arg_byte m2 (x + k)" if "k \<le> length a" for k
      using that fits(2) by (intro f3) auto
    show "arg_byte m3 (x + k) = word_of_int (code (a ! k))" if "k < length a" for k
      using keep [of k] b2 [of "x + k"] that fits(2) by simp
    show "arg_byte m3 (x + length a) = 0" using keep [of "length a"] b2 [of "x + length a"] fits(2) by simp
  qed
  have frame: "arg_byte m3 y = arg_byte mem y"
    if "y < BLOCK" "\<not> (4 * i \<le> y \<and> y < 4 * (i + length (a # as)))"
      "\<not> (x \<le> y \<and> y < x + size_of (a # as))" for y
    using f3 [of y] b2 [of y] b1 [of y] that by auto
  have words: "word_in m3 (i + j) (off (x + size_of (take j (a # as))))" if "j < length (a # as)" for j
    using word w3 [of "j - 1"] that by (cases j) (simp_all add: add.assoc)
  have strs: "string_in m3 (x + size_of (take j (a # as))) ((a # as) ! j)" if "j < length (a # as)" for j
    using str s3 [of "j - 1"] that by (cases j) (simp_all add: add.assoc)
  show ?case using run words strs frame by blast
qed simp

lemma word_in_word_at:
  assumes "word_in mem x w"
  shows "word_at mem (off (4 * x)) = w"
proof -
  have "byte_at mem (off (4 * x)) = byte_of 0 w" "byte_at mem (off (4 * x) + 1) = byte_of 1 w"
    "byte_at mem (off (4 * x) + 2) = byte_of 2 w" "byte_at mem (off (4 * x) + 3) = byte_of 3 w"
    using assms off_add [of "4 * x" 1] off_add [of "4 * x" 2] off_add [of "4 * x" 3]
    by (auto simp: word_in_def arg_byte_def all_less_4)
  then show ?thesis unfolding word_at_bytes [OF off_aligned] by (simp only: byte_simps)
qed

lemma pass_args_effect:
  assumes "argv = p # opts @ ''--'' # args" and "''--'' \<notin> set opts"
    and "4 + 4 * length (''--'' # args) + size_of (''--'' # args) \<le> BLOCK"
  defines "n \<equiv> length (''--'' # args)"
  shows "\<exists>mem'. pass_args_to_program mem argv = Inr (1 + length opts, mem') \<and>
    word_at mem' (off 0) = of_nat n \<and>
    (\<forall>j<n. word_at mem' (off (4 * (1 + j))) = off (4 + 4 * n + size_of (take j (''--'' # args))) \<and>
      string_in mem' (4 + 4 * n + size_of (take j (''--'' # args))) ((''--'' # args) ! j))"
proof -
  let ?as = "''--'' # args" and ?x = "4 + 4 * n"
  have tw: "takeWhile (\<lambda>s. s \<noteq> ''--'') (opts @ ?as) = opts"
    using assms(2) by (induction opts) auto
  have addr: "(0x1000000 :: cint) = off (4 * 0)" "(0x1000004 :: cint) = off (4 * 1)"
    "(0x1000004 :: cint) + 4 * of_nat n = off ?x"
    by (simp_all add: off_def)
  have pass: "pass_args_to_program mem argv =
      seq (memory_wr_w mem (off (4 * 0)) (of_nat n)) (\<lambda>mem.
      seq (copy_args ?as (off (4 * 1)) (mem, off ?x)) (\<lambda>mem. Inr (1 + length opts, mem)))"
  proof -
    have "drop (1 + length opts) argv = ?as" "1 + length opts < length argv" using assms(1) by simp_all
    then show ?thesis
      unfolding pass_args_to_program_def Let_def addr(1) [symmetric] addr(2) [symmetric] addr(3) [symmetric]
      using assms(1) tw by (simp add: n_def)
  qed
  have fits: "4 * (0 :: nat) + 4 \<le> BLOCK" "4 * (1 + length ?as) \<le> ?x" "?x + size_of ?as \<le> BLOCK"
    using assms(3) by (simp_all add: BLOCK_def n_def)
  obtain m1 where m1: "memory_wr_w mem (off (4 * 0)) (of_nat n) = Inr m1"
    and b1: "\<And>y. y < BLOCK \<Longrightarrow> arg_byte m1 y =
      (if 4 * 0 \<le> y \<and> y < 4 * 0 + 4 then byte_of (y - 4 * 0) (of_nat n) else arg_byte mem y)"
    using arg_byte_wr_w [OF fits(1), of mem "of_nat n"] by blast
  obtain m2 where m2: "copy_args ?as (off (4 * 1)) (m1, off ?x) = Inr m2"
    and w2: "\<And>j. j < length ?as \<Longrightarrow> word_in m2 (1 + j) (off (?x + size_of (take j ?as)))"
    and s2: "\<And>j. j < length ?as \<Longrightarrow> string_in m2 (?x + size_of (take j ?as)) (?as ! j)"
    and f2: "\<And>y. y < BLOCK \<Longrightarrow> \<not> (4 * 1 \<le> y \<and> y < 4 * (1 + length ?as)) \<Longrightarrow>
      \<not> (?x \<le> y \<and> y < ?x + size_of ?as) \<Longrightarrow> arg_byte m2 y = arg_byte m1 y"
    using copy_args_effect [OF fits(2,3), of m1] by blast
  have "arg_byte m2 (4 * 0 + k) = byte_of k (of_nat n)" if "k < 4" for k
    using f2 [of k] b1 [of k] that fits(1) by simp
  then have "word_in m2 0 (of_nat n)" by (simp add: word_in_def)
  then have "word_at m2 (off 0) = of_nat n" using word_in_word_at [of m2 0] by simp
  moreover have "pass_args_to_program mem argv = Inr (1 + length opts, m2)"
    using m1 m2 by (simp add: pass)
  ultimately show ?thesis
    using w2 [THEN word_in_word_at] s2 unfolding n_def [symmetric] by blast
qed

section \<open>Whole listings\<close>

text \<open>Lines that fit into the buffer are loaded one after the other.\<close>

primrec load_lines :: "string list \<Rightarrow> loader \<Rightarrow> stop + loader" where
  "load_lines [] ld = Inr ld"
| "load_lines (l # ls) ld = seq (load_line l ld) (load_lines ls)"

definition plain_line :: "string \<Rightarrow> bool" where
  "plain_line l \<longleftrightarrow> newline \<notin> set l \<and> CHR 0x00 \<notin> set l \<and> length l < 1023"

definition listing :: "string list \<Rightarrow> string" where
  "listing ls = concat (map (\<lambda>l. l @ [newline]) ls)"

lemma read_lines_listing:
  "(\<And>l. l \<in> set ls \<Longrightarrow> plain_line l) \<Longrightarrow> read_lines (listing ls) ld = load_lines ls ld"
proof (induction ls arbitrary: ld)
  case Nil
  show ?case by (simp add: listing_def read_lines.simps)
next
  case (Cons l ls)
  have l: "newline \<notin> set l" "CHR 0x00 \<notin> set l" "length l < 1023"
    using Cons.prems by (auto simp: plain_line_def)
  have "takeWhile (\<lambda>c. c \<noteq> CHR 0x00) (l @ [newline]) = l @ [newline]"
    using l(2) by (auto simp: takeWhile_eq_all_conv)
  then have ch: "chomp (l @ [newline]) = Inr l" by (simp add: chomp_def Let_def)
  have "listing (l # ls) = l @ newline # listing ls" by (simp add: listing_def)
  then have "read_lines (listing (l # ls)) ld =
      (case load_line l ld of Inl e \<Rightarrow> Inl e | Inr ld' \<Rightarrow> read_lines (listing ls) ld')"
    by (simp add: read_lines.simps [of "l @ newline # listing ls"] fgets_line l ch)
  then show ?case using Cons by (cases "load_line l ld") simp_all
qed

text \<open>
  What a listing means: its lines as items, and the effect of an item on the bytes of the
  memory, the texts of the instructions and the start address.
\<close>

datatype item =
    Data cint "byte list list" string
  | Insn cint cint "string list"
  | Symbol cint string
  | Skipped string

record image =
  im_bytes :: "cint \<Rightarrow> byte"
  im_texts :: "int \<Rightarrow> string option"
  im_start :: cint

primrec show_item :: "item \<Rightarrow> string" where
  "show_item (Data addr gs tail) = data_line addr gs @ tail"
| "show_item (Insn addr w texts) = insn_line addr w texts"
| "show_item (Symbol addr symbol) = symbol_line addr symbol"
| "show_item (Skipped line) = line"

primrec item_effect :: "item \<Rightarrow> image \<Rightarrow> image" where
  "item_effect (Data addr gs tail) im = im\<lparr>im_bytes := put_bytes (concat gs) addr (im_bytes im)\<rparr>"
| "item_effect (Insn addr w texts) im =
     im\<lparr>im_bytes := put_bytes [byte_of 0 w, byte_of 1 w, byte_of 2 w, byte_of 3 w] addr (im_bytes im),
        im_texts := (if texts = [] then im_texts im
                     else (im_texts im)(sint addr \<mapsto> insn_text texts))\<rparr>"
| "item_effect (Symbol addr symbol) im =
     (if symbol = ''_start>:'' then im\<lparr>im_start := addr\<rparr> else im)"
| "item_effect (Skipped line) im = im"

text \<open>
  The lines that are covered: rows of at most four groups of bytes, where only a row of four
  groups has a column of characters behind them; instructions at an aligned address below
  \<^term>\<open>ADDR_LIMIT\<close> whose operands have at most eight characters, because the first
  \<^verbatim>\<open>sscanf\<close> stores them into a row of \<^verbatim>\<open>hexes\<close>; symbols that fit into what is left of
  \<^verbatim>\<open>hexes\<close>; and lines without a number at the front, such as empty ones.
\<close>

primrec item_ok :: "item \<Rightarrow> bool" where
  "item_ok (Data addr gs tail) \<longleftrightarrow> grouped gs \<and> length gs \<le> 4 \<and>
     (tail = [] \<or> length gs = 4 \<and> isspace (hd tail)) \<and>
     newline \<notin> set tail \<and> CHR 0x00 \<notin> set tail \<and> length tail \<le> 80"
| "item_ok (Insn addr w texts) \<longleftrightarrow> texts_ok texts \<and> \<not> (1 < length texts \<and> 8 < length (texts ! 1)) \<and>
     addr AND 3 = 0 \<and> 0 \<le> sint addr \<and> sint addr < ADDR_LIMIT"
| "item_ok (Symbol addr symbol) \<longleftrightarrow> token symbol \<and> length symbol < 35"
| "item_ok (Skipped line) \<longleftrightarrow> plain_line line \<and> scan_x line = None"

definition image_of :: "loader \<Rightarrow> image" where
  "image_of ld = \<lparr>im_bytes = byte_at (ld_mem ld), im_texts = asm_map (ld_as ld), im_start = ld_start ld\<rparr>"

lemma load_item:
  assumes "item_ok it" and "asm_ok (ld_as ld)"
  shows "\<exists>ld'. load_line (show_item it) ld = Inr ld' \<and> asm_ok (ld_as ld') \<and>
    image_of ld' = item_effect it (image_of ld)"
proof (cases it)
  case (Data addr gs tail)
  then have "load_line (show_item it) ld = load_line (data_line addr gs) ld"
    using load_data_tail [of gs tail addr ld] assms(1) by (cases "tail = []") auto
  then show ?thesis using load_data_line [of gs addr ld] assms Data
    by (auto simp: image_of_def)
next
  case (Skipped line)
  then have "load_line (show_item it) ld = Inr ld"
    using assms(1)
    by (simp add: load_line_def scan_data_def scan_insn_def scan_symbol_def count_hexes_def)
  then show ?thesis using Skipped assms(2) by simp
next
  case (Insn addr w texts)
  have "load_line (show_item it) ld = load_insn addr w texts ld"
    using load_insn_line assms(1) Insn by simp
  moreover obtain ld' where "load_insn addr w texts ld = Inr ld'" "ld_start ld' = ld_start ld"
    "asm_ok (ld_as ld')"
    "byte_at (ld_mem ld') = (byte_at (ld_mem ld))(addr := byte_of 0 w, addr + 1 := byte_of 1 w,
      addr + 2 := byte_of 2 w, addr + 3 := byte_of 3 w)"
    "asm_map (ld_as ld') = (if texts = [] then asm_map (ld_as ld)
      else (asm_map (ld_as ld))(sint addr \<mapsto> insn_text texts))"
    using load_insn_effect [of addr ld w texts] assms Insn by auto
  ultimately show ?thesis using Insn by (simp add: image_of_def add.assoc)
next
  case (Symbol addr symbol)
  then show ?thesis using load_symbol_line [of symbol addr ld] assms by (simp add: image_of_def)
qed

lemma load_items:
  assumes "\<And>it. it \<in> set its \<Longrightarrow> item_ok it" and "asm_ok (ld_as ld)"
  shows "\<exists>ld'. load_lines (map show_item its) ld = Inr ld' \<and> asm_ok (ld_as ld') \<and>
    image_of ld' = fold item_effect its (image_of ld)"
  using assms
proof (induction its arbitrary: ld)
  case (Cons it its)
  obtain ld1 where "load_line (show_item it) ld = Inr ld1" "asm_ok (ld_as ld1)"
    "image_of ld1 = item_effect it (image_of ld)"
    using load_item [of it ld] Cons.prems by auto
  then show ?case using Cons.IH [of ld1] Cons.prems by auto
qed simp

section \<open>Properties\<close>

text \<open>Printed items fit into the line buffer.\<close>

lemma no_newline: "token t \<Longrightarrow> newline \<notin> set t \<and> CHR 0x00 \<notin> set t"
proof -
  have "isspace newline" by (simp add: isspace_def)
  then show "token t \<Longrightarrow> newline \<notin> set t \<and> CHR 0x00 \<notin> set t" unfolding token_def by blast
qed

lemma spaced_plain: "(\<And>t. t \<in> set ts \<Longrightarrow> token t) \<Longrightarrow> newline \<notin> set (spaced ts) \<and> CHR 0x00 \<notin> set (spaced ts)"
proof (induction ts)
  case (Cons t ts)
  then show ?case using no_newline [of t] by auto
qed simp

lemma length_spaced: "(\<And>t. t \<in> set ts \<Longrightarrow> length t \<le> n) \<Longrightarrow> length (spaced ts) \<le> length ts * (n + 1)"
proof (induction ts)
  case (Cons t ts)
  have "length t \<le> n" "length (spaced ts) \<le> length ts * (n + 1)" using Cons by auto
  then show ?case by simp
qed simp

lemma item_plain:
  assumes "item_ok it"
  shows "plain_line (show_item it)"
proof (cases it)
  case (Skipped line)
  then show ?thesis using assms by simp
next
  case (Data addr gs tail)
  let ?ts = "hex_digits 8 (unat addr) # map print_bytes gs"
  have tok: "token t \<and> length t \<le> 8" if "t \<in> set ?ts" for t
    using that assms Data grouped_length [of gs] token_print_bytes token_hex [of 8] by fastforce
  then show ?thesis
    using spaced_plain [of ?ts] length_spaced [of ?ts 8] assms Data
    by (auto simp: plain_line_def data_line_def)
next
  case (Insn addr w texts)
  let ?ts = "hex_digits 8 (unat addr) # hex_digits 8 (unat w) # texts"
  have "length t \<le> 23" if "t \<in> set texts" for t
  proof -
    obtain i where "i < length texts" "t = texts ! i" using \<open>t \<in> set texts\<close> by (auto simp: in_set_conv_nth)
    moreover from this have "length t \<le> [7, 15, 23] ! i" "i < 3" using assms Insn by (auto simp: texts_ok_def)
    ultimately show ?thesis by (auto simp: less_Suc_eq numeral_3_eq_3)
  qed
  then have tok: "token t \<and> length t \<le> 23" if "t \<in> set ?ts" for t
    using that assms Insn token_hex [of 8] by (auto simp: texts_ok_def)
  moreover have "length ?ts \<le> 5" using assms Insn by (simp add: texts_ok_def)
  ultimately show ?thesis
    using spaced_plain [of ?ts] length_spaced [of ?ts 23] Insn
    by (auto simp: plain_line_def insn_line_def)
next
  case (Symbol addr symbol)
  then show ?thesis
    using assms no_newline [of symbol] no_newline [OF token_hex, of 8 "unat addr"]
    by (auto simp: plain_line_def symbol_line_def)
qed

lemma read_exec_listing:
  assumes "\<forall>it \<in> set its. item_ok it" and "asm_ok as"
    and "im = fold item_effect its \<lparr>im_bytes = byte_at mem, im_texts = asm_map as, im_start = - 1\<rparr>"
  shows "if im_start im = - 1
    then read_exec (Some (listing (map show_item its))) mem as = Inl Exit_failure
    else \<exists>mem' as'. read_exec (Some (listing (map show_item its))) mem as = Inr (im_start im, mem', as') \<and>
      byte_at mem' = im_bytes im \<and> asm_map as' = im_texts im"
proof -
  let ?ld = "\<lparr>ld_mem = mem, ld_as = as, ld_start = - 1\<rparr>"
  obtain ld' where "load_lines (map show_item its) ?ld = Inr ld'" "image_of ld' = im"
    using load_items [of its ?ld] assms by (auto simp: image_of_def)
  moreover have "read_lines (listing (map show_item its)) ?ld = load_lines (map show_item its) ?ld"
    using assms(1) item_plain by (intro read_lines_listing) auto
  ultimately show ?thesis by (auto simp: read_exec_def image_of_def)
qed

text \<open>
  C7: \<^verbatim>\<open>read_exec\<close> on a listing whose lines are all covered returns the address of the last
  \<^verbatim>\<open>_start\<close> symbol, or terminates if there is none; the memory then holds the bytes of the
  lines, later lines overwriting earlier ones, and the table holds the text of every
  instruction. A line is covered (\<^term>\<open>item_ok\<close>) if it is

    \<^item> a row of one to four groups of bytes, the first ones of four bytes, and only a row of
      four groups may be followed by the column of characters;
    \<^item> an instruction at an aligned address from 0 to \<^term>\<open>ADDR_LIMIT\<close> whose operands have
      at most eight characters and whose three texts fit the widths of the format;
    \<^item> a symbol of less than 35 characters, closing characters included;
    \<^item> a line that does not begin with a hexadecimal number.

  The two limits on lengths are those of \<^verbatim>\<open>hexes\<close>, which the first \<^verbatim>\<open>sscanf\<close> fills
  without widths, whatever the line is: \<open>long_operands_overflow\<close> shows the undefined
  behaviour behind the limit on operands. The listings that come with the program have lines
  beyond these limits (\<^verbatim>\<open>addi sp,sp,-16\<close> has an operand text of nine characters, and the
  last string of \<^verbatim>\<open>Contents of section .riscv.attributes:\<close> has eighteen), and rows with a
  column of characters behind less than four groups; they are not covered.
\<close>

theorem read_exec_loads_listing:
  assumes "\<forall>it \<in> set its. item_ok it" and "asm_ok as"
    and "im = fold item_effect its \<lparr>im_bytes = byte_at mem, im_texts = asm_map as, im_start = - 1\<rparr>"
  shows "if im_start im = - 1
    then read_exec (Some (listing (map show_item its))) mem as = Inl Exit_failure
    else \<exists>mem' as'. read_exec (Some (listing (map show_item its))) mem as = Inr (im_start im, mem', as') \<and>
      byte_at mem' = im_bytes im \<and> asm_map as' = im_texts im"
  using assms by (rule read_exec_listing)

theorem read_exec_loads_listing_witness:
  "let its = [Symbol 0x10074 ''_start>:'', Insn 0x10074 0x73 [''ecall''], Skipped [],
         Data 0x11000 [[1, 2, 3, 4], [5, 6, 7, 8], [9, 10, 11, 12], [13]] '' abcd'', Data 0x11010 [[1, 2]] []];
       im = fold item_effect its
         \<lparr>im_bytes = byte_at memory_create, im_texts = asm_map assembly_create, im_start = - 1\<rparr>
   in if im_start im = - 1
      then read_exec (Some (listing (map show_item its))) memory_create assembly_create = Inl Exit_failure
      else \<exists>mem' as'. read_exec (Some (listing (map show_item its))) memory_create assembly_create =
          Inr (im_start im, mem', as') \<and> byte_at mem' = im_bytes im \<and> asm_map as' = im_texts im"
  unfolding Let_def
  by (rule read_exec_loads_listing)
    (simp_all add: assembly_create_ok token_def isspace_def texts_ok_def ADDR_LIMIT_def plain_line_def scan_x_def)

text \<open>
  A data line of up to four groups of bytes stores exactly these bytes at consecutive
  addresses, wrapping around at 2^32, and changes no other byte, text or start address.
\<close>

theorem data_line_stores_bytes:
  assumes "grouped gs" and "length gs \<le> 4"
  shows "\<exists>mem. load_line (data_line addr gs) ld = Inr (ld\<lparr>ld_mem := mem\<rparr>) \<and>
    byte_at mem = put_bytes (concat gs) addr (byte_at (ld_mem ld)) \<and>
    (\<forall>i<length (concat gs). byte_at mem (addr + of_nat i) = concat gs ! i) \<and>
    (\<forall>b. (\<forall>i<length (concat gs). b \<noteq> addr + of_nat i) \<longrightarrow> byte_at mem b = byte_at (ld_mem ld) b)"
  using assms by (rule load_data_line)

theorem data_line_stores_bytes_witness:
  "\<forall>ld. \<exists>mem. load_line (data_line 0xFFFFFFFE [[1, 2, 3, 4], [5]]) ld = Inr (ld\<lparr>ld_mem := mem\<rparr>) \<and>
    byte_at mem = put_bytes (concat [[1, 2, 3, 4], [5]]) 0xFFFFFFFE (byte_at (ld_mem ld)) \<and>
    (\<forall>i<length (concat [[1, 2, 3, 4], [5 :: byte]]).
       byte_at mem (0xFFFFFFFE + of_nat i) = concat [[1, 2, 3, 4], [5]] ! i) \<and>
    (\<forall>b. (\<forall>i<length (concat [[1, 2, 3, 4], [5 :: byte]]). b \<noteq> 0xFFFFFFFE + of_nat i) \<longrightarrow>
       byte_at mem b = byte_at (ld_mem ld) b)"
  by (intro allI data_line_stores_bytes) simp_all

text \<open>
  An instruction line whose operands are longer than eight characters overflows the
  last row of the buffers that the attempt to read it as data fills.
\<close>

theorem long_operands_overflow:
  assumes "texts_ok texts" and "1 < length texts" "8 < length (texts ! 1)"
  shows "load_line (insn_line addr w texts) ld = Inl Undefined_behaviour"
  using assms by (rule load_insn_line_overflow)

theorem long_operands_overflow_witness:
  "\<forall>ld. load_line (insn_line 0x10074 0xfe010113 [''addi'', ''sp,sp,-32'']) ld = Inl Undefined_behaviour"
  by (intro allI long_operands_overflow) (simp_all add: texts_ok_def token_def isspace_def less_Suc_eq numeral_2_eq_2)

text \<open>
  C38: \<^verbatim>\<open>pass_args_to_program\<close> lays the arguments out as documented: the count at
  0x1000000, then one pointer per argument (starting with the separator itself), then
  the strings, zero-terminated and in order; it returns the position of the separator.
\<close>

theorem argument_block_layout:
  assumes "argv = p # opts @ ''--'' # args" and "''--'' \<notin> set opts"
    and "4 + 4 * length (''--'' # args) + size_of (''--'' # args) \<le> BLOCK"
    and "n = length (''--'' # args)"
  shows "\<exists>mem'. pass_args_to_program mem argv = Inr (1 + length opts, mem') \<and>
    word_at mem' (off 0) = of_nat n \<and>
    (\<forall>j<n. word_at mem' (off (4 * (1 + j))) = off (4 + 4 * n + size_of (take j (''--'' # args))) \<and>
      string_in mem' (4 + 4 * n + size_of (take j (''--'' # args))) ((''--'' # args) ! j))"
  using pass_args_effect [OF assms(1-3)] assms(4) by blast

theorem argument_block_layout_witness:
  "\<exists>mem'. pass_args_to_program memory_create [''sim'', ''fib.dis'', ''--'', ''7''] = Inr (1 + length [''fib.dis''], mem') \<and>
    word_at mem' (off 0) = of_nat 2 \<and>
    (\<forall>j<2. word_at mem' (off (4 * (1 + j))) = off (4 + 4 * 2 + size_of (take j (''--'' # [''7'']))) \<and>
      string_in mem' (4 + 4 * 2 + size_of (take j (''--'' # [''7'']))) ((''--'' # [''7'']) ! j))"
  by (rule argument_block_layout) (simp_all add: BLOCK_def)

end
