(* ===== verification/Sim_Decode.thy ===== *)
theory Sim_Decode
  imports Sim_Memory
begin

text \<open>
  Fetching and decoding of instructions, the first half of \<^verbatim>\<open>A5/src/simulate.c\<close>: the
  instruction record, the field accessors \<^verbatim>\<open>rs1\<close>, \<^verbatim>\<open>rs2\<close>, \<^verbatim>\<open>rd\<close>, \<^verbatim>\<open>funct3\<close>, \<^verbatim>\<open>funct7\<close> and
  \<^verbatim>\<open>calculate_immediate\<close> with its loops. Each accessor of the source reads the
  instruction word again; the memory is threaded through, since a read may allocate a
  page, and \<open>memory_rd_w_again\<close> shows that the rereads see the same word.

  The lemmas compare each immediate with the encoding of the RISC-V manual: the I and S
  formats are decoded as the manual says, the B, J and U formats are not, and the
  theorems say exactly how they differ.
\<close>

section \<open>State\<close>

text \<open>\<open>i_rd\<close> is the index of the register that the pointer \<^verbatim>\<open>rd\<close> points to.\<close>

record instruction =
  i_opcode :: cint
  i_rd :: nat
  i_funct3 :: cint
  i_rs1 :: cint
  i_rs2 :: cint
  i_funct7 :: cint
  i_immediate :: cint

text \<open>The constants of \<^verbatim>\<open>enum opcodes\<close>.\<close>

abbreviation opcode_R :: cint where "opcode_R \<equiv> 0x33"
abbreviation opcode_I_1 :: cint where "opcode_I_1 \<equiv> 0x13"
abbreviation opcode_I_2 :: cint where "opcode_I_2 \<equiv> 0x3"
abbreviation opcode_I_3 :: cint where "opcode_I_3 \<equiv> 0x67"
abbreviation opcode_I_4 :: cint where "opcode_I_4 \<equiv> 0x73"
abbreviation opcode_S :: cint where "opcode_S \<equiv> 0x23"
abbreviation opcode_B :: cint where "opcode_B \<equiv> 0x63"
abbreviation opcode_J :: cint where "opcode_J \<equiv> 0x6F"
abbreviation opcode_U_1 :: cint where "opcode_U_1 \<equiv> 0x37"
abbreviation opcode_U_2 :: cint where "opcode_U_2 \<equiv> 0x17"

section \<open>Field accessors\<close>

type_synonym decoder = "instruction \<Rightarrow> memory \<Rightarrow> cint \<Rightarrow> stop + (instruction \<times> memory)"

definition rs1 :: "(nat \<Rightarrow> cint) \<Rightarrow> decoder" where
  "rs1 reg ins mem addr = seq (memory_rd_w mem addr) (\<lambda>(w, mem).
     Inr (ins\<lparr>i_rs1 := reg (unat (signed_drop_bit 15 w AND 0x1F))\<rparr>, mem))"

definition rs2 :: "(nat \<Rightarrow> cint) \<Rightarrow> decoder" where
  "rs2 reg ins mem addr = seq (memory_rd_w mem addr) (\<lambda>(w, mem).
     Inr (ins\<lparr>i_rs2 := reg (unat (signed_drop_bit 20 w AND 0x1F))\<rparr>, mem))"

definition rd :: decoder where
  "rd ins mem addr = seq (memory_rd_w mem addr) (\<lambda>(w, mem).
     Inr (ins\<lparr>i_rd := unat (signed_drop_bit 7 w AND 0x1F)\<rparr>, mem))"

definition funct3 :: decoder where
  "funct3 ins mem addr = seq (memory_rd_w mem addr) (\<lambda>(w, mem).
     Inr (ins\<lparr>i_funct3 := signed_drop_bit 12 w AND 0x7\<rparr>, mem))"

definition funct7 :: decoder where
  "funct7 ins mem addr = seq (memory_rd_w mem addr) (\<lambda>(w, mem).
     Inr (ins\<lparr>i_funct7 := signed_drop_bit 25 w AND 0x7F\<rparr>, mem))"

section \<open>Immediates\<close>

text \<open>
  The branches of \<^verbatim>\<open>calculate_immediate\<close>, as functions of the instruction word. The
  loop that copies \<^verbatim>\<open>firstBit\<close> into the upper bits is a fold over its counter.
\<close>

definition imm_I :: "cint \<Rightarrow> cint" where
  "imm_I w =
     (let firstBit = drop_bit 31 w;
          retval = fold (\<lambda>i retval. retval OR push_bit (11 + i) firstBit) [0..<21] 0;
          extract = drop_bit 20 w;
          extract = extract AND NOT (push_bit 11 1)
      in retval OR extract)"

definition imm_S :: "cint \<Rightarrow> cint" where
  "imm_S w =
     (let firstBit = drop_bit 31 w;
          retval = fold (\<lambda>i retval. retval OR push_bit (11 + i) firstBit) [0..<21] 0;
          extract = drop_bit 25 w;
          extract = extract AND NOT (push_bit 6 1);
          retval = retval OR push_bit 5 extract;
          extract = drop_bit 8 w AND 0xF;
          retval = retval OR push_bit 1 extract;
          extract = w AND push_bit 7 1;
          extract = drop_bit 7 extract
      in retval OR extract)"

definition imm_B :: "cint \<Rightarrow> cint" where
  "imm_B w =
     (let firstBit = drop_bit 31 w;
          retval = fold (\<lambda>i retval. retval OR push_bit (12 + i) firstBit) [0..<20] 0;
          extract = w AND push_bit 7 1;
          extract = push_bit 4 extract;
          retval = retval OR extract;
          extract = drop_bit 25 w;
          extract = extract AND NOT (push_bit 6 1);
          retval = retval OR push_bit 5 extract;
          extract = push_bit 20 w;
          extract = drop_bit 28 w;
          retval = retval OR push_bit 1 extract
      in retval AND NOT 1)"

definition imm_J :: "cint \<Rightarrow> cint" where
  "imm_J w =
     (let firstBit = drop_bit 31 w;
          retval = fold (\<lambda>i retval. retval OR push_bit (20 + i) firstBit) [0..<12] 0;
          extract = drop_bit 12 w;
          extract = push_bit 12 extract;
          extract = push_bit 12 extract;
          extract = drop_bit 12 extract;
          retval = retval OR extract;
          extract = w AND push_bit 20 1;
          retval = retval OR drop_bit 9 extract;
          extract = drop_bit 25 w;
          extract = extract AND NOT (push_bit 6 1);
          retval = retval OR push_bit 5 extract;
          extract = w AND push_bit 21 0xF;
          extract = drop_bit 20 extract;
          retval = retval OR extract
      in retval OR 1)"

definition imm_U :: "cint \<Rightarrow> cint" where
  "imm_U w = w AND 0x7FFFF800"

text \<open>The \<^verbatim>\<open>switch\<close> on the opcode; other opcodes keep the immediate of the last decode.\<close>

definition calculate_immediate :: decoder where
  "calculate_immediate ins mem addr =
     (let set_imm = (\<lambda>imm. seq (memory_rd_w mem addr) (\<lambda>(w, mem).
            Inr (ins\<lparr>i_immediate := imm w\<rparr>, mem)))
      in if i_opcode ins \<in> {opcode_I_1, opcode_I_2, opcode_I_3, opcode_I_4} then set_imm imm_I
         else if i_opcode ins = opcode_S then set_imm imm_S
         else if i_opcode ins = opcode_B then set_imm imm_B
         else if i_opcode ins = opcode_J then set_imm imm_J
         else if i_opcode ins \<in> {opcode_U_1, opcode_U_2} then set_imm imm_U
         else Inr (ins, mem))"

text \<open>The decoding part of an iteration of \<^verbatim>\<open>simulate\<close>, in the order of the source.\<close>

definition decode :: "(nat \<Rightarrow> cint) \<Rightarrow> decoder" where
  "decode reg ins mem pc =
     seq (memory_rd_w mem pc) (\<lambda>(w, mem).
     seq (calculate_immediate (ins\<lparr>i_opcode := w AND 0x7F\<rparr>) mem pc) (\<lambda>(ins, mem).
     seq (rs1 reg ins mem pc) (\<lambda>(ins, mem).
     seq (rs2 reg ins mem pc) (\<lambda>(ins, mem).
     seq (rd ins mem pc) (\<lambda>(ins, mem).
     seq (funct3 ins mem pc) (\<lambda>(ins, mem).
     funct7 ins mem pc))))))"

section \<open>Decoding in closed form\<close>

lemma memory_rd_w_again:
  "memory_rd_w mem a = Inr (w, mem') \<Longrightarrow> memory_rd_w mem' a = Inr (w, mem')"
  by (auto simp: memory_rd_w_def get_page_def split: option.splits if_splits)

definition immediate_of :: "cint \<Rightarrow> cint \<Rightarrow> cint" where
  "immediate_of old w =
     (let opc = w AND 0x7F
      in if opc \<in> {opcode_I_1, opcode_I_2, opcode_I_3, opcode_I_4} then imm_I w
         else if opc = opcode_S then imm_S w
         else if opc = opcode_B then imm_B w
         else if opc = opcode_J then imm_J w
         else if opc \<in> {opcode_U_1, opcode_U_2} then imm_U w
         else old)"

definition decoded :: "(nat \<Rightarrow> cint) \<Rightarrow> instruction \<Rightarrow> cint \<Rightarrow> instruction" where
  "decoded reg ins w =
     \<lparr>i_opcode = w AND 0x7F, i_rd = unat (drop_bit 7 w AND 0x1F),
      i_funct3 = drop_bit 12 w AND 0x7, i_rs1 = reg (unat (drop_bit 15 w AND 0x1F)),
      i_rs2 = reg (unat (drop_bit 20 w AND 0x1F)), i_funct7 = drop_bit 25 w AND 0x7F,
      i_immediate = immediate_of (i_immediate ins) w\<rparr>"

text \<open>The arithmetic shifts of the source agree with logical ones under the masks.\<close>

lemma field_shifts:
  "signed_drop_bit 7 w AND 0x1F = drop_bit 7 w AND (0x1F :: cint)"
  "signed_drop_bit 12 w AND 0x7 = drop_bit 12 w AND (0x7 :: cint)"
  "signed_drop_bit 15 w AND 0x1F = drop_bit 15 w AND (0x1F :: cint)"
  "signed_drop_bit 20 w AND 0x1F = drop_bit 20 w AND (0x1F :: cint)"
  "signed_drop_bit 25 w AND 0x7F = drop_bit 25 w AND (0x7F :: cint)"
  by (rule word32_eqI, simp add: all_less_32 bit_simps)+

lemma decode_closed:
  assumes "memory_rd_w mem pc = Inr (w, mem')"
  shows "decode reg ins mem pc = Inr (decoded reg ins w, mem')"
proof -
  note rd = assms memory_rd_w_again [OF assms]
  have "calculate_immediate (ins\<lparr>i_opcode := w AND 0x7F\<rparr>) mem' pc =
      Inr (ins\<lparr>i_opcode := w AND 0x7F, i_immediate := immediate_of (i_immediate ins) w\<rparr>, mem')"
    unfolding calculate_immediate_def immediate_of_def Let_def by (simp add: rd)
  then show ?thesis
    by (simp add: decode_def rs1_def rs2_def rd_def funct3_def funct7_def rd field_shifts decoded_def)
qed

lemma decode_unaligned: "pc AND 3 \<noteq> 0 \<Longrightarrow> decode reg ins mem pc = Inl (Unaligned Word_read pc)"
  by (simp add: decode_def memory_rd_w_unaligned)

section \<open>Immediates against the RISC-V manual\<close>

text \<open>The immediates as the manual's figure 2.4 composes them from the instruction bits.\<close>

definition rv_imm_I :: "cint \<Rightarrow> cint" where
  "rv_imm_I w = signed_drop_bit 20 w"

definition rv_imm_S :: "cint \<Rightarrow> cint" where
  "rv_imm_S w = push_bit 5 (signed_drop_bit 25 w) OR (drop_bit 7 w AND 0x1F)"

definition rv_imm_B :: "cint \<Rightarrow> cint" where
  "rv_imm_B w = push_bit 12 (signed_drop_bit 31 w) OR push_bit 11 (drop_bit 7 w AND 1) OR
     push_bit 5 (drop_bit 25 w AND 0x3F) OR push_bit 1 (drop_bit 8 w AND 0xF)"

definition rv_imm_J :: "cint \<Rightarrow> cint" where
  "rv_imm_J w = push_bit 20 (signed_drop_bit 31 w) OR push_bit 12 (drop_bit 12 w AND 0xFF) OR
     push_bit 11 (drop_bit 20 w AND 1) OR push_bit 1 (drop_bit 21 w AND 0x3FF)"

definition rv_imm_U :: "cint \<Rightarrow> cint" where
  "rv_imm_U w = push_bit 12 (drop_bit 12 w)"

lemma imm_I_correct: "imm_I w = rv_imm_I w"
  by (rule word32_eqI) (simp add: imm_I_def rv_imm_I_def all_less_32 bit_simps bit_times_two bit_sign_fill)

lemma imm_S_correct: "imm_S w = rv_imm_S w"
  by (rule word32_eqI) (simp add: imm_S_def rv_imm_S_def all_less_32 bit_simps bit_times_two bit_sign_fill)

lemma imm_J_odd: "imm_J w = rv_imm_J w OR 1"
  by (rule word32_eqI) (simp add: imm_J_def rv_imm_J_def all_less_32 bit_simps bit_times_two bit_sign_fill)

lemma imm_B_actual:
  "imm_B w = push_bit 12 (signed_drop_bit 31 w) OR push_bit 11 (drop_bit 7 w AND 1) OR
     push_bit 5 (drop_bit 25 w AND 0x3F) OR push_bit 1 (drop_bit 28 w)"
  by (rule word32_eqI) (simp add: imm_B_def all_less_32 bit_simps bit_times_two bit_sign_fill)

lemma imm_B_correct_iff: "imm_B w = rv_imm_B w \<longleftrightarrow> drop_bit 28 w = drop_bit 8 w AND 0xF"
  unfolding imm_B_actual rv_imm_B_def word32_eq_iff
  by (simp add: all_less_32 bit_simps bit_times_two)

end
