(* ===== verification/Sim_Exec.thy ===== *)
theory Sim_Exec
  imports Sim_Decode "HOL-Library.Signed_Division"
begin

text \<open>
  Execution, the second half of \<^verbatim>\<open>A5/src/simulate.c\<close>: the \<^verbatim>\<open>switch\<close> of \<^verbatim>\<open>simulate\<close> split
  by opcode, one iteration of its \<^verbatim>\<open>while (1)\<close> loop (\<open>sim_step\<close>) and the loop itself.
  The conditions are tested in the order of the source, so that a branch the source
  cannot reach is not reached here either. Signed arithmetic wraps around; a shift by a
  count outside 0..31, a division by zero and the overflow of \<^verbatim>\<open>INT_MIN / -1\<close> are
  \<open>Undefined_behaviour\<close>.

  The lemmas give the instruction set's meaning of each instruction (\<open>rv_R\<close>, \<open>rv_I\<close>) and
  compare the simulator with it, describe branches, loads, stores and jumps, and show
  which instructions make the loop spin forever.
\<close>

section \<open>State\<close>

record sim =
  reg :: "nat \<Rightarrow> cint"
  PC :: cint
  mem :: memory
  ins :: instruction

text \<open>\<^verbatim>\<open>*ins.rd = insertdata;\<close>, \<^verbatim>\<open>increment_PC(&PC);\<close> and the two together.\<close>

definition increment_PC :: "cint \<Rightarrow> cint" where
  "increment_PC data = data + 4"

definition set_rd :: "sim \<Rightarrow> cint \<Rightarrow> sim" where
  "set_rd s insertdata = s\<lparr>reg := (reg s)(i_rd (ins s) := insertdata)\<rparr>"

definition next_insn :: "sim \<Rightarrow> sim" where
  "next_insn s = s\<lparr>PC := increment_PC (PC s)\<rparr>"

definition result_next :: "sim \<Rightarrow> cint \<Rightarrow> stop + sim" where
  "result_next s insertdata = Inr (next_insn (set_rd s insertdata))"

section \<open>Expressions of the source\<close>

definition c_bool :: "bool \<Rightarrow> cint" where
  "c_bool b = (if b then 1 else 0)"

text \<open>The \<^verbatim>\<open>int\<close> operators \<^verbatim>\<open>/\<close> and \<^verbatim>\<open>%\<close> truncate towards zero.\<close>

definition c_div :: "cint \<Rightarrow> cint \<Rightarrow> stop + cint" where
  "c_div a b =
     (if b = 0 \<or> (a = 0x80000000 \<and> b = 0xFFFFFFFF) then Inl Undefined_behaviour
      else Inr (word_of_int (sint a sdiv sint b)))"

definition c_rem :: "cint \<Rightarrow> cint \<Rightarrow> stop + cint" where
  "c_rem a b =
     (if b = 0 \<or> (a = 0x80000000 \<and> b = 0xFFFFFFFF) then Inl Undefined_behaviour
      else Inr (word_of_int (sint a smod sint b)))"

definition c_udiv :: "cint \<Rightarrow> cint \<Rightarrow> stop + cint" where
  "c_udiv a b = (if b = 0 then Inl Undefined_behaviour else Inr (a div b))"

definition c_umod :: "cint \<Rightarrow> cint \<Rightarrow> stop + cint" where
  "c_umod a b = (if b = 0 then Inl Undefined_behaviour else Inr (a mod b))"

definition c_shl :: "cint \<Rightarrow> cint \<Rightarrow> stop + cint" where
  "c_shl a n = (if 32 \<le> unat n then Inl Undefined_behaviour else Inr (push_bit (unat n) a))"

definition c_shr :: "cint \<Rightarrow> cint \<Rightarrow> stop + cint" where
  "c_shr a n = (if 32 \<le> unat n then Inl Undefined_behaviour else Inr (drop_bit (unat n) a))"

definition c_sar :: "cint \<Rightarrow> cint \<Rightarrow> stop + cint" where
  "c_sar a n = (if 32 \<le> unat n then Inl Undefined_behaviour else Inr (signed_drop_bit (unat n) a))"

text \<open>
  The three high multiplications. Only \<^verbatim>\<open>mulh\<close> widens its operands; in the two others the
  product of the 32-bit operands is converted to 64 bits after it was computed.
\<close>

definition mulh_high :: "cint \<Rightarrow> cint \<Rightarrow> cint" where
  "mulh_high a b =
     (let temp = (scast a :: 64 word) * scast b in ucast (signed_drop_bit 32 temp))"

definition mulsu_high :: "cint \<Rightarrow> cint \<Rightarrow> cint" where
  "mulsu_high a b = (let tempo = (ucast (a * b) :: 64 word) in ucast (signed_drop_bit 32 tempo))"

definition mulu_high :: "cint \<Rightarrow> cint \<Rightarrow> cint" where
  "mulu_high a b = (let tempo = (ucast (a * b) :: 64 word) in ucast (drop_bit 32 tempo))"

section \<open>The switch, opcode by opcode\<close>

text \<open>\<^verbatim>\<open>case opcode_R\<close>; falling through every test leaves the state unchanged.\<close>

definition exec_R :: "sim \<Rightarrow> stop + sim" where
  "exec_R s =
     (let a = i_rs1 (ins s); b = i_rs2 (ins s); f7 = i_funct7 (ins s); f3 = i_funct3 (ins s)
      in if f3 = 0x0 then
           (if f7 = 0x00 then result_next s (a + b)
            else if f7 = 0x20 then result_next s (a - b)
            else if f7 = 0x01 then result_next s (a * b)
            else Inr s)
         else if f3 = 0x2 then
           (if f7 = 0x01 then result_next s (mulsu_high a b)
            else if f7 = 0x01 then result_next s (c_bool (a <s b))
            else Inr s)
         else if f3 = 0x4 then
           (if f7 = 0x00 then result_next s (a XOR b)
            else if f7 = 0x01 then
              (if b \<noteq> 0 then seq (c_div a b) (result_next s) else Inr s)
            else Inr s)
         else if f3 = 0x6 then
           (if f7 = 0x00 then result_next s (a OR b)
            else if f7 = 0x00 then seq (c_rem a b) (result_next s)
            else Inr s)
         else if f3 = 0x7 then
           (if f7 = 0x00 then result_next s (a AND b)
            else if f7 = 0x01 then seq (c_umod a b) (result_next s)
            else Inr s)
         else if f3 = 0x1 then
           (if f7 = 0x00 then seq (c_shl a b) (result_next s)
            else if f7 = 0x01 then result_next s (mulh_high a b)
            else Inr s)
         else if f3 = 0x5 then
           (if f7 = 0x00 then seq (c_shr a b) (result_next s)
            else if f7 = 0x5 then seq (c_sar a b) (result_next s)
            else if f7 = 0x01 then
              (if b \<noteq> 0 then seq (c_udiv a b) (result_next s) else Inr s)
            else Inr s)
         else if f3 = 0x3 then
           (if f7 = 0x01 then result_next s (mulu_high a b)
            else if f7 = 0x0 then result_next s (c_bool (a < b))
            else Inr s)
         else Inr s)"

definition exec_I_1 :: "sim \<Rightarrow> stop + sim" where
  "exec_I_1 s =
     (let a = i_rs1 (ins s); imm = i_immediate (ins s); f3 = i_funct3 (ins s);
          top = signed_drop_bit 5 imm AND 0x7F
      in if f3 = 0x0 then result_next s (a + imm)
         else if f3 = 0x4 then result_next s (a XOR imm)
         else if f3 = 0x6 then result_next s (a OR imm)
         else if f3 = 0x7 then result_next s (a AND imm)
         else if f3 = 0x1 then
           (if top = 0x00 then seq (c_shl a (imm AND 0xF)) (result_next s) else Inr s)
         else if f3 = 0x5 then
           (if top = 0x00 then seq (c_shr a (imm AND 0xF)) (result_next s)
            else if top = 0x02 then seq (c_sar a (imm AND 0xF)) (result_next s)
            else Inr s)
         else if f3 = 0x2 then result_next s (c_bool (a <s imm))
         else if f3 = 0x3 then result_next s (c_bool (a < imm))
         else Inr s)"

text \<open>Loads: the address is relative to the program counter in the source.\<close>

definition exec_I_2 :: "sim \<Rightarrow> stop + sim" where
  "exec_I_2 s =
     (let addr = PC s + i_rs1 (ins s) + i_immediate (ins s);
          addru = PC s + (i_rs1 (ins s) + i_immediate (ins s));
          f3 = i_funct3 (ins s);
          load = (\<lambda>(v, m). result_next (s\<lparr>mem := m\<rparr>) v)
      in if f3 = 0x0 then load (memory_rd_b (mem s) addr)
         else if f3 = 0x1 then seq (memory_rd_h (mem s) addr) load
         else if f3 = 0x2 then seq (memory_rd_w (mem s) addr) load
         else if f3 = 0x4 then load (memory_rd_b (mem s) addru)
         else if f3 = 0x5 then seq (memory_rd_h (mem s) addru) load
         else Inr s)"

definition exec_S :: "sim \<Rightarrow> stop + sim" where
  "exec_S s =
     (let addr = PC s + i_rs1 (ins s) + i_immediate (ins s); d = i_rs2 (ins s);
          f3 = i_funct3 (ins s);
          stored = (\<lambda>m. Inr (next_insn (s\<lparr>mem := m\<rparr>)))
      in if f3 = 0x0 then stored (memory_wr_b (mem s) addr d)
         else if f3 = 0x1 then seq (memory_wr_h (mem s) addr d) stored
         else if f3 = 0x2 then seq (memory_wr_w (mem s) addr d) stored
         else Inr s)"

definition branch :: "bool \<Rightarrow> sim \<Rightarrow> stop + sim" where
  "branch taken s =
     (if taken then Inr (s\<lparr>PC := PC s + i_immediate (ins s)\<rparr>) else Inr (next_insn s))"

definition exec_B :: "sim \<Rightarrow> stop + sim" where
  "exec_B s =
     (let a = i_rs1 (ins s); b = i_rs2 (ins s); f3 = i_funct3 (ins s)
      in if f3 = 0x0 then branch (a = b) s
         else if f3 = 0x1 then branch (a \<noteq> b) s
         else if f3 = 0x4 then branch (a <s b) s
         else if f3 = 0x5 then branch (b \<le>s a) s
         else if f3 = 0x6 then branch (a < b) s
         else if f3 = 0x7 then branch (b \<le> a) s
         else Inr s)"

definition exec_J :: "sim \<Rightarrow> stop + sim" where
  "exec_J s =
     (let s = set_rd s (PC s + 4) in Inr (s\<lparr>PC := PC s + i_immediate (ins s)\<rparr>))"

definition exec_I_3 :: "sim \<Rightarrow> stop + sim" where
  "exec_I_3 s =
     (if i_funct3 (ins s) = 0x0 then
        (let temprsi = i_rs1 (ins s); insertdata = PC s + 4;
             s = s\<lparr>PC := temprsi + i_immediate (ins s)\<rparr>
         in Inr (set_rd s insertdata))
      else Inr s)"

definition exec_U_1 :: "sim \<Rightarrow> stop + sim" where
  "exec_U_1 s = result_next s (push_bit 12 (i_immediate (ins s)))"

definition exec_U_2 :: "sim \<Rightarrow> stop + sim" where
  "exec_U_2 s =
     (if i_funct3 (ins s) = 0x0
      then result_next s (PC s + push_bit 12 (i_immediate (ins s))) else Inr s)"

definition exec_I_4 :: "sim \<Rightarrow> stop + sim" where
  "exec_I_4 s =
     (if i_funct3 (ins s) = 0x0 \<and> i_immediate (ins s) = 0x0 then Inl Exit_success else Inr s)"

definition exec :: "sim \<Rightarrow> stop + sim" where
  "exec s =
     (let opc = i_opcode (ins s)
      in if opc = opcode_R then exec_R s
         else if opc = opcode_I_1 then exec_I_1 s
         else if opc = opcode_I_2 then exec_I_2 s
         else if opc = opcode_S then exec_S s
         else if opc = opcode_B then exec_B s
         else if opc = opcode_J then exec_J s
         else if opc = opcode_I_3 then exec_I_3 s
         else if opc = opcode_U_1 then exec_U_1 s
         else if opc = opcode_U_2 then exec_U_2 s
         else if opc = opcode_I_4 then exec_I_4 s
         else Inr s)"

section \<open>The loop\<close>

definition sim_step :: "sim \<Rightarrow> stop + sim" where
  "sim_step s = seq (decode (reg s) (ins s) (mem s) (PC s))
     (\<lambda>(i, m). exec (s\<lparr>ins := i, mem := m\<rparr>))"

text \<open>
  \<open>None\<close> is the loop that never leaves; otherwise the way the process ended. The fuel
  version runs a given number of iterations.
\<close>

partial_function (option) simulate :: "sim \<Rightarrow> stop option" where
  "simulate s = (case sim_step s of Inl e \<Rightarrow> Some e | Inr s' \<Rightarrow> simulate s')"

primrec run :: "nat \<Rightarrow> sim \<Rightarrow> stop + sim" where
  "run 0 s = Inr s"
| "run (Suc n) s = seq (sim_step s) (run n)"

text \<open>The state in which \<^verbatim>\<open>main\<close> calls \<^verbatim>\<open>simulate\<close>; \<open>reg\<close> is a zeroed global.\<close>

definition sim_init :: "memory \<Rightarrow> cint \<Rightarrow> instruction \<Rightarrow> sim" where
  "sim_init m start_addr garbage = \<lparr>reg = (\<lambda>_. 0), PC = start_addr, mem = m, ins = garbage\<rparr>"

section \<open>The loop and its finite runs\<close>

lemma run_Suc_right: "run (Suc n) s = seq (run n s) sim_step"
proof (induction n arbitrary: s)
  case 0
  show ?case by (cases "sim_step s") simp_all
next
  case (Suc n)
  show ?case using Suc.IH by (cases "sim_step s") simp_all
qed

lemma simulate_run: "run n s = Inl e \<Longrightarrow> simulate s = Some e"
proof (induction n arbitrary: s)
  case (Suc n)
  then show ?case by (cases "sim_step s") (simp_all add: simulate.simps [of s])
qed simp

lemma run_of_simulate:
  assumes "simulate s = Some e"
  shows "\<exists>n. run n s = Inl e"
proof (rule simulate.raw_induct [where P = "\<lambda>s e. \<exists>n. run n s = Inl e", OF _ assms])
  fix f s e
  assume IH: "\<And>s e. f s = Some e \<Longrightarrow> \<exists>n. run n s = Inl e"
    and eq: "(case sim_step s of Inl e \<Rightarrow> Some e | Inr s' \<Rightarrow> f s') = Some e"
  show "\<exists>n. run n s = Inl e"
  proof (cases "sim_step s")
    case (Inl e')
    then have "run 1 s = Inl e" using eq by simp
    then show ?thesis by blast
  next
    case (Inr s')
    then obtain n where "run n s' = Inl e" using eq IH by auto
    then have "run (Suc n) s = Inl e" using Inr by simp
    then show ?thesis by blast
  qed
qed

lemma simulate_spins:
  assumes "sim_step s = Inr s'" and "sim_step s' = Inr s'"
  shows "simulate s = None"
proof -
  have "run n s' = Inr s'" for n by (induction n) (simp_all add: assms(2))
  then have "simulate s' = None"
    by (metis Inl_Inr_False not_Some_eq run_of_simulate)
  then show ?thesis by (simp add: simulate.simps [of s] assms(1))
qed

section \<open>One step in closed form\<close>

lemma sim_step_fetch:
  assumes "memory_rd_w (mem s) (PC s) = Inr (w, m)"
  shows "sim_step s = exec (s\<lparr>ins := decoded (reg s) (ins s) w, mem := m\<rparr>)"
  by (simp add: sim_step_def decode_closed [OF assms])

lemma sim_step_unaligned: "PC s AND 3 \<noteq> 0 \<Longrightarrow> sim_step s = Inl (Unaligned Word_read (PC s))"
  by (simp add: sim_step_def decode_unaligned)

lemma sim_step_aligned: "sim_step s = Inr s' \<Longrightarrow> PC s AND 3 = 0"
  using sim_step_unaligned [of s] by auto

lemma decoded_again: "decoded r (decoded r i w) w = decoded r i w"
  by (simp add: decoded_def immediate_of_def Let_def)

text \<open>
  A fetched instruction that execution leaves without any effect is fetched again and
  again: the program counter does not move.
\<close>

lemma no_effect_spins:
  assumes "memory_rd_w (mem s) (PC s) = Inr (w, m)"
    and "exec (s\<lparr>ins := decoded (reg s) (ins s) w, mem := m\<rparr>) =
      Inr (s\<lparr>ins := decoded (reg s) (ins s) w, mem := m\<rparr>)"
  shows "simulate s = None"
proof (rule simulate_spins)
  let ?s = "s\<lparr>ins := decoded (reg s) (ins s) w, mem := m\<rparr>"
  show "sim_step s = Inr ?s" using assms by (simp add: sim_step_fetch)
  show "sim_step ?s = Inr ?s"
    using sim_step_fetch [of ?s w m] memory_rd_w_again [OF assms(1)] assms(2)
    by (simp add: decoded_again)
qed

section \<open>The instructions that have no effect\<close>

text \<open>
  The encodings for which the \<^verbatim>\<open>switch\<close> falls through without writing a register or
  moving the program counter.
\<close>

definition unhandled_R :: "cint \<Rightarrow> cint \<Rightarrow> cint \<Rightarrow> bool" where
  "unhandled_R f3 f7 b \<longleftrightarrow>
     (f3 = 0x0 \<and> f7 \<notin> {0x00, 0x20, 0x01}) \<or> (f3 = 0x2 \<and> f7 \<noteq> 0x01) \<or>
     (f3 = 0x4 \<and> f7 \<notin> {0x00, 0x01}) \<or> (f3 = 0x4 \<and> f7 = 0x01 \<and> b = 0) \<or>
     (f3 = 0x6 \<and> f7 \<noteq> 0x00) \<or> (f3 = 0x7 \<and> f7 \<notin> {0x00, 0x01}) \<or>
     (f3 = 0x1 \<and> f7 \<notin> {0x00, 0x01}) \<or> (f3 = 0x5 \<and> f7 \<notin> {0x00, 0x05, 0x01}) \<or>
     (f3 = 0x5 \<and> f7 = 0x01 \<and> b = 0) \<or> (f3 = 0x3 \<and> f7 \<notin> {0x00, 0x01})"

definition unhandled :: "instruction \<Rightarrow> bool" where
  "unhandled i \<longleftrightarrow>
     (let opc = i_opcode i; f3 = i_funct3 i; top = signed_drop_bit 5 (i_immediate i) AND 0x7F
      in if opc = opcode_R then unhandled_R f3 (i_funct7 i) (i_rs2 i)
         else if opc = opcode_I_1 then
           (f3 = 0x1 \<and> top \<noteq> 0x00) \<or> (f3 = 0x5 \<and> top \<noteq> 0x00 \<and> top \<noteq> 0x02)
         else if opc = opcode_I_2 then f3 \<notin> {0x0, 0x1, 0x2, 0x4, 0x5}
         else if opc = opcode_S then f3 \<notin> {0x0, 0x1, 0x2}
         else if opc = opcode_B then f3 \<notin> {0x0, 0x1, 0x4, 0x5, 0x6, 0x7}
         else if opc = opcode_I_3 \<or> opc = opcode_U_2 then f3 \<noteq> 0x0
         else if opc = opcode_I_4 then \<not> (f3 = 0x0 \<and> i_immediate i = 0x0)
         else opc \<noteq> opcode_J \<and> opc \<noteq> opcode_U_1)"

lemma unhandled_exec:
  assumes "unhandled (ins s)"
  shows "exec s = Inr s"
proof -
  consider (R) "i_opcode (ins s) = opcode_R" | (I1) "i_opcode (ins s) = opcode_I_1"
    | (rest) "i_opcode (ins s) \<noteq> opcode_R" "i_opcode (ins s) \<noteq> opcode_I_1"
    by blast
  then show ?thesis
  proof cases
    case R
    then have "unhandled_R (i_funct3 (ins s)) (i_funct7 (ins s)) (i_rs2 (ins s))"
      using assms by (simp add: unhandled_def)
    then have "exec_R s = Inr s"
      unfolding unhandled_R_def by (elim disjE conjE) (simp_all add: exec_R_def Let_def)
    then show ?thesis using R by (simp add: exec_def)
  next
    case I1
    then show ?thesis using assms by (auto simp: unhandled_def exec_def exec_I_1_def Let_def)
  next
    case rest
    then show ?thesis
      using assms by (auto simp: unhandled_def exec_def exec_I_2_def exec_S_def exec_B_def
          exec_I_3_def exec_U_2_def exec_I_4_def Let_def split: if_splits)
  qed
qed

section \<open>The instruction set's meaning of the arithmetic instructions\<close>

text \<open>
  RV32IM as the manual defines it: shift counts are the low five bits, division by zero
  gives all ones, the remainder by zero is the dividend and the signed overflow case
  returns the dividend.
\<close>

definition rv_div :: "cint \<Rightarrow> cint \<Rightarrow> cint" where
  "rv_div a b = (if b = 0 then - 1 else word_of_int (sint a sdiv sint b))"

definition rv_rem :: "cint \<Rightarrow> cint \<Rightarrow> cint" where
  "rv_rem a b = (if b = 0 then a else word_of_int (sint a smod sint b))"

definition rv_mulh :: "cint \<Rightarrow> cint \<Rightarrow> cint" where
  "rv_mulh a b = word_of_int ((sint a * sint b) div 2 ^ 32)"

definition rv_mulhsu :: "cint \<Rightarrow> cint \<Rightarrow> cint" where
  "rv_mulhsu a b = word_of_int ((sint a * uint b) div 2 ^ 32)"

definition rv_mulhu :: "cint \<Rightarrow> cint \<Rightarrow> cint" where
  "rv_mulhu a b = word_of_int ((uint a * uint b) div 2 ^ 32)"

definition rv_base :: "cint \<Rightarrow> cint \<Rightarrow> cint \<Rightarrow> cint option" where
  "rv_base f3 a b =
     (if f3 = 0x0 then Some (a + b)
      else if f3 = 0x1 then Some (push_bit (unat (b AND 0x1F)) a)
      else if f3 = 0x2 then Some (c_bool (a <s b))
      else if f3 = 0x3 then Some (c_bool (a < b))
      else if f3 = 0x4 then Some (a XOR b)
      else if f3 = 0x5 then Some (drop_bit (unat (b AND 0x1F)) a)
      else if f3 = 0x6 then Some (a OR b)
      else if f3 = 0x7 then Some (a AND b) else None)"

definition rv_alt :: "cint \<Rightarrow> cint \<Rightarrow> cint \<Rightarrow> cint option" where
  "rv_alt f3 a b =
     (if f3 = 0x0 then Some (a - b)
      else if f3 = 0x5 then Some (signed_drop_bit (unat (b AND 0x1F)) a) else None)"

definition rv_M :: "cint \<Rightarrow> cint \<Rightarrow> cint \<Rightarrow> cint option" where
  "rv_M f3 a b =
     (if f3 = 0x0 then Some (a * b)
      else if f3 = 0x1 then Some (rv_mulh a b)
      else if f3 = 0x2 then Some (rv_mulhsu a b)
      else if f3 = 0x3 then Some (rv_mulhu a b)
      else if f3 = 0x4 then Some (rv_div a b)
      else if f3 = 0x5 then Some (if b = 0 then - 1 else a div b)
      else if f3 = 0x6 then Some (rv_rem a b)
      else if f3 = 0x7 then Some (if b = 0 then a else a mod b) else None)"

definition rv_R :: "cint \<Rightarrow> cint \<Rightarrow> cint \<Rightarrow> cint \<Rightarrow> cint option" where
  "rv_R f3 f7 a b =
     (if f7 = 0x00 then rv_base f3 a b
      else if f7 = 0x20 then rv_alt f3 a b
      else if f7 = 0x01 then rv_M f3 a b else None)"

text \<open>
  The register-register instructions the simulator carries out as the manual says, with
  the operands for which it does: shift counts below 32, divisors that are not zero and
  no overflowing division.
\<close>

definition faithful_R :: "cint \<Rightarrow> cint \<Rightarrow> cint \<Rightarrow> cint \<Rightarrow> bool" where
  "faithful_R f3 f7 a b \<longleftrightarrow>
     (f7 = 0x00 \<and> f3 \<in> {0x0, 0x3, 0x4, 0x6, 0x7}) \<or>
     (f7 = 0x00 \<and> f3 \<in> {0x1, 0x5} \<and> b < 32) \<or>
     (f7 = 0x20 \<and> f3 = 0x0) \<or>
     (f7 = 0x01 \<and> f3 \<in> {0x0, 0x1}) \<or>
     (f7 = 0x01 \<and> f3 = 0x4 \<and> b \<noteq> 0 \<and> \<not> (a = 0x80000000 \<and> b = 0xFFFFFFFF)) \<or>
     (f7 = 0x01 \<and> f3 \<in> {0x5, 0x7} \<and> b \<noteq> 0)"

lemma small_shift:
  assumes "b < 32"
  shows "b AND 0x1F = (b :: cint) \<and> \<not> 32 \<le> unat b"
proof -
  have lt: "unat b < 32" using assms by (simp add: word_less_nat_alt)
  then have "take_bit 5 (unat b) = unat b" by (intro take_bit_nat_eq_self) simp
  then have "unat (take_bit 5 b) = unat b" by (simp add: unsigned_take_bit_eq)
  then have "take_bit 5 b = b" by (simp add: word_unat_eq_iff)
  moreover have "b AND 0x1F = take_bit 5 b"
    by (rule word32_eqI) (simp add: all_less_32 bit_simps)
  ultimately show ?thesis using lt by simp
qed

lemma mulh_high_correct: "mulh_high a b = rv_mulh a b"
proof -
  define t :: "64 word" where "t = scast a * scast b"
  have bounds: "- (2 ^ 31) \<le> sint x \<and> sint x < 2 ^ 31" for x :: cint
    using sint_ge [of x] sint_lt [of x] by simp
  have "\<bar>sint a\<bar> \<le> 2 ^ 31" "\<bar>sint b\<bar> \<le> 2 ^ 31"
    using bounds [of a] bounds [of b] by linarith+
  then have "\<bar>sint a * sint b\<bar> \<le> 2 ^ 31 * 2 ^ 31"
    unfolding abs_mult by (rule mult_mono) simp_all
  then have "sint a * sint b \<le> 2 ^ 62" "- (sint a * sint b) \<le> 2 ^ 62"
    by (simp_all add: abs_le_iff)
  then have small: "- (2 ^ 63) \<le> sint a * sint b \<and> sint a * sint b < 2 ^ 63" by simp
  have "t = word_of_int (sint a * sint b)"
    unfolding t_def scast_eq by (simp only: wi_hom_mult)
  then have "sint t = signed_take_bit 63 (sint a * sint b)"
    by (simp only: sint_sbintrunc') simp
  then have "sint t = sint a * sint b"
    using small by (simp only: signed_take_bit_int_eq_self)
  then have "sint (signed_drop_bit 32 t) = (sint a * sint b) div 2 ^ 32"
    by (simp add: sint_signed_drop_bit_eq drop_bit_eq_div)
  moreover have "(ucast (signed_drop_bit 32 t) :: cint) = scast (signed_drop_bit 32 t)"
    by (rule word32_eqI) (simp add: bit_simps min_def)
  ultimately show ?thesis
    unfolding mulh_high_def rv_mulh_def t_def [symmetric] Let_def by (simp only: scast_eq)
qed

lemma high_products_vanish: "mulsu_high a b = 0" "mulu_high a b = 0"
proof -
  have "drop_bit 32 (ucast x :: 64 word) = 0" "signed_drop_bit 32 (ucast x :: 64 word) = 0"
    for x :: cint
    by (rule bit_word_eqI, simp add: bit_simps)+
  then show "mulsu_high a b = 0" "mulu_high a b = 0"
    by (simp_all add: mulsu_high_def mulu_high_def)
qed

lemma exec_R_faithful:
  assumes "faithful_R (i_funct3 (ins s)) (i_funct7 (ins s)) (i_rs1 (ins s)) (i_rs2 (ins s))"
  shows "\<exists>v. rv_R (i_funct3 (ins s)) (i_funct7 (ins s)) (i_rs1 (ins s)) (i_rs2 (ins s)) = Some v \<and>
    exec_R s = result_next s v"
  using assms unfolding faithful_R_def insert_iff empty_iff
  by (elim disjE conjE)
    (auto simp: exec_R_def rv_R_def rv_base_def rv_alt_def rv_M_def Let_def
      c_shl_def c_shr_def c_div_def c_udiv_def c_umod_def rv_div_def small_shift mulh_high_correct)

text \<open>The immediate arithmetic instructions of the manual.\<close>

definition rv_I :: "cint \<Rightarrow> cint \<Rightarrow> cint \<Rightarrow> cint option" where
  "rv_I f3 a imm =
     (let top = drop_bit 5 imm AND 0x7F; shamt = unat (imm AND 0x1F)
      in if f3 = 0x1 then (if top = 0x00 then Some (push_bit shamt a) else None)
         else if f3 = 0x5 then
           (if top = 0x00 then Some (drop_bit shamt a)
            else if top = 0x20 then Some (signed_drop_bit shamt a) else None)
         else rv_base f3 a imm)"

definition faithful_I :: "cint \<Rightarrow> cint \<Rightarrow> bool" where
  "faithful_I f3 imm \<longleftrightarrow> f3 \<in> {0x0, 0x2, 0x3, 0x4, 0x6, 0x7} \<or> (f3 \<in> {0x1, 0x5} \<and> imm < 16)"

lemma top_bits: "signed_drop_bit 5 w AND 0x7F = drop_bit 5 w AND (0x7F :: cint)"
  by (rule word32_eqI) (simp add: all_less_32 bit_simps)

lemma tiny_shift:
  assumes "imm < 16"
  shows "imm AND 0xF = (imm :: cint)" "imm AND 0x1F = imm" "drop_bit 5 imm AND 0x7F = 0" "\<not> 32 \<le> unat imm"
proof -
  have lt: "unat imm < 16" using assms by (simp add: word_less_nat_alt)
  then have "take_bit 4 (unat imm) = unat imm" by (intro take_bit_nat_eq_self) simp
  then have "unat (take_bit 4 imm) = unat imm" by (simp add: unsigned_take_bit_eq)
  then have t: "take_bit 4 imm = imm" by (simp add: word_unat_eq_iff)
  have "imm AND 0xF = take_bit 4 imm" by (rule word32_eqI) (simp add: all_less_32 bit_simps)
  with t show "imm AND 0xF = imm" by simp
  have "take_bit 4 imm AND 0x1F = take_bit 4 imm" "drop_bit 5 (take_bit 4 imm) AND 0x7F = 0"
    by (rule word32_eqI, simp add: all_less_32 bit_simps)+
  with t show "imm AND 0x1F = imm" "drop_bit 5 imm AND 0x7F = 0" by simp_all
  show "\<not> 32 \<le> unat imm" using lt by simp
qed

lemma exec_I_1_faithful:
  assumes "faithful_I (i_funct3 (ins s)) (i_immediate (ins s))"
  shows "\<exists>v. rv_I (i_funct3 (ins s)) (i_rs1 (ins s)) (i_immediate (ins s)) = Some v \<and>
    exec_I_1 s = result_next s v"
proof (cases "i_funct3 (ins s) \<in> {0x1, 0x5}")
  case True
  then have "i_immediate (ins s) < 16" using assms by (auto simp: faithful_I_def)
  note shift = tiny_shift [OF this]
  show ?thesis using True
    by (auto simp: exec_I_1_def rv_I_def Let_def top_bits c_shl_def c_shr_def shift)
next
  case False
  then show ?thesis using assms
    by (auto simp: faithful_I_def exec_I_1_def rv_I_def rv_base_def Let_def)
qed

section \<open>Steps of a fetched instruction\<close>

abbreviation fetched :: "sim \<Rightarrow> cint \<Rightarrow> bool" where
  "fetched s w \<equiv> \<exists>m. memory_rd_w (mem s) (PC s) = Inr (w, m)"

abbreviation w_rd :: "cint \<Rightarrow> nat" where "w_rd w \<equiv> unat (drop_bit 7 w AND 0x1F)"
abbreviation w_rs1 :: "cint \<Rightarrow> nat" where "w_rs1 w \<equiv> unat (drop_bit 15 w AND 0x1F)"
abbreviation w_rs2 :: "cint \<Rightarrow> nat" where "w_rs2 w \<equiv> unat (drop_bit 20 w AND 0x1F)"
abbreviation w_funct3 :: "cint \<Rightarrow> cint" where "w_funct3 w \<equiv> drop_bit 12 w AND 0x7"
abbreviation w_funct7 :: "cint \<Rightarrow> cint" where "w_funct7 w \<equiv> drop_bit 25 w AND 0x7F"

lemma decoded_simps [simp]:
  "i_opcode (decoded r i w) = w AND 0x7F" "i_rd (decoded r i w) = w_rd w"
  "i_funct3 (decoded r i w) = w_funct3 w" "i_rs1 (decoded r i w) = r (w_rs1 w)"
  "i_rs2 (decoded r i w) = r (w_rs2 w)" "i_funct7 (decoded r i w) = w_funct7 w"
  by (simp_all add: decoded_def)

lemma decoded_immediate:
  "w AND 0x7F = opcode_I_1 \<Longrightarrow> i_immediate (decoded r i w) = rv_imm_I w"
  "w AND 0x7F = opcode_I_2 \<Longrightarrow> i_immediate (decoded r i w) = rv_imm_I w"
  "w AND 0x7F = opcode_I_3 \<Longrightarrow> i_immediate (decoded r i w) = rv_imm_I w"
  "w AND 0x7F = opcode_I_4 \<Longrightarrow> i_immediate (decoded r i w) = rv_imm_I w"
  "w AND 0x7F = opcode_S \<Longrightarrow> i_immediate (decoded r i w) = rv_imm_S w"
  "w AND 0x7F = opcode_B \<Longrightarrow> i_immediate (decoded r i w) = imm_B w"
  "w AND 0x7F = opcode_J \<Longrightarrow> i_immediate (decoded r i w) = imm_J w"
  "w AND 0x7F = opcode_U_1 \<Longrightarrow> i_immediate (decoded r i w) = imm_U w"
  "w AND 0x7F = opcode_U_2 \<Longrightarrow> i_immediate (decoded r i w) = imm_U w"
  by (simp_all add: decoded_def immediate_of_def imm_I_correct imm_S_correct)

lemma fetch_view:
  assumes "memory_rd_w m a = Inr (w, m')"
  shows "byte_at m' = byte_at m" and "a AND 3 = 0"
    and "w = le_word (byte_at m a) (byte_at m (a + 1)) (byte_at m (a + 2)) (byte_at m (a + 3))"
proof -
  show al: "a AND 3 = 0" using assms memory_rd_w_unaligned [of a m] by auto
  show "byte_at m' = byte_at m"
    "w = le_word (byte_at m a) (byte_at m (a + 1)) (byte_at m (a + 2)) (byte_at m (a + 3))"
    using paged.rd_w_aligned [OF al, of m] assms by auto
qed

text \<open>The components of the state after a step that writes a register and moves on.\<close>

lemma result_next_simps [simp]:
  "result_next s v = Inr (s\<lparr>reg := (reg s)(i_rd (ins s) := v), PC := PC s + 4\<rparr>)"
  by (simp add: result_next_def next_insn_def set_rd_def increment_PC_def)

lemma step_R:
  assumes "fetched s w" and "w AND 0x7F = opcode_R"
    and "faithful_R (w_funct3 w) (w_funct7 w) (reg s (w_rs1 w)) (reg s (w_rs2 w))"
  shows "\<exists>v s'. rv_R (w_funct3 w) (w_funct7 w) (reg s (w_rs1 w)) (reg s (w_rs2 w)) = Some v \<and>
    sim_step s = Inr s' \<and> reg s' = (reg s)(w_rd w := v) \<and> PC s' = PC s + 4 \<and>
    byte_at (mem s') = byte_at (mem s)"
proof -
  obtain m where m: "memory_rd_w (mem s) (PC s) = Inr (w, m)" using assms(1) by blast
  let ?s = "s\<lparr>ins := decoded (reg s) (ins s) w, mem := m\<rparr>"
  obtain v where "rv_R (w_funct3 w) (w_funct7 w) (reg s (w_rs1 w)) (reg s (w_rs2 w)) = Some v"
    "exec_R ?s = result_next ?s v"
    using exec_R_faithful [of ?s] assms(3) by auto
  then show ?thesis
    using assms(2) fetch_view(1) [OF m] by (simp add: sim_step_fetch [OF m] exec_def)
qed

lemma step_I:
  assumes "fetched s w" and "w AND 0x7F = opcode_I_1" and "faithful_I (w_funct3 w) (rv_imm_I w)"
  shows "\<exists>v s'. rv_I (w_funct3 w) (reg s (w_rs1 w)) (rv_imm_I w) = Some v \<and>
    sim_step s = Inr s' \<and> reg s' = (reg s)(w_rd w := v) \<and> PC s' = PC s + 4 \<and>
    byte_at (mem s') = byte_at (mem s)"
proof -
  obtain m where m: "memory_rd_w (mem s) (PC s) = Inr (w, m)" using assms(1) by blast
  let ?s = "s\<lparr>ins := decoded (reg s) (ins s) w, mem := m\<rparr>"
  obtain v where "rv_I (w_funct3 w) (reg s (w_rs1 w)) (rv_imm_I w) = Some v"
    "exec_I_1 ?s = result_next ?s v"
    using exec_I_1_faithful [of ?s] assms(3) decoded_immediate(1) [OF assms(2)] by auto
  then show ?thesis
    using assms(2) fetch_view(1) [OF m] by (simp add: sim_step_fetch [OF m] exec_def)
qed

text \<open>The six branch conditions, by \<^verbatim>\<open>funct3\<close>.\<close>

definition branch_cond :: "cint \<Rightarrow> cint \<Rightarrow> cint \<Rightarrow> bool" where
  "branch_cond f3 a b =
     (if f3 = 0x0 then a = b else if f3 = 0x1 then a \<noteq> b
      else if f3 = 0x4 then sint a < sint b else if f3 = 0x5 then sint b \<le> sint a
      else if f3 = 0x6 then uint a < uint b else uint b \<le> uint a)"

lemma step_B:
  assumes "fetched s w" and "w AND 0x7F = opcode_B" and "w_funct3 w \<in> {0x0, 0x1, 0x4, 0x5, 0x6, 0x7}"
  shows "\<exists>s'. sim_step s = Inr s' \<and> reg s' = reg s \<and> byte_at (mem s') = byte_at (mem s) \<and>
    PC s' = (if branch_cond (w_funct3 w) (reg s (w_rs1 w)) (reg s (w_rs2 w))
             then PC s + imm_B w else PC s + 4)"
proof -
  obtain m where m: "memory_rd_w (mem s) (PC s) = Inr (w, m)" using assms(1) by blast
  show ?thesis
    using assms(3) unfolding insert_iff empty_iff
    by (elim disjE)
      (auto simp: sim_step_fetch [OF m] exec_def exec_B_def branch_def assms(2) Let_def
        decoded_immediate(6) [OF assms(2)] next_insn_def increment_PC_def fetch_view(1) [OF m]
        branch_cond_def word_sless_alt word_sle_eq word_less_def word_le_def)
qed

lemma step_J:
  assumes "fetched s w" and "w AND 0x7F = opcode_J"
  shows "\<exists>s'. sim_step s = Inr s' \<and> reg s' = (reg s)(w_rd w := PC s + 4) \<and>
    PC s' = PC s + imm_J w \<and> byte_at (mem s') = byte_at (mem s)"
  using assms
  by (auto simp: sim_step_fetch exec_def exec_J_def set_rd_def Let_def decoded_immediate dest: fetch_view(1))

lemma odd_unaligned: "odd a \<Longrightarrow> a AND 3 \<noteq> (0 :: cint)"
  by (auto simp: word32_eq_iff all_less_32 bit_simps bit_0)

lemma jal_stops:
  assumes "fetched s w" and "w AND 0x7F = opcode_J"
  shows "simulate s = Some (Unaligned Word_read (PC s + imm_J w))"
proof -
  obtain s' where s': "sim_step s = Inr s'" "PC s' = PC s + imm_J w"
    using step_J [OF assms] by blast
  have "even (PC s)"
    using sim_step_aligned [OF s'(1)] by (auto simp: word32_eq_iff all_less_32 bit_simps bit_0)
  moreover have "odd (imm_J w)" by (simp add: imm_J_odd even_or_iff)
  ultimately have "PC s' AND 3 \<noteq> 0" unfolding s'(2) by (intro odd_unaligned) simp
  then have "run 2 s = Inl (Unaligned Word_read (PC s'))"
    using s' by (simp add: numeral_2_eq_2 sim_step_unaligned)
  then show ?thesis unfolding s'(2) by (rule simulate_run)
qed

lemma lui_value: "push_bit 12 (imm_U w) = push_bit 23 (drop_bit 11 w AND 0x1FF)"
  by (rule word32_eqI) (simp add: imm_U_def all_less_32 bit_simps)

lemma step_U_1:
  assumes "fetched s w" and "w AND 0x7F = opcode_U_1"
  shows "\<exists>s'. sim_step s = Inr s' \<and> PC s' = PC s + 4 \<and>
    reg s' = (reg s)(w_rd w := push_bit 23 (drop_bit 11 w AND 0x1FF))"
  using assms by (auto simp: sim_step_fetch exec_def exec_U_1_def decoded_immediate lui_value)

end
