(* ===== verification/Sim_Spec.thy ===== *)
theory Sim_Spec
  imports Sim_Exec
begin

text \<open>
  The RV32IM machine as the manual defines it, for the computational instructions and the
  control transfers, and the comparison of the simulator of \<^verbatim>\<open>A5/src/simulate.c\<close> with it:
  whole runs agree on a set of instructions (\<open>faithful\<close>), and the properties after that
  say what the simulator does outside of this set.
\<close>

section \<open>The reference machine\<close>

record rv =
  rv_x :: "nat \<Rightarrow> cint"
  rv_pc :: cint
  rv_bytes :: "cint \<Rightarrow> byte"

definition rv_fetch :: "rv \<Rightarrow> cint" where
  "rv_fetch a = le_word (rv_bytes a (rv_pc a)) (rv_bytes a (rv_pc a + 1))
     (rv_bytes a (rv_pc a + 2)) (rv_bytes a (rv_pc a + 3))"

definition rv_put :: "rv \<Rightarrow> nat \<Rightarrow> cint \<Rightarrow> rv" where
  "rv_put a d v = (if d = 0 then a else a\<lparr>rv_x := (rv_x a)(d := v)\<rparr>)"

definition rv_goto :: "cint \<Rightarrow> rv \<Rightarrow> rv" where
  "rv_goto t a = a\<lparr>rv_pc := t\<rparr>"

definition rv_exec :: "cint \<Rightarrow> rv \<Rightarrow> rv option" where
  "rv_exec w a =
     (let op = w AND 0x7F; f3 = w_funct3 w; r1 = rv_x a (w_rs1 w); r2 = rv_x a (w_rs2 w);
          write = (\<lambda>v. rv_goto (rv_pc a + 4) (rv_put a (w_rd w) v));
          link = rv_put a (w_rd w) (rv_pc a + 4)
      in if op = opcode_R then map_option write (rv_R f3 (w_funct7 w) r1 r2)
         else if op = opcode_I_1 then map_option write (rv_I f3 r1 (rv_imm_I w))
         else if op = opcode_B then
           (if f3 = 2 \<or> f3 = 3 then None
            else Some (rv_goto (rv_pc a + (if branch_cond f3 r1 r2 then rv_imm_B w else 4)) a))
         else if op = opcode_J then Some (rv_goto (rv_pc a + rv_imm_J w) link)
         else if op = opcode_I_3 then
           (if f3 = 0 then Some (rv_goto ((r1 + rv_imm_I w) AND - 2) link) else None)
         else if op = opcode_U_1 then Some (write (rv_imm_U w))
         else if op = opcode_U_2 then Some (write (rv_pc a + rv_imm_U w))
         else None)"

definition rv_step :: "rv \<Rightarrow> rv option" where
  "rv_step a = (if rv_pc a AND 3 = 0 then rv_exec (rv_fetch a) a else None)"

primrec rv_run :: "nat \<Rightarrow> rv \<Rightarrow> rv option" where
  "rv_run 0 a = Some a"
| "rv_run (Suc n) a = (case rv_step a of None \<Rightarrow> None | Some a' \<Rightarrow> rv_run n a')"

text \<open>
  What a state of the simulator stands for, and the fetched instructions for which one
  iteration does what the machine does. A write to register 0 is excluded except for the
  canonical \<^verbatim>\<open>nop\<close>, since the simulator keeps it.
\<close>

definition rv_abs :: "sim \<Rightarrow> rv" where
  "rv_abs s = \<lparr>rv_x = reg s, rv_pc = PC s, rv_bytes = byte_at (mem s)\<rparr>"

definition faithful :: "rv \<Rightarrow> bool" where
  "faithful a \<longleftrightarrow>
     (let w = rv_fetch a; op = w AND 0x7F; f3 = w_funct3 w; r1 = rv_x a (w_rs1 w);
          r2 = rv_x a (w_rs2 w)
      in rv_pc a AND 3 = 0 \<and>
         (w = 0x13 \<or>
          (op = opcode_R \<and> w_rd w \<noteq> 0 \<and> faithful_R f3 (w_funct7 w) r1 r2) \<or>
          (op = opcode_I_1 \<and> w_rd w \<noteq> 0 \<and> faithful_I f3 (rv_imm_I w)) \<or>
          (op = opcode_B \<and> f3 \<in> {0x0, 0x1, 0x4, 0x5, 0x6, 0x7} \<and>
             drop_bit 28 w = drop_bit 8 w AND 0xF) \<or>
          (op = opcode_I_3 \<and> f3 = 0 \<and> w_rd w \<noteq> 0 \<and> even (r1 + rv_imm_I w))))"

primrec faithful_run :: "nat \<Rightarrow> rv \<Rightarrow> bool" where
  "faithful_run 0 a = True"
| "faithful_run (Suc n) a =
     (faithful a \<and> (case rv_step a of None \<Rightarrow> False | Some a' \<Rightarrow> faithful_run n a'))"

section \<open>Simulation\<close>

lemma rv_abs_sel [simp]:
  "rv_x (rv_abs s) = reg s" "rv_pc (rv_abs s) = PC s" "rv_bytes (rv_abs s) = byte_at (mem s)"
  by (simp_all add: rv_abs_def)

lemma fetched_rv_fetch:
  assumes "PC s AND 3 = 0"
  shows "fetched s (rv_fetch (rv_abs s))"
  using paged.rd_w_aligned [OF assms, of "mem s"] by (auto simp: rv_fetch_def)

lemma rv_abs_result:
  assumes "reg s' = (reg s)(d := v)" and "PC s' = PC s + 4" and "byte_at (mem s') = byte_at (mem s)"
    and "d \<noteq> 0"
  shows "rv_abs s' = rv_goto (PC s + 4) (rv_put (rv_abs s) d v)"
  using assms by (simp add: rv_abs_def rv_goto_def rv_put_def)

lemma step_nop:
  assumes "fetched s 0x13" and "reg s 0 = 0"
  shows "\<exists>s'. sim_step s = Inr s' \<and> reg s' = reg s \<and> PC s' = PC s + 4 \<and> byte_at (mem s') = byte_at (mem s)"
proof -
  have z: "rv_imm_I 0x13 = 0" "w_funct3 0x13 = 0" "w_rd 0x13 = 0" "w_rs1 0x13 = 0"
    by (simp_all add: rv_imm_I_def)
  obtain v s' where v: "rv_I 0 (reg s 0) 0 = Some v" and s': "sim_step s = Inr s'"
    "reg s' = (reg s)(0 := v)" "PC s' = PC s + 4" "byte_at (mem s') = byte_at (mem s)"
    using step_I [OF assms(1)] unfolding z by (auto simp: faithful_I_def)
  have "v = 0" using v assms(2) by (simp add: rv_I_def rv_base_def)
  then have "reg s' = reg s" using s'(2) assms(2) by auto
  then show ?thesis using s' by blast
qed

lemma even_target: "even t \<Longrightarrow> t AND - 2 = (t :: cint)"
  by (rule word32_eqI) (auto simp: all_less_32 bit_simps bit_0)

lemma step_I_3:
  assumes "fetched s w" and "w AND 0x7F = opcode_I_3" and "w_funct3 w = 0"
  shows "\<exists>s'. sim_step s = Inr s' \<and> reg s' = (reg s)(w_rd w := PC s + 4) \<and>
    PC s' = reg s (w_rs1 w) + rv_imm_I w \<and> byte_at (mem s') = byte_at (mem s)"
proof -
  obtain m where m: "memory_rd_w (mem s) (PC s) = Inr (w, m)" using assms(1) by blast
  show ?thesis
    by (simp add: sim_step_fetch [OF m] exec_def exec_I_3_def set_rd_def Let_def assms(2,3)
        decoded_immediate(3) [OF assms(2)] fetch_view(1) [OF m])
qed

lemma rv_nop: "rv_x a 0 = 0 \<Longrightarrow> rv_exec 0x13 a = Some (rv_goto (rv_pc a + 4) a)"
  by (simp add: rv_exec_def rv_I_def rv_base_def rv_put_def rv_imm_I_def Let_def)

lemma sim_step_faithful:
  assumes "faithful (rv_abs s)" and "reg s 0 = 0"
  shows "\<exists>s'. sim_step s = Inr s' \<and> rv_step (rv_abs s) = Some (rv_abs s') \<and> reg s' 0 = 0"
proof -
  define w where "w = rv_fetch (rv_abs s)"
  have al: "PC s AND 3 = 0" using assms(1) by (simp add: faithful_def Let_def)
  have f: "fetched s w" using fetched_rv_fetch [OF al] by (simp add: w_def)
  have st: "rv_step (rv_abs s) = rv_exec w (rv_abs s)" using al by (simp add: rv_step_def w_def)
  consider (nop) "w = 0x13"
    | (R) "w AND 0x7F = opcode_R" "w_rd w \<noteq> 0"
        "faithful_R (w_funct3 w) (w_funct7 w) (reg s (w_rs1 w)) (reg s (w_rs2 w))"
    | (I) "w AND 0x7F = opcode_I_1" "w_rd w \<noteq> 0" "faithful_I (w_funct3 w) (rv_imm_I w)"
    | (B) "w AND 0x7F = opcode_B" "w_funct3 w \<in> {0x0, 0x1, 0x4, 0x5, 0x6, 0x7}"
        "drop_bit 28 w = drop_bit 8 w AND 0xF"
    | (J) "w AND 0x7F = opcode_I_3" "w_funct3 w = 0" "w_rd w \<noteq> 0" "even (reg s (w_rs1 w) + rv_imm_I w)"
    using assms(1) unfolding faithful_def Let_def w_def [symmetric] rv_abs_sel by blast
  then show ?thesis
  proof cases
    case nop
    have f': "fetched s 0x13" using f nop by simp
    show ?thesis using step_nop [OF f' assms(2)] rv_nop [of "rv_abs s"] assms(2)
      unfolding st nop by (auto simp: rv_abs_def rv_goto_def)
  next
    case R
    then obtain v s' where v: "rv_R (w_funct3 w) (w_funct7 w) (reg s (w_rs1 w)) (reg s (w_rs2 w)) = Some v"
      and s': "sim_step s = Inr s'" "reg s' = (reg s)(w_rd w := v)" "PC s' = PC s + 4"
        "byte_at (mem s') = byte_at (mem s)"
      using step_R [OF f] by blast
    then show ?thesis using R assms(2) rv_abs_result [OF s'(2-4) R(2)]
      unfolding st by (simp add: rv_exec_def Let_def)
  next
    case I
    then obtain v s' where v: "rv_I (w_funct3 w) (reg s (w_rs1 w)) (rv_imm_I w) = Some v"
      and s': "sim_step s = Inr s'" "reg s' = (reg s)(w_rd w := v)" "PC s' = PC s + 4"
        "byte_at (mem s') = byte_at (mem s)"
      using step_I [OF f] by blast
    then show ?thesis using I assms(2) rv_abs_result [OF s'(2-4) I(2)]
      unfolding st by (simp add: rv_exec_def Let_def)
  next
    case B
    have imm: "imm_B w = rv_imm_B w" using B(3) by (simp add: imm_B_correct_iff)
    obtain s' where s': "sim_step s = Inr s'" "reg s' = reg s" "byte_at (mem s') = byte_at (mem s)"
      "PC s' = (if branch_cond (w_funct3 w) (reg s (w_rs1 w)) (reg s (w_rs2 w))
             then PC s + rv_imm_B w else PC s + 4)"
      using step_B [OF f B(1,2)] unfolding imm by blast
    have "\<not> (w_funct3 w = 2 \<or> w_funct3 w = 3)" using B(2) by auto
    then have "rv_exec w (rv_abs s) = Some (rv_goto (PC s') (rv_abs s))"
      using B(1) s'(4) by (simp add: rv_exec_def Let_def del: de_Morgan_disj)
    moreover have "rv_goto (PC s') (rv_abs s) = rv_abs s'"
      using s' by (simp add: rv_goto_def rv_abs_def)
    ultimately show ?thesis unfolding st using s' assms(2) by simp
  next
    case J
    obtain s' where s': "sim_step s = Inr s'" "reg s' = (reg s)(w_rd w := PC s + 4)"
      "PC s' = reg s (w_rs1 w) + rv_imm_I w" "byte_at (mem s') = byte_at (mem s)"
      using step_I_3 [OF f J(1,2)] by blast
    then show ?thesis using J assms(2) even_target [OF J(4)]
      unfolding st by (simp add: rv_exec_def Let_def rv_abs_def rv_goto_def rv_put_def)
  qed
qed

lemma run_faithful:
  assumes "reg s 0 = 0" and "faithful_run n (rv_abs s)"
  shows "\<exists>s'. run n s = Inr s' \<and> rv_run n (rv_abs s) = Some (rv_abs s') \<and> reg s' 0 = 0"
  using assms
proof (induction n arbitrary: s)
  case (Suc n)
  then obtain s' where s': "sim_step s = Inr s'" "rv_step (rv_abs s) = Some (rv_abs s')" "reg s' 0 = 0"
    using sim_step_faithful [of s] by auto
  then show ?case using Suc by auto
qed simp

section \<open>Loads, stores and exits\<close>

text \<open>The value a load puts into its register, and the bytes after a store.\<close>

definition loaded :: "cint \<Rightarrow> (cint \<Rightarrow> byte) \<Rightarrow> cint \<Rightarrow> cint" where
  "loaded f3 b a =
     (if f3 = 0x0 \<or> f3 = 0x4 then ucast (b a)
      else if f3 = 0x1 \<or> f3 = 0x5 then le_half (b a) (b (a + 1))
      else le_word (b a) (b (a + 1)) (b (a + 2)) (b (a + 3)))"

definition stored :: "cint \<Rightarrow> (cint \<Rightarrow> byte) \<Rightarrow> cint \<Rightarrow> cint \<Rightarrow> cint \<Rightarrow> byte" where
  "stored f3 b a d =
     (if f3 = 0x0 then b(a := ucast d)
      else if f3 = 0x1 then b(a := byte_of 0 d, a + 1 := byte_of 1 d)
      else b(a := byte_of 0 d, a + 1 := byte_of 1 d, a + 2 := byte_of 2 d, a + 3 := byte_of 3 d))"

definition width_mask :: "cint \<Rightarrow> cint" where
  "width_mask f3 = (if f3 = 0x0 \<or> f3 = 0x4 then 0 else if f3 = 0x1 \<or> f3 = 0x5 then 1 else 3)"

lemma step_load:
  assumes "fetched s w" and "w AND 0x7F = opcode_I_2" and "w_funct3 w \<in> {0x0, 0x1, 0x2, 0x4, 0x5}"
    and a: "a = PC s + (reg s (w_rs1 w) + rv_imm_I w)" and al: "a AND width_mask (w_funct3 w) = 0"
  shows "\<exists>s'. sim_step s = Inr s' \<and> PC s' = PC s + 4 \<and> byte_at (mem s') = byte_at (mem s) \<and>
    reg s' = (reg s)(w_rd w := loaded (w_funct3 w) (byte_at (mem s)) a)"
proof -
  obtain m where m: "memory_rd_w (mem s) (PC s) = Inr (w, m)" using assms(1) by blast
  have v: "byte_at m = byte_at (mem s)" by (rule fetch_view(1) [OF m])
  have b: "\<exists>m'. memory_rd_b m a = (ucast (byte_at (mem s) a), m') \<and> byte_at m' = byte_at (mem s)"
    using paged.rd_b_any [of m a] by (simp add: v)
  have h: "\<exists>m'. memory_rd_h m a = Inr (le_half (byte_at (mem s) a) (byte_at (mem s) (a + 1)), m')
      \<and> byte_at m' = byte_at (mem s)" if "a AND 1 = 0"
    using paged.rd_h_aligned [OF that, of m] by (simp add: v)
  have wd: "\<exists>m'. memory_rd_w m a = Inr (le_word (byte_at (mem s) a) (byte_at (mem s) (a + 1))
      (byte_at (mem s) (a + 2)) (byte_at (mem s) (a + 3)), m') \<and> byte_at m' = byte_at (mem s)"
    if "a AND 3 = 0"
    using paged.rd_w_aligned [OF that, of m] by (simp add: v)
  have a': "PC s + reg s (w_rs1 w) + rv_imm_I w = a" using a by (simp add: add.assoc)
  show ?thesis
    using assms(3) al unfolding insert_iff empty_iff
    by (elim disjE)
      (use b h wd in \<open>auto simp: sim_step_fetch [OF m] exec_def exec_I_2_def Let_def assms(2) a'
        a [symmetric] decoded_immediate(2) [OF assms(2)] loaded_def width_mask_def\<close>)
qed

lemma step_store:
  assumes "fetched s w" and "w AND 0x7F = opcode_S" and "w_funct3 w \<in> {0x0, 0x1, 0x2}"
    and a: "a = PC s + reg s (w_rs1 w) + rv_imm_S w" and al: "a AND width_mask (w_funct3 w) = 0"
  shows "\<exists>s'. sim_step s = Inr s' \<and> PC s' = PC s + 4 \<and> reg s' = reg s \<and>
    byte_at (mem s') = stored (w_funct3 w) (byte_at (mem s)) a (reg s (w_rs2 w))"
proof -
  obtain m where m: "memory_rd_w (mem s) (PC s) = Inr (w, m)" using assms(1) by blast
  have v: "byte_at m = byte_at (mem s)" by (rule fetch_view(1) [OF m])
  show ?thesis
    using assms(3) al paged.wr_h_aligned [of a m "reg s (w_rs2 w)"]
      paged.wr_w_aligned [of a m "reg s (w_rs2 w)"] unfolding insert_iff empty_iff
    by (elim disjE)
      (auto simp: sim_step_fetch [OF m] exec_def exec_S_def Let_def assms(2) a [symmetric] v
        decoded_immediate(5) [OF assms(2)] stored_def width_mask_def next_insn_def increment_PC_def
        paged.wr_b_any)
qed

lemma ecall_word: "w AND 0x7F = 0x73 \<and> w_funct3 w = 0 \<and> rv_imm_I w = 0 \<longleftrightarrow> w AND 0xFFF0707F = 0x73"
  unfolding rv_imm_I_def word32_eq_iff by (simp add: all_less_32 bit_simps)

lemmas stopping_defs = c_div_def c_rem_def c_udiv_def c_umod_def c_shl_def c_shr_def c_sar_def
  memory_rd_h_def memory_rd_w_def memory_wr_h_def memory_wr_w_def seq_eq_Inl

lemma no_exit:
  "exec_R s \<noteq> Inl Exit_success" "exec_I_1 s \<noteq> Inl Exit_success" "exec_I_2 s \<noteq> Inl Exit_success"
  "exec_S s \<noteq> Inl Exit_success" "exec_B s \<noteq> Inl Exit_success" "exec_J s \<noteq> Inl Exit_success"
  "exec_I_3 s \<noteq> Inl Exit_success" "exec_U_1 s \<noteq> Inl Exit_success" "exec_U_2 s \<noteq> Inl Exit_success"
  by (simp_all add: exec_R_def exec_I_1_def exec_I_2_def exec_S_def exec_B_def exec_J_def
      exec_I_3_def exec_U_1_def exec_U_2_def branch_def Let_def stopping_defs split: prod.splits)

lemma exec_exit_only: "i_opcode (ins s) \<noteq> opcode_I_4 \<Longrightarrow> exec s \<noteq> Inl Exit_success"
  by (simp add: exec_def Let_def no_exit)

lemma step_exit_iff:
  assumes "fetched s w"
  shows "sim_step s = Inl Exit_success \<longleftrightarrow> w AND 0xFFF0707F = 0x73"
proof -
  obtain m where m: "memory_rd_w (mem s) (PC s) = Inr (w, m)" using assms by blast
  let ?s = "s\<lparr>ins := decoded (reg s) (ins s) w, mem := m\<rparr>"
  show ?thesis
  proof (cases "w AND 0x7F = opcode_I_4")
    case True
    then have "exec ?s = Inl Exit_success \<longleftrightarrow> w_funct3 w = 0 \<and> rv_imm_I w = 0"
      by (simp add: exec_def exec_I_4_def decoded_immediate(4))
    then show ?thesis
      using True unfolding sim_step_fetch [OF m] ecall_word [symmetric] by simp
  next
    case False
    then have "exec ?s \<noteq> Inl Exit_success" by (intro exec_exit_only) simp
    then show ?thesis using False unfolding sim_step_fetch [OF m] ecall_word [symmetric] by simp
  qed
qed

lemma fetched_unhandled_spins:
  assumes "fetched s w" and "unhandled (decoded (reg s) (ins s) w)"
  shows "simulate s = None"
proof -
  obtain m where m: "memory_rd_w (mem s) (PC s) = Inr (w, m)" using assms(1) by blast
  show ?thesis by (rule no_effect_spins [OF m]) (simp add: unhandled_exec assms(2))
qed

section \<open>Properties\<close>

text \<open>Memories for the witnesses: the given words from address 0 on.\<close>

definition words_from_0 :: "cint list \<Rightarrow> memory" where
  "words_from_0 ws = \<lparr>pages = [0 \<mapsto> (\<lambda>i. if i < length ws then ws ! i else 0)]\<rparr>"

definition no_instruction :: instruction where
  "no_instruction = \<lparr>i_opcode = 0, i_rd = 0, i_funct3 = 0, i_rs1 = 0, i_rs2 = 0, i_funct7 = 0,
     i_immediate = 0\<rparr>"

definition start :: "cint list \<Rightarrow> sim" where
  "start ws = sim_init (words_from_0 ws) 0 no_instruction"

lemma start_simps [simp]:
  "reg (start ws) = (\<lambda>_. 0)" "PC (start ws) = 0" "mem (start ws) = words_from_0 ws"
  "ins (start ws) = no_instruction"
  by (simp_all add: start_def sim_init_def)

lemma fetched_start: "fetched (start (w # ws)) w"
  by (simp add: memory_rd_w_def get_page_def page_number_def word_index_def words_from_0_def)

lemma fetch_at:
  assumes "p AND 3 = 0"
  shows "rv_fetch \<lparr>rv_x = r, rv_pc = p, rv_bytes = byte_at m\<rparr> = word_at m p"
  by (simp add: rv_fetch_def word_at_bytes [OF assms])

lemmas program_simps = fetch_at word_at_def peek_def page_number_eq word_index_eq words_from_0_def
  rv_goto_def rv_put_def

text \<open>
  C1: a run of the simulator in which every fetched instruction is one of the faithful
  ones is, state by state, the run of the RV32IM machine: the same registers, program
  counter and memory bytes after any number of iterations.
\<close>

theorem simulator_refines_rv32im:
  assumes "reg s 0 = 0" and "faithful_run n (rv_abs s)"
  shows "\<exists>s'. run n s = Inr s' \<and> rv_run n (rv_abs s) = Some (rv_abs s') \<and> reg s' 0 = 0"
  using assms by (rule run_faithful)

text \<open>\<^verbatim>\<open>addi x1, x0, 5; add x2, x1, x1; nop\<close>\<close>

theorem simulator_refines_rv32im_witness:
  "\<exists>s'. run 3 (start [0x00500093, 0x00108133, 0x13]) = Inr s' \<and>
     rv_run 3 (rv_abs (start [0x00500093, 0x00108133, 0x13])) = Some (rv_abs s') \<and> reg s' 0 = 0"
  by (rule simulator_refines_rv32im) (simp_all add: numeral_3_eq_3 faithful_def rv_step_def Let_def
    rv_abs_def program_simps rv_exec_def faithful_R_def faithful_I_def rv_I_def rv_R_def rv_base_def
    rv_imm_I_def)

text \<open>
  The loop of \<open>simulate\<close> ends in a given way exactly when some number of iterations
  ends that way; otherwise it does not return at all.
\<close>

theorem simulate_adequate:
  "(simulate s = Some e \<longleftrightarrow> (\<exists>n. run n s = Inl e)) \<and>
   (simulate s = None \<longleftrightarrow> (\<nexists>n e. run n s = Inl e))"
  by (metis not_Some_eq run_of_simulate simulate_run)

text \<open>
  C37: the immediates of the I and S formats are the manual's for every instruction word;
  those of the B format are exactly when bits 31 to 28 happen to equal bits 11 to 8; the
  J immediate has the manual's bits with bit 0 set; what \<^verbatim>\<open>lui\<close> and \<^verbatim>\<open>auipc\<close> shift into
  the upper word is instruction bits 11 to 19, placed at bits 23 to 31.
\<close>

theorem immediates_against_manual:
  "imm_I w = rv_imm_I w \<and> imm_S w = rv_imm_S w \<and>
   (imm_B w = rv_imm_B w \<longleftrightarrow> drop_bit 28 w = drop_bit 8 w AND 0xF) \<and>
   imm_J w = rv_imm_J w OR 1 \<and>
   push_bit 12 (imm_U w) = push_bit 23 (drop_bit 11 w AND 0x1FF)"
  using imm_I_correct imm_S_correct imm_B_correct_iff imm_J_odd lui_value by blast

text \<open>
  Every \<^verbatim>\<open>jal\<close> ends the simulation at its target: the decoded offset is odd, so the
  next fetch is an unaligned word read.
\<close>

theorem jal_ends_unaligned:
  assumes "fetched s w" and "w AND 0x7F = opcode_J"
  shows "simulate s = Some (Unaligned Word_read (PC s + imm_J w))"
  using assms by (rule jal_stops)

theorem jal_ends_unaligned_witness:
  "simulate (start [0x008000EF]) = Some (Unaligned Word_read (PC (start [0x008000EF]) + imm_J 0x008000EF))"
  by (rule jal_ends_unaligned [OF fetched_start]) simp

text \<open>
  An encoding that the switch does not handle makes the simulator spin: it is fetched
  again for ever. Among them are \<^verbatim>\<open>slt\<close>, \<^verbatim>\<open>rem\<close>, \<^verbatim>\<open>sra\<close>, \<^verbatim>\<open>srai\<close> in their standard encoding and
  a division by zero.
\<close>

theorem unhandled_instruction_spins:
  assumes "fetched s w" and "unhandled (decoded (reg s) (ins s) w)"
  shows "simulate s = None"
  using assms by (rule fetched_unhandled_spins)

text \<open>\<^verbatim>\<open>slt x1, x2, x3\<close>\<close>

theorem unhandled_instruction_spins_witness: "simulate (start [0x003120B3]) = None"
  by (rule unhandled_instruction_spins [OF fetched_start]) (simp add: unhandled_def unhandled_R_def)

text \<open>
  A load writes the little-endian value of one, two or four bytes, zero-extended for
  every width, and changes nothing else. The address is relative to the program counter.
\<close>

theorem load_reads_bytes:
  assumes "fetched s w" and "w AND 0x7F = opcode_I_2" and "w_funct3 w \<in> {0x0, 0x1, 0x2, 0x4, 0x5}"
    and "a = PC s + (reg s (w_rs1 w) + rv_imm_I w)" and "a AND width_mask (w_funct3 w) = 0"
  shows "\<exists>s'. sim_step s = Inr s' \<and> PC s' = PC s + 4 \<and> byte_at (mem s') = byte_at (mem s) \<and>
    reg s' = (reg s)(w_rd w := loaded (w_funct3 w) (byte_at (mem s)) a)"
  using assms by (rule step_load)

text \<open>\<^verbatim>\<open>lw x1, 4(x0)\<close>\<close>

theorem load_reads_bytes_witness:
  "\<exists>s'. sim_step (start [0x00402083, 99]) = Inr s' \<and> PC s' = PC (start [0x00402083, 99]) + 4 \<and>
    byte_at (mem s') = byte_at (mem (start [0x00402083, 99])) \<and>
    reg s' = (reg (start [0x00402083, 99]))(w_rd 0x00402083 :=
      loaded (w_funct3 0x00402083) (byte_at (mem (start [0x00402083, 99]))) 4)"
  by (rule load_reads_bytes [OF fetched_start]) (simp_all add: width_mask_def rv_imm_I_def)

text \<open>
  A store changes exactly the one, two or four addressed bytes, to the low bytes of
  the source register, least significant first. The address is relative to the program
  counter.
\<close>

theorem store_changes_bytes:
  assumes "fetched s w" and "w AND 0x7F = opcode_S" and "w_funct3 w \<in> {0x0, 0x1, 0x2}"
    and "a = PC s + reg s (w_rs1 w) + rv_imm_S w" and "a AND width_mask (w_funct3 w) = 0"
  shows "\<exists>s'. sim_step s = Inr s' \<and> PC s' = PC s + 4 \<and> reg s' = reg s \<and>
    byte_at (mem s') = stored (w_funct3 w) (byte_at (mem s)) a (reg s (w_rs2 w))"
  using assms by (rule step_store)

text \<open>\<^verbatim>\<open>sh x1, 6(x0)\<close>\<close>

theorem store_changes_bytes_witness:
  "\<exists>s'. sim_step (start [0x00101323]) = Inr s' \<and> PC s' = PC (start [0x00101323]) + 4 \<and>
    reg s' = reg (start [0x00101323]) \<and>
    byte_at (mem s') = stored (w_funct3 0x00101323) (byte_at (mem (start [0x00101323]))) 6
      (reg (start [0x00101323]) (w_rs2 0x00101323))"
  by (rule store_changes_bytes [OF fetched_start]) (simp_all add: width_mask_def rv_imm_S_def)

text \<open>
  The process exits successfully exactly at an \<^verbatim>\<open>ecall\<close>, whatever the system call
  number in register A7 and the \<^verbatim>\<open>rd\<close> and \<^verbatim>\<open>rs1\<close> fields say.
\<close>

theorem exit_iff_ecall:
  assumes "fetched s w"
  shows "sim_step s = Inl Exit_success \<longleftrightarrow> w AND 0xFFF0707F = 0x73"
  using assms by (rule step_exit_iff)

theorem exit_iff_ecall_witness:
  "sim_step (start [0x73]) = Inl Exit_success \<longleftrightarrow> (0x73 :: cint) AND 0xFFF0707F = 0x73"
  by (rule exit_iff_ecall [OF fetched_start])

text \<open>
  Of the high multiplications, \<^verbatim>\<open>mulh\<close> is the manual's, while \<^verbatim>\<open>mulhsu\<close> and \<^verbatim>\<open>mulhu\<close>
  give 0 for all operands, since their product is truncated before it is widened.
\<close>

theorem high_multiplications:
  "mulh_high a b = rv_mulh a b \<and> mulsu_high a b = 0 \<and> mulu_high a b = 0"
  using mulh_high_correct high_products_vanish by blast

end
