(* ===== verification/Sim_Main.thy ===== *)
theory Sim_Main
  imports Sim_Load Sim_Spec
begin

text \<open>
  The simulator as a program, \<^verbatim>\<open>main\<close> of \<^verbatim>\<open>A5/src/main.c\<close>: the arguments behind \<^verbatim>\<open>--\<close> are copied
  into the memory, the listing is loaded, and \<^verbatim>\<open>simulate\<close> is called, which never returns to
  \<^verbatim>\<open>main\<close>: it calls \<^verbatim>\<open>exit\<close> or loops (so the summary behind the call is never printed). Files
  are a map from paths to contents, \<open>writable\<close> tells which log files can be opened, \<open>garbage\<close>
  is the uninitialised structure \<^verbatim>\<open>ins\<close>. \<open>None\<close> is a simulator that does not end.

  The lemmas put the parts together: as long as it keeps to the instructions that the
  simulator implements, the program of a listing runs as on an RV32IM machine.
\<close>

text \<open>\<^verbatim>\<open>terminate\<close> calls \<^verbatim>\<open>exit(-1)\<close>, a failure.\<close>

definition terminate :: "stop option" where
  "terminate = Some Exit_failure"

definition sim_main :: "(string \<rightharpoonup> string) \<Rightarrow> (string \<Rightarrow> bool) \<Rightarrow> instruction \<Rightarrow> string list \<Rightarrow> stop option" where
  "sim_main files writable garbage argv =
     (case pass_args_to_program memory_create argv of
        Inl e \<Rightarrow> Some e
      | Inr (argc, m) \<Rightarrow>
          if argc = 2 \<or> argc = 4 then
            if argc = 4 \<and> argv ! 2 = ''-l'' \<and> \<not> writable (argv ! 3) then terminate
            else case read_exec (files (argv ! 1)) m assembly_create of
                   Inl e \<Rightarrow> Some e
                 | Inr (start_addr, m, as) \<Rightarrow> simulate (sim_init m start_addr garbage)
          else terminate)"

text \<open>The machine when \<^verbatim>\<open>simulate\<close> is called.\<close>

definition machine_of :: "image \<Rightarrow> rv" where
  "machine_of im = \<lparr>rv_x = (\<lambda>_. 0), rv_pc = im_start im, rv_bytes = im_bytes im\<rparr>"

lemma rv_abs_init:
  "rv_abs (sim_init m addr garbage) = \<lparr>rv_x = (\<lambda>_. 0), rv_pc = addr, rv_bytes = byte_at m\<rparr>"
  by (simp add: rv_abs_def sim_init_def)

text \<open>The listing is loaded on top of the argument block, and the simulation starts there.\<close>

definition loaded_image :: "memory \<Rightarrow> item list \<Rightarrow> image" where
  "loaded_image m its = fold item_effect its \<lparr>im_bytes = byte_at m, im_texts = Map.empty, im_start = - 1\<rparr>"

lemma sim_main_starts:
  assumes "pass_args_to_program memory_create argv = Inr (2, m0)"
    and "files (argv ! 1) = Some (listing (map show_item its))" and "\<forall>it \<in> set its. item_ok it"
    and "im_start (loaded_image m0 its) \<noteq> - 1"
  obtains m where "sim_main files writable garbage argv = simulate (sim_init m (im_start (loaded_image m0 its)) garbage)"
    and "rv_abs (sim_init m (im_start (loaded_image m0 its)) garbage) = machine_of (loaded_image m0 its)"
proof -
  obtain m as where "read_exec (Some (listing (map show_item its))) m0 assembly_create =
      Inr (im_start (loaded_image m0 its), m, as)" "byte_at m = im_bytes (loaded_image m0 its)"
    using read_exec_listing [OF assms(3) assembly_create_ok(1), of "loaded_image m0 its" m0] assms(4)
    by (auto simp: loaded_image_def assembly_create_ok(2))
  then show thesis
    using that [of m] assms(1,2) by (simp add: sim_main_def rv_abs_init machine_of_def)
qed

lemma faithful_run_exits:
  assumes "reg s 0 = 0" and "faithful_run n (rv_abs s)" and "rv_run n (rv_abs s) = Some a"
    and "rv_pc a AND 3 = 0" and "rv_fetch a AND 0xFFF0707F = 0x73"
  shows "simulate s = Some Exit_success"
proof -
  obtain s' where s': "run n s = Inr s'" "a = rv_abs s'" using run_faithful [OF assms(1,2)] assms(3) by auto
  then have "sim_step s' = Inl Exit_success"
    using step_exit_iff [OF fetched_rv_fetch [of s']] assms(4,5) by simp
  then have "run (Suc n) s = Inl Exit_success" unfolding run_Suc_right using s'(1) by simp
  then show ?thesis by (rule simulate_run)
qed

lemma faithful_run_endless:
  assumes "reg s 0 = 0" and "\<forall>n. faithful_run n (rv_abs s)"
  shows "simulate s = None"
proof -
  have "\<exists>s'. run n s = Inr s'" for n using run_faithful [OF assms(1)] assms(2) by blast
  then show ?thesis by (metis Inl_Inr_False not_Some_eq run_of_simulate)
qed

section \<open>Properties\<close>

text \<open>
  C2: the simulator is started on a listing (of the items \<open>read_exec\<close> loads, C7), with or without
  program arguments. As long as the machine executes only instructions that the simulator
  implements (\<open>faithful_run\<close>: the register and immediate instructions with a destination other
  than 0 and, for some, operands for which the code is right, \<^verbatim>\<open>nop\<close>, \<^verbatim>\<open>jalr\<close> to an even address and
  branches whose offset the code decodes; no loads, stores, \<^verbatim>\<open>jal\<close>, \<^verbatim>\<open>lui\<close> or \<^verbatim>\<open>auipc\<close>), the
  iterations of \<^verbatim>\<open>simulate\<close> are the steps of an RV32IM machine that starts at \<^verbatim>\<open>_start\<close> with zeroed
  registers and the memory image of the listing on top of the argument block: the same
  registers, program counter and memory after each. If the machine gets to an \<^verbatim>\<open>ecall\<close> in this
  way the program exits with status 0, and if it goes on for ever the program does not end.
\<close>

theorem simulator_runs_program:
  assumes "pass_args_to_program memory_create argv = Inr (2, m0)"
    and "files (argv ! 1) = Some (listing (map show_item its))" and "\<forall>it \<in> set its. item_ok it"
    and "im_start (loaded_image m0 its) \<noteq> - 1"
  shows "\<exists>m. sim_main files writable garbage argv = simulate (sim_init m (im_start (loaded_image m0 its)) garbage) \<and>
    (\<forall>n. faithful_run n (machine_of (loaded_image m0 its)) \<longrightarrow>
      (\<exists>s. run n (sim_init m (im_start (loaded_image m0 its)) garbage) = Inr s \<and>
        rv_run n (machine_of (loaded_image m0 its)) = Some (rv_abs s))) \<and>
    (\<forall>n a. faithful_run n (machine_of (loaded_image m0 its)) \<and> rv_run n (machine_of (loaded_image m0 its)) = Some a \<and>
      rv_pc a AND 3 = 0 \<and> rv_fetch a AND 0xFFF0707F = 0x73 \<longrightarrow>
      sim_main files writable garbage argv = Some Exit_success) \<and>
    ((\<forall>n. faithful_run n (machine_of (loaded_image m0 its))) \<longrightarrow> sim_main files writable garbage argv = None)"
proof -
  obtain m where m: "sim_main files writable garbage argv = simulate (sim_init m (im_start (loaded_image m0 its)) garbage)"
    "rv_abs (sim_init m (im_start (loaded_image m0 its)) garbage) = machine_of (loaded_image m0 its)"
    using sim_main_starts [where files = files, OF assms] by blast
  have z: "reg (sim_init m (im_start (loaded_image m0 its)) garbage) 0 = 0" by (simp add: sim_init_def)
  show ?thesis
  proof (intro exI [of _ m] conjI)
    show "sim_main files writable garbage argv = simulate (sim_init m (im_start (loaded_image m0 its)) garbage)" by (rule m(1))
  qed (use run_faithful [OF z] faithful_run_exits [OF z] faithful_run_endless [OF z] in \<open>unfold m(1) m(2), blast+\<close>)
qed

text \<open>A listing that adds and exits.\<close>

definition small_program :: "item list" where
  "small_program = [Symbol 0x10074 ''_start>:'', Insn 0x10074 0x00500093 [''li'', ''ra,5''], Insn 0x10078 0x73 [''ecall'']]"

theorem simulator_runs_program_witness:
  "sim_main [''p.dis'' \<mapsto> listing (map show_item small_program)] (\<lambda>_. True) no_instruction [''sim'', ''p.dis''] = Some Exit_success"
proof -
  let ?files = "[''p.dis'' \<mapsto> listing (map show_item small_program)]"
  let ?im = "loaded_image memory_create small_program"
  have args: "pass_args_to_program memory_create [''sim'', ''p.dis''] = Inr (2, memory_create)"
    by (simp add: pass_args_to_program_def)
  have listed: "?files ([''sim'', ''p.dis''] ! 1) = Some (listing (map show_item small_program))" by simp
  have ok: "\<forall>it \<in> set small_program. item_ok it"
    by (simp add: small_program_def token_def isspace_def texts_ok_def ADDR_LIMIT_def less_Suc_eq)
  have at: "im_start ?im = 0x10074" by (simp add: loaded_image_def small_program_def)
  then have ne: "im_start ?im \<noteq> - 1" by simp
  have bytes: "im_bytes ?im = (byte_at memory_create)(0x10074 := 0x93, 0x10075 := 0, 0x10076 := 0x50, 0x10077 := 0,
      0x10078 := 0x73, 0x10079 := 0, 0x1007A := 0, 0x1007B := 0)"
  proof -
    have "(5243027 :: byte) = 147" "(20480 :: byte) = 0" by simp_all
    note low_byte = this
    show ?thesis by (simp add: loaded_image_def small_program_def byte_of_def low_byte)
  qed
  have run: "faithful_run 1 (machine_of ?im) \<and> rv_run 1 (machine_of ?im) =
      Some (\<lparr>rv_x = (\<lambda>_. 0)(1 := 5), rv_pc = 0x10078, rv_bytes = im_bytes ?im\<rparr>)"
    by (simp add: machine_of_def at bytes faithful_def rv_step_def rv_fetch_def Let_def le_word_def rv_exec_def
      faithful_I_def rv_I_def rv_base_def rv_imm_I_def rv_goto_def rv_put_def)
  have fetch: "rv_fetch \<lparr>rv_x = (\<lambda>_. 0)(1 := 5), rv_pc = 0x10078, rv_bytes = im_bytes ?im\<rparr> AND 0xFFF0707F = 0x73"
    by (simp add: rv_fetch_def bytes le_word_def)
  have aligned: "(0x10078 :: cint) AND 3 = 0" by simp
  have "rv_pc \<lparr>rv_x = (\<lambda>_. 0)(1 := 5), rv_pc = 0x10078, rv_bytes = im_bytes ?im\<rparr> AND 3 = 0" by simp
  then show ?thesis
    using simulator_runs_program [where files = ?files and argv = "[''sim'', ''p.dis'']" and garbage = no_instruction and writable = "\<lambda>_. True",
        OF args listed ok ne] run fetch by blast
qed

end
