(* ===== verification/Radix_Tree.thy ===== *)
theory Radix_Tree
  imports Prelude
begin

text \<open>
  The radix tree of \<^verbatim>\<open>A6/radix.c\<close>: a bag of numbers, kept in a binary tree that branches
  on the bits in which its members differ, the most significant first. Bit positions are
  one-hot words. A node with \<^verbatim>\<open>bit_pos == 1\<close> is a leaf and counts the occurrences of two
  neighbouring numbers, any other node has two subtrees; the node owns its subtrees, so
  the tree is a datatype. The counters are natural numbers.

  \<open>None\<close> stands for a call that does not return a tree: a node read through the wrong
  member of the union, or the search for a differing bit running on for ever. The
  theorems show that neither happens.

  The lemmas show that adding and taking numbers implements a bag from which the smallest
  members are taken in ascending order, and that the main loop outputs what the format
  of the input promises.
\<close>

section \<open>State\<close>

datatype tree =
    Null
  | Leaf cint nat nat
  | Interior cint cint tree tree

fun bit_pos_of :: "tree \<Rightarrow> cint" where
  "bit_pos_of Null = 0"
| "bit_pos_of (Leaf number count_zero count_one) = 1"
| "bit_pos_of (Interior bit_pos number zero one) = bit_pos"

fun number_of :: "tree \<Rightarrow> cint" where
  "number_of Null = 0"
| "number_of (Leaf number count_zero count_one) = number"
| "number_of (Interior bit_pos number zero one) = number"

definition MAX_BITS :: cint where "MAX_BITS = push_bit 30 1"

section \<open>Bit positions\<close>

definition lower_bits :: "cint \<Rightarrow> cint" where "lower_bits bit_pos = bit_pos - 1"

definition higher_bits :: "cint \<Rightarrow> cint" where "higher_bits bit_pos = 0 - bit_pos - bit_pos"

definition not_lower_bits :: "cint \<Rightarrow> cint" where "not_lower_bits bit_pos = NOT (lower_bits bit_pos)"

definition not_higher_bits :: "cint \<Rightarrow> cint" where "not_higher_bits bit_pos = NOT (higher_bits bit_pos)"

definition bit_range :: "cint \<Rightarrow> cint \<Rightarrow> cint" where
  "bit_range bit_pos_high bit_pos_low = higher_bits bit_pos_low AND not_higher_bits bit_pos_high"

section \<open>Adding a number\<close>

definition create_leaf :: "cint \<Rightarrow> tree" where
  "create_leaf number = Leaf number (if number AND 1 = 0 then 1 else 0) (unat (number AND 1))"

text \<open>\<^verbatim>\<open>while ((bit_pos & diff) == 0) { bit_pos >>= 1; }\<close>\<close>

partial_function (option) locate :: "cint \<Rightarrow> cint \<Rightarrow> cint option" where
  "locate bit_pos diff =
     (if bit_pos AND diff = 0 then locate (signed_drop_bit 1 bit_pos) diff else Some bit_pos)"

definition inject :: "cint \<Rightarrow> cint \<Rightarrow> tree \<Rightarrow> tree" where
  "inject bit_pos number t =
     (if number AND bit_pos = 0 then Interior bit_pos number (create_leaf number) t
      else Interior bit_pos number t (create_leaf number))"

text \<open>
  \<open>add_from bit_pos number t\<close> is the loop of \<^verbatim>\<open>add_number\<close> from its test on, with \<open>t\<close> the
  value of \<^verbatim>\<open>*parent\<close>; the result is the new value. \<open>at\<close> is the bit position at which the
  found node is used.
\<close>

fun add_from :: "cint \<Rightarrow> cint \<Rightarrow> tree \<Rightarrow> tree option" where
  "add_from bit_pos number Null =
     (if 1 \<le>s bit_pos then Some (create_leaf number) else Some Null)"
| "add_from bit_pos number (Leaf n count_zero count_one) =
     (if \<not> 1 \<le>s bit_pos then Some (Leaf n count_zero count_one)
      else let diff = (if 1 <s bit_pos then bit_range bit_pos 1 AND (number XOR n) else 0);
               at = (if 1 <s bit_pos then 1 else bit_pos)
      in if diff \<noteq> 0 then map_option (\<lambda>b. inject b number (Leaf n count_zero count_one)) (locate bit_pos diff)
         else if 1 <s at then None
         else if number AND 1 \<noteq> 0 then Some (Leaf n count_zero (count_one + 1))
         else Some (Leaf n (count_zero + 1) count_one))"
| "add_from bit_pos number (Interior b n zero one) =
     (if \<not> 1 \<le>s bit_pos then Some (Interior b n zero one)
      else let diff = (if b <s bit_pos then bit_range bit_pos b AND (number XOR n) else 0);
               at = (if b <s bit_pos then b else bit_pos)
      in if diff \<noteq> 0 then map_option (\<lambda>b'. inject b' number (Interior b n zero one)) (locate bit_pos diff)
         else if \<not> 1 <s at then None
         else if at AND number \<noteq> 0
         then map_option (Interior b n zero) (add_from (signed_drop_bit 1 at) number one)
         else map_option (\<lambda>z. Interior b n z one) (add_from (signed_drop_bit 1 at) number zero))"

definition add_number :: "cint \<Rightarrow> tree \<Rightarrow> tree option" where
  "add_number number t = add_from MAX_BITS number t"

section \<open>Taking numbers\<close>

text \<open>
  \<^verbatim>\<open>while (buffer < end && count) { *buffer++ = x; count--; }\<close>: the numbers written, the
  room left in the buffer and the counter left.
\<close>

fun take_count :: "nat \<Rightarrow> nat \<Rightarrow> cint \<Rightarrow> cint list \<times> nat \<times> nat" where
  "take_count (Suc room) (Suc c) x = (case take_count room c x of (out, r) \<Rightarrow> (x # out, r))"
| "take_count room c x = ([], room, c)"

fun take_numbers_2 :: "tree \<Rightarrow> nat \<Rightarrow> cint list \<times> nat \<times> tree" where
  "take_numbers_2 Null room = ([], room, Null)"
| "take_numbers_2 (Leaf n count_zero count_one) room =
     (let (out0, room, count_zero) = take_count room count_zero (n AND NOT 1);
          (out1, room, count_one) = take_count room count_one (n OR 1)
      in (out0 @ out1, room,
          if count_zero = 0 \<and> count_one = 0 then Null else Leaf n count_zero count_one))"
| "take_numbers_2 (Interior b n zero one) room =
     (let (out0, room, zero) = take_numbers_2 zero room;
          (out1, room, one) = take_numbers_2 one room
      in (out0 @ out1, room, if zero = Null \<and> one = Null then Null else Interior b n zero one))"

definition take_numbers :: "tree \<Rightarrow> nat \<Rightarrow> cint list \<times> tree" where
  "take_numbers t max_nums = (case take_numbers_2 t max_nums of (out, _, t') \<Rightarrow> (out, t'))"

text \<open>\<^verbatim>\<open>release_tree\<close>: the nodes it releases, in order.\<close>

fun release_tree :: "tree \<Rightarrow> tree list" where
  "release_tree Null = []"
| "release_tree (Leaf n c0 c1) = [Leaf n c0 c1]"
| "release_tree (Interior b n zero one) =
     (if 1 <s b then release_tree zero @ release_tree one else []) @ [Interior b n zero one]"

section \<open>The numbers in a tree\<close>

fun to_list :: "tree \<Rightarrow> cint list" where
  "to_list Null = []"
| "to_list (Leaf n c0 c1) = replicate c0 (n AND NOT 1) @ replicate c1 (n OR 1)"
| "to_list (Interior b n zero one) = to_list zero @ to_list one"

text \<open>The one-hot word of a bit position, and agreement of two words above a position.\<close>

definition one_hot :: "nat \<Rightarrow> cint" where "one_hot k = push_bit k 1"

definition agree :: "nat \<Rightarrow> cint \<Rightarrow> cint \<Rightarrow> bool" where
  "agree j x y \<longleftrightarrow> (\<forall>i>j. bit x i = bit y i)"

text \<open>
  Well-formed trees whose bit positions are below \<open>2 ^ k\<close>: the members of a node agree with
  its number above its bit position, and the bit at this position separates the subtrees.
\<close>

fun wf :: "nat \<Rightarrow> tree \<Rightarrow> bool" where
  "wf k Null = True"
| "wf k (Leaf n c0 c1) = (0 < k \<and> 0 < c0 + c1)"
| "wf k (Interior b n zero one) =
     (\<exists>j<k. 0 < j \<and> j \<le> 30 \<and> b = one_hot j \<and> wf j zero \<and> wf j one \<and>
       \<not> (zero = Null \<and> one = Null) \<and>
       (\<forall>x \<in> set (to_list zero). agree j x n \<and> \<not> bit x j) \<and>
       (\<forall>x \<in> set (to_list one). agree j x n \<and> bit x j))"

lemma wf_mono: "wf k t \<Longrightarrow> k \<le> l \<Longrightarrow> wf l t"
  by (cases t) (auto intro: less_le_trans)

lemma wf_nonempty: "wf k t \<Longrightarrow> t \<noteq> Null \<Longrightarrow> to_list t \<noteq> []"
  by (induction t arbitrary: k) auto

lemma agree_refl [simp]: "agree j x x"
  by (simp add: agree_def)

lemma agree_sym: "agree j x y \<Longrightarrow> agree j y x"
  by (simp add: agree_def)

lemma agree_trans: "agree j x y \<Longrightarrow> agree j y z \<Longrightarrow> agree j x z"
  by (simp add: agree_def)

lemma agree_mono: "agree i x y \<Longrightarrow> i \<le> j \<Longrightarrow> agree j x y"
  by (simp add: agree_def)

text \<open>Two numbers are ordered by the highest bit in which they differ.\<close>

lemma drop_bit_split: "drop_bit j (x :: nat) = 2 * drop_bit (Suc j) x + of_bool (bit x j)"
proof -
  have "drop_bit (Suc j) x = drop_bit j x div 2"
    by (simp add: drop_bit_Suc drop_bit_half)
  moreover have "bit x j \<longleftrightarrow> odd (drop_bit j x)" by (simp add: bit_iff_odd_drop_bit)
  ultimately show ?thesis by simp
qed

lemma agree_less:
  assumes "agree j x y" and "\<not> bit x j" and "bit y j"
  shows "x < y"
proof -
  have "drop_bit (Suc j) x = drop_bit (Suc j) y"
    using assms(1) by (intro bit_word_eqI) (simp add: bit_simps agree_def)
  then have "drop_bit (Suc j) (unat x) = drop_bit (Suc j) (unat y)"
    by (metis unat_drop_bit_eq)
  then have "drop_bit j (unat x) < drop_bit j (unat y)"
    using assms(2,3) drop_bit_split [of j "unat x"] drop_bit_split [of j "unat y"]
    by (simp add: bit_unsigned_iff)
  then have "unat x div 2 ^ j < unat y div 2 ^ j" by (simp add: drop_bit_eq_div)
  then have "unat x < unat y" by (metis div_le_mono not_less)
  then show ?thesis by (simp add: word_less_nat_alt)
qed

lemma leaf_bits:
  "agree 0 (n AND NOT 1) n" "\<not> bit (n AND NOT 1) 0" "agree 0 (n OR 1) n" "bit (n OR 1 :: cint) 0"
proof -
  have "bit (NOT 1 :: cint) i \<longleftrightarrow> 0 < i \<and> i < 32" for i
    by (auto simp: bit_not_iff bit_1_iff possible_bit_def simp del: bit.compl_one)
  moreover have small: "bit n i \<Longrightarrow> i < 32" for i using bit32_high [of i n] not_less by blast
  ultimately show "agree 0 (n AND NOT 1) n" "\<not> bit (n AND NOT 1) 0"
    unfolding agree_def bit_and_iff using small by blast+
  show "agree 0 (n OR 1) n" "bit (n OR 1 :: cint) 0"
    by (simp_all add: agree_def bit_or_iff bit_1_iff)
qed

lemma sorted_to_list: "wf k t \<Longrightarrow> sorted (to_list t)"
proof (induction t arbitrary: k)
  case (Leaf n c0 c1)
  have "n AND NOT 1 < n OR 1"
    by (rule agree_less [OF agree_trans [OF leaf_bits(1) agree_sym [OF leaf_bits(3)]]
          leaf_bits(2) leaf_bits(4)])
  then have "n AND NOT 1 \<le> n OR 1" by (rule less_imp_le)
  then show ?case by (simp add: sorted_append)
next
  case (Interior b n zero one)
  then obtain j where "wf j zero" "wf j one"
    "\<forall>x \<in> set (to_list zero). agree j x n \<and> \<not> bit x j" "\<forall>x \<in> set (to_list one). agree j x n \<and> bit x j"
    by auto
  moreover from this have "x < y" if "x \<in> set (to_list zero)" "y \<in> set (to_list one)" for x y
    using that agree_less agree_trans agree_sym by blast
  ultimately show ?case using Interior.IH by (auto simp: sorted_append intro: less_imp_le)
qed simp

section \<open>Taking numbers takes a prefix\<close>

lemma take_count_spec:
  "take_count room c x = (replicate (min room c) x, room - min room c, c - min room c)"
  by (induction room c x rule: take_count.induct) auto

lemma take_numbers_2_spec:
  "take_numbers_2 t room = (out, room', t') \<Longrightarrow>
   out = take room (to_list t) \<and> to_list t' = drop room (to_list t) \<and> room' = room - length out"
proof (induction t arbitrary: room out room' t')
  case Null
  then show ?case by simp
next
  case (Leaf n c0 c1)
  have "to_list (if a = 0 \<and> b = 0 then Null else Leaf n a b) = to_list (Leaf n a b)" for a b
    by simp
  then have "to_list t' = replicate (c0 - min room c0) (n AND NOT 1) @
      replicate (c1 - min (room - min room c0) c1) (n OR 1)"
    and "out = replicate (min room c0) (n AND NOT 1) @ replicate (min (room - min room c0) c1) (n OR 1)"
    and "room' = room - min room c0 - min (room - min room c0) c1"
    using Leaf by (auto simp only: take_numbers_2.simps Let_def take_count_spec prod.case prod.inject
        to_list.simps)
  then show ?case
    by (cases "c0 \<le> room"; cases "c1 \<le> room - c0") simp_all
next
  case (Interior b n zero one)
  obtain out0 r0 z where z: "take_numbers_2 zero room = (out0, r0, z)" by (cases "take_numbers_2 zero room")
  obtain out1 r1 w where w: "take_numbers_2 one r0 = (out1, r1, w)" by (cases "take_numbers_2 one r0")
  have "to_list (if z = Null \<and> w = Null then Null else Interior b n z w) = to_list z @ to_list w"
    by auto
  moreover have "out = out0 @ out1" "room' = r1"
    "t' = (if z = Null \<and> w = Null then Null else Interior b n z w)"
    using Interior.prems z w by auto
  moreover note Interior.IH(1) [OF z] Interior.IH(2) [OF w]
  moreover have "room - min (length (to_list zero)) room = room - length (to_list zero)" by simp
  ultimately show ?case by (cases "length (to_list zero) \<le> room") simp_all
qed

lemma take_numbers_2_wf: "wf k t \<Longrightarrow> take_numbers_2 t room = (out, room', t') \<Longrightarrow> wf k t'"
proof (induction t arbitrary: k room out room' t')
  case (Leaf n c0 c1)
  then show ?case by (auto simp: take_count_spec Let_def)
next
  case (Interior b n zero one)
  obtain out0 r0 z where z: "take_numbers_2 zero room = (out0, r0, z)" by (cases "take_numbers_2 zero room")
  obtain out1 r1 w where w: "take_numbers_2 one r0 = (out1, r1, w)" by (cases "take_numbers_2 one r0")
  have sub: "set (to_list z) \<subseteq> set (to_list zero)" "set (to_list w) \<subseteq> set (to_list one)"
    using take_numbers_2_spec [OF z] take_numbers_2_spec [OF w] set_drop_subset by metis+
  obtain j where j: "j < k" "0 < j" "j \<le> 30" "b = one_hot j" "wf j zero" "wf j one"
    "\<forall>x \<in> set (to_list zero). agree j x n \<and> \<not> bit x j" "\<forall>x \<in> set (to_list one). agree j x n \<and> bit x j"
    using Interior.prems(1) by auto
  have "wf j z" "wf j w" using Interior.IH(1) [OF j(5) z] Interior.IH(2) [OF j(6) w] by blast+
  moreover have "t' = (if z = Null \<and> w = Null then Null else Interior b n z w)"
    using Interior.prems(2) z w by auto
  ultimately show ?case using j sub by (auto intro!: exI [of _ j])
qed simp

section \<open>Bit positions as words\<close>

lemma bit_pos_eq: "one_hot k = 2 ^ k"
  by (simp add: one_hot_def push_bit_eq_mult)

lemma one_hot_0: "one_hot 0 = 1"
  by (simp add: one_hot_def)

lemma bit_range_bits:
  assumes "k \<le> j" and "j \<le> 30"
  shows "bit (bit_range (one_hot j) (one_hot k)) i \<longleftrightarrow> k < i \<and> i \<le> j"
proof -
  have h: "higher_bits (one_hot m) = NOT (mask (Suc m))" for m
  proof -
    have "higher_bits (one_hot m) = - (2 ^ Suc m)"
      unfolding higher_bits_def bit_pos_eq by simp
    then show ?thesis by (simp only: minus_exp_eq_not_mask)
  qed
  show ?thesis
    unfolding bit_range_def not_higher_bits_def h using assms
    by (auto simp: bit_simps possible_bit_def simp del: mask_Suc_exp)
qed

lemma one_hot_and: "j < 32 \<Longrightarrow> one_hot j AND w = 0 \<longleftrightarrow> \<not> bit (w :: cint) j"
  by (metis and.commute and_exp_eq_0_iff_not_bit bit_pos_eq)

lemma one_hot_less:
  assumes "k \<le> 30" and "j \<le> 30"
  shows "one_hot k <s (one_hot j :: cint) \<longleftrightarrow> k < j"
proof -
  have "sint (one_hot m :: cint) = 2 ^ m" if "m \<le> 30" for m
  proof -
    have "(2 :: int) ^ m < 2 ^ 31" using that by (intro power_strict_increasing) auto
    moreover have "(0 :: int) \<le> 2 ^ m" by simp
    ultimately have "signed_take_bit 31 (2 ^ m :: int) = 2 ^ m"
      by (intro signed_take_bit_int_eq_self) linarith+
    moreover have "(one_hot m :: cint) = word_of_int (2 ^ m)" by (simp add: bit_pos_eq)
    ultimately show ?thesis by (simp only: sint_sbintrunc') simp
  qed
  then show ?thesis using assms by (simp add: word_sless_alt)
qed

lemma one_hot_half: "0 < j \<Longrightarrow> j \<le> 30 \<Longrightarrow> signed_drop_bit 1 (one_hot j) = (one_hot (j - 1) :: cint)"
  unfolding one_hot_def by (rule bit_word_eqI) (auto simp: bit_simps)

text \<open>The search for the highest bit in which a number differs.\<close>

lemma locate_spec:
  assumes "\<And>i. j < i \<Longrightarrow> \<not> bit diff i" and "diff \<noteq> 0" and "j \<le> 30"
  shows "\<exists>m\<le>j. locate (one_hot j) diff = Some (one_hot m) \<and> bit diff m \<and> (\<forall>i>m. \<not> bit diff i)"
  using assms
proof (induction j)
  case 0
  have "\<exists>i. bit diff i"
  proof (rule ccontr)
    assume "\<nexists>i. bit diff i"
    then have "diff = 0" by (intro bit_word_eqI) simp
    then show False using 0 by simp
  qed
  then obtain i where "bit diff i" ..
  then have "bit diff 0" using 0 by (metis gr0I)
  then show ?case using 0 one_hot_and [of 0 diff] by (simp add: locate.simps)
next
  case (Suc j)
  show ?case
  proof (cases "bit diff (Suc j)")
    case True
    then have "locate (one_hot (Suc j)) diff = Some (one_hot (Suc j))"
      using Suc.prems(3) one_hot_and [of "Suc j" diff] locate.simps [of "one_hot (Suc j)" diff] by simp
    then show ?thesis using True Suc.prems by blast
  next
    case False
    have "\<not> bit diff i" if "j < i" for i using that False Suc.prems(1) [of i] by (cases "i = Suc j") auto
    then obtain m where "m \<le> j" "locate (one_hot j) diff = Some (one_hot m)"
      "bit diff m" "\<forall>i>m. \<not> bit diff i"
      using Suc.IH Suc.prems by auto
    moreover have "locate (one_hot (Suc j)) diff = locate (one_hot j) diff"
      using False Suc.prems(3) one_hot_and [of "Suc j" diff] one_hot_half [of "Suc j"]
        locate.simps [of "one_hot (Suc j)" diff] by simp
    ultimately show ?thesis by (metis le_SucI)
  qed
qed

section \<open>Adding keeps the invariant and adds one member\<close>

lemma create_leaf_spec:
  "0 < k \<Longrightarrow> wf k (create_leaf x)" "to_list (create_leaf x) = [x]" "create_leaf x \<noteq> Null"
proof -
  have "x AND 1 = of_bool (bit x 0)" by (simp add: and_one_eq bit_0 mod_2_eq_odd)
  moreover have "x AND NOT 1 = x" if "\<not> bit x 0"
  proof (rule bit_word_eqI)
    fix i show "bit (x AND NOT 1) i = bit x i"
      using leaf_bits(1) [of x] leaf_bits(2) [of x] that by (cases i) (auto simp: agree_def)
  qed
  moreover have "x OR 1 = x" if "bit x 0"
  proof (rule bit_word_eqI)
    fix i show "bit (x OR 1) i = bit x i"
      using leaf_bits(3) [of x] leaf_bits(4) [of x] that by (cases i) (auto simp: agree_def)
  qed
  ultimately show "0 < k \<Longrightarrow> wf k (create_leaf x)" "to_list (create_leaf x) = [x]" "create_leaf x \<noteq> Null"
    by (cases "bit x 0"; simp add: create_leaf_def)+
qed

text \<open>
  The difference that \<^verbatim>\<open>add_number\<close> computes between a number and a node at bit position
  \<open>2 ^ k\<close> when it looks from bit position \<open>2 ^ j\<close>.
\<close>

lemma diff_bits:
  assumes "k \<le> j" and "j \<le> 30"
  shows "bit (bit_range (one_hot j) (one_hot k) AND (x XOR y)) i \<longleftrightarrow>
    k < i \<and> i \<le> j \<and> bit x i \<noteq> bit y i"
  by (auto simp: bit_and_iff bit_xor_iff bit_range_bits [OF assms])

lemma inject_spec:
  assumes "m \<le> j" "j \<le> 30" "k < m" and "wf (Suc k) t" "t \<noteq> Null"
    and mem: "\<And>y. y \<in> set (to_list t) \<Longrightarrow> agree k y n" and diff: "bit x m \<noteq> bit n m"
    and above: "\<forall>i>m. bit x i = bit n i"
  shows "wf (Suc j) (inject (one_hot m) x t) \<and>
    mset (to_list (inject (one_hot m) x t)) = add_mset x (mset (to_list t))"
proof -
  have t: "wf m t" using assms(3,4) wf_mono by (metis Suc_leI)
  have leaf: "wf m (create_leaf x)" "to_list (create_leaf x) = [x]" using create_leaf_spec assms(3) by auto
  have y: "agree m y x \<and> bit y m = bit n m" if "y \<in> set (to_list t)" for y
    using mem [OF that] above assms(3) by (auto simp: agree_def)
  have "x AND one_hot m = 0 \<longleftrightarrow> \<not> bit x m"
    using one_hot_and [of m x] assms(1,2) by (simp add: and.commute)
  then show ?thesis
    using assms(1-3,5) t leaf y diff by (auto simp: inject_def intro!: exI [of _ m])
qed

lemma difference_cases:
  fixes x n :: cint
  assumes "k < j" "j \<le> 30"
  defines "d \<equiv> bit_range (one_hot j) (one_hot k) AND (x XOR n)"
  obtains (same) "d = 0" "\<forall>i. k < i \<and> i \<le> j \<longrightarrow> bit x i = bit n i"
  | (differ) m where "d \<noteq> 0" "locate (one_hot j) d = Some (one_hot m)" "k < m" "m \<le> j"
      "bit x m \<noteq> bit n m" "\<forall>i. m < i \<and> i \<le> j \<longrightarrow> bit x i = bit n i"
proof (cases "d = 0")
  case True
  then show ?thesis using same diff_bits [of k j x n] assms by (auto simp: d_def)
next
  case False
  have b: "bit d i \<longleftrightarrow> k < i \<and> i \<le> j \<and> bit x i \<noteq> bit n i" for i
    unfolding d_def using assms by (intro diff_bits) simp_all
  have "\<not> bit d i" if "j < i" for i using b that by simp
  from locate_spec [OF this False assms(2)]
  obtain m where m: "m \<le> j" "locate (one_hot j) d = Some (one_hot m)" "bit d m" "\<forall>i>m. \<not> bit d i"
    by blast
  show ?thesis
  proof (rule differ)
    show "locate (one_hot j) d = Some (one_hot m)" by (fact m(2))
    show "d \<noteq> 0" by (fact False)
  qed (use b m in auto)
qed

lemma leaf_member:
  assumes "agree 0 n x"
  shows "\<not> bit x 0 \<Longrightarrow> n AND NOT 1 = x" "bit x 0 \<Longrightarrow> n OR 1 = x"
proof -
  show "n AND NOT 1 = x" if "\<not> bit x 0"
  proof (rule bit_word_eqI)
    fix i show "bit (n AND NOT 1) i = bit x i"
      using leaf_bits(1) [of n] leaf_bits(2) [of n] that assms by (cases i) (auto simp: agree_def)
  qed
  show "n OR 1 = x" if "bit x 0"
  proof (rule bit_word_eqI)
    fix i show "bit (n OR 1) i = bit x i"
      using leaf_bits(3) [of n] leaf_bits(4) [of n] that assms by (cases i) (auto simp: agree_def)
  qed
qed

lemma leaf_members: "y \<in> set (to_list (Leaf n c0 c1)) \<Longrightarrow> agree 0 y n"
  using leaf_bits(1,3) [of n] by (auto split: if_splits)

lemma add_from_leaf:
  assumes j: "j \<le> 30" and c: "0 < c0 + c1" and mem: "agree j n x"
  shows "\<exists>t'. add_from (one_hot j) x (Leaf n c0 c1) = Some t' \<and> wf (Suc j) t' \<and>
    mset (to_list t') = add_mset x (mset (to_list (Leaf n c0 c1)))"
proof -
  let ?b = "one_hot j :: cint" and ?d = "bit_range (one_hot j) (one_hot 0) AND (x XOR n)"
  have ge: "1 \<le>s ?b" "1 <s ?b \<longleftrightarrow> 0 < j"
    using one_hot_less [of j 0] one_hot_less [of 0 j] j by (simp_all add: one_hot_0 signed.not_less [symmetric])
  have one: "x AND 1 \<noteq> 0 \<longleftrightarrow> bit x 0" by (simp add: and_one_eq bit_0 mod_2_eq_odd)
  have here: ?thesis if same: "agree 0 n x" and d: "0 < j \<longrightarrow> ?d = 0"
  proof -
    have "add_from ?b x (Leaf n c0 c1) =
        Some (if bit x 0 then Leaf n c0 (c1 + 1) else Leaf n (c0 + 1) c1)"
      using ge d one by (simp add: Let_def one_hot_0)
    then show ?thesis using leaf_member [OF same] by simp
  qed
  show ?thesis
  proof (cases "0 < j")
    case False
    then show ?thesis using here mem by simp
  next
    case True
    show ?thesis
    proof (cases rule: difference_cases [OF True j, of x n, case_names same differ])
      case same
      have "agree 0 n x" using same(2) mem unfolding agree_def by (metis not_le)
      then show ?thesis using here same(1) by simp
    next
      case (differ m)
      have "bit x i = bit n i" if "m < i" for i
        using differ(6) mem that by (cases "i \<le> j") (auto simp: agree_def)
      then have "wf (Suc j) (inject (one_hot m) x (Leaf n c0 c1)) \<and>
          mset (to_list (inject (one_hot m) x (Leaf n c0 c1))) = add_mset x (mset (to_list (Leaf n c0 c1)))"
        using differ j c leaf_members by (intro inject_spec [of m j 0 _ n]) auto
      moreover have "add_from ?b x (Leaf n c0 c1) = Some (inject (one_hot m) x (Leaf n c0 c1))"
        using ge True differ(1,2) by (simp add: Let_def one_hot_0)
      ultimately show ?thesis by blast
    qed
  qed
qed

lemma add_from_spec:
  assumes "wf (Suc j) t" "j \<le> 30" and "\<And>y. y \<in> set (to_list t) \<Longrightarrow> agree j y x"
  shows "\<exists>t'. add_from (one_hot j) x t = Some t' \<and> wf (Suc j) t' \<and>
    mset (to_list t') = add_mset x (mset (to_list t))"
  using assms
proof (induction t arbitrary: j)
  case Null
  have "1 \<le>s one_hot j" using one_hot_less [of j 0] Null(2) by (simp add: one_hot_0 signed.not_less [symmetric])
  then show ?case using create_leaf_spec by simp
next
  case (Leaf n c0 c1)
  obtain y where y: "y \<in> set (to_list (Leaf n c0 c1))"
    using wf_nonempty [OF Leaf(1)] last_in_set by blast
  then have "agree j n x"
    using Leaf(3) [OF y] leaf_members [OF y] agree_mono [of 0 y n j] agree_trans agree_sym by blast
  then show ?case using add_from_leaf Leaf by auto
next
  case (Interior b n zero one)
  obtain i where i: "i < Suc j" "0 < i" "i \<le> 30" "b = one_hot i" "wf i zero" "wf i one"
    "\<not> (zero = Null \<and> one = Null)"
    and z: "\<And>y. y \<in> set (to_list zero) \<Longrightarrow> agree i y n \<and> \<not> bit y i"
    and o: "\<And>y. y \<in> set (to_list one) \<Longrightarrow> agree i y n \<and> bit y i"
    using Interior.prems(1) by auto
  let ?t = "Interior b n zero one"
    and ?d = "bit_range (one_hot j) (one_hot i) AND (x XOR n)"
  have "to_list ?t \<noteq> []" by (rule wf_nonempty [OF Interior.prems(1)]) simp
  then obtain y where y: "y \<in> set (to_list ?t)" using last_in_set by blast
  then have "y \<in> set (to_list zero) \<or> y \<in> set (to_list one)" by simp
  then have "agree i y n" using z o by blast
  then have "agree j y n" by (rule agree_mono) (use i(1) in simp)
  then have mem: "agree j n x" using Interior.prems(3) [OF y] agree_trans agree_sym by blast
  have ge: "1 \<le>s one_hot j" "b <s one_hot j \<longleftrightarrow> i < j" "1 <s b"
    using one_hot_less [of j 0] one_hot_less [of i j] one_hot_less [of 0 i] Interior.prems(2) i
    by (simp_all add: one_hot_0 signed.not_less [symmetric])
  have here: ?case if same: "agree i n x" and d: "i < j \<longrightarrow> ?d = 0"
  proof -
    have half: "signed_drop_bit 1 b = one_hot (i - 1)" "wf (Suc (i - 1)) zero" "wf (Suc (i - 1)) one"
      "i - 1 \<le> 30" using one_hot_half [of i] i by simp_all
    have bit: "b AND x \<noteq> 0 \<longleftrightarrow> bit x i" using one_hot_and [of i x] i by simp
    have step: "add_from (one_hot j) x ?t =
        (if bit x i then map_option (Interior b n zero) (add_from (one_hot (i - 1)) x one)
         else map_option (\<lambda>z. Interior b n z one) (add_from (one_hot (i - 1)) x zero))"
    proof (cases "i < j")
      case True
      then show ?thesis using ge d i(4) bit half(1) by (simp add: Let_def)
    next
      case False
      then have "j = i" using i(1) by simp
      then show ?thesis using ge i(4) bit half(1) by (simp add: Let_def)
    qed
    show ?thesis
    proof (cases "bit x i")
      case True
      have "agree (i - 1) y x" if "y \<in> set (to_list one)" for y
        using o [OF that] True same by (auto simp: agree_def)
          (metis Suc_lessI i(2) less_Suc_eq_le Suc_pred not_less_eq)+
      then obtain t' where "add_from (one_hot (i - 1)) x one = Some t'" "wf i t'"
        "mset (to_list t') = add_mset x (mset (to_list one))"
        using Interior.IH(2) [OF half(3,4)] i(2) by auto
      moreover from this have "y \<in> set (to_list t') \<longleftrightarrow> y = x \<or> y \<in> set (to_list one)" for y
        by (metis insert_iff set_mset_add_mset_insert set_mset_mset)
      moreover have "t' \<noteq> Null" using calculation(3) by auto
      ultimately show ?thesis
        using step True i z o agree_sym [OF same] by (auto intro!: exI [of _ i])
    next
      case False
      have "agree (i - 1) y x" if "y \<in> set (to_list zero)" for y
        using z [OF that] False same by (auto simp: agree_def)
          (metis Suc_lessI i(2) less_Suc_eq_le Suc_pred not_less_eq)+
      then obtain t' where "add_from (one_hot (i - 1)) x zero = Some t'" "wf i t'"
        "mset (to_list t') = add_mset x (mset (to_list zero))"
        using Interior.IH(1) [OF half(2,4)] i(2) by auto
      moreover from this have "y \<in> set (to_list t') \<longleftrightarrow> y = x \<or> y \<in> set (to_list zero)" for y
        by (metis insert_iff set_mset_add_mset_insert set_mset_mset)
      moreover have "t' \<noteq> Null" using calculation(3) by auto
      ultimately show ?thesis
        using step False i z o agree_sym [OF same] by (auto intro!: exI [of _ i])
    qed
  qed
  show ?case
  proof (cases "i < j")
    case False
    then show ?thesis using here mem i(1) by (simp add: less_Suc_eq)
  next
    case True
    show ?thesis
    proof (cases rule: difference_cases [OF True Interior.prems(2), of x n, case_names same differ])
      case same
      have "agree i n x" using same(2) mem unfolding agree_def by (metis not_le)
      then show ?thesis using here same(1) by simp
    next
      case (differ m)
      have "bit x k = bit n k" if "m < k" for k
        using differ(6) mem that by (cases "k \<le> j") (auto simp: agree_def)
      then have "wf (Suc j) (inject (one_hot m) x ?t) \<and>
          mset (to_list (inject (one_hot m) x ?t)) = add_mset x (mset (to_list ?t))"
        using differ Interior.prems(2) i z o
        by (intro inject_spec [of m j i _ n]) (auto intro!: exI [of _ i])
      moreover have "add_from (one_hot j) x ?t = Some (inject (one_hot m) x ?t)"
        using ge True differ(1,2) i(4) by (simp add: Let_def)
      ultimately show ?thesis by blast
    qed
  qed
qed

text \<open>A tree as the program builds it from numbers that are not negative.\<close>

definition tree_ok :: "tree \<Rightarrow> bool" where
  "tree_ok t \<longleftrightarrow> wf 31 t \<and> (\<forall>x \<in> set (to_list t). \<not> bit x 31)"

lemma negative_iff: "sint (x :: cint) < 0 \<longleftrightarrow> bit x 31"
  using bit_last_iff [of x] by simp

lemma agree_30: "\<not> bit x 31 \<Longrightarrow> \<not> bit y 31 \<Longrightarrow> agree 30 x y"
  unfolding agree_def
proof (intro allI impI)
  fix i :: nat assume "\<not> bit x 31" "\<not> bit y 31" "30 < i"
  then show "bit x i = bit y i" by (cases "i = 31") simp_all
qed

lemma add_number_spec:
  assumes "tree_ok t" and "\<not> bit x 31"
  shows "\<exists>t'. add_number x t = Some t' \<and> tree_ok t' \<and> mset (to_list t') = add_mset x (mset (to_list t))"
proof -
  have "\<exists>t'. add_from (one_hot 30) x t = Some t' \<and> wf (Suc 30) t' \<and>
      mset (to_list t') = add_mset x (mset (to_list t))"
    using assms agree_30 by (intro add_from_spec) (auto simp: tree_ok_def)
  then obtain t' where "add_number x t = Some t'" "wf 31 t'" "mset (to_list t') = add_mset x (mset (to_list t))"
    by (auto simp: add_number_def MAX_BITS_def one_hot_def)
  moreover from this have "set (to_list t') = insert x (set (to_list t))"
    by (metis set_mset_add_mset_insert set_mset_mset)
  ultimately show ?thesis using assms by (auto simp: tree_ok_def)
qed

lemma take_numbers_spec:
  assumes "tree_ok t" and "take_numbers t n = (out, t')"
  shows "tree_ok t' \<and> out = take n (to_list t) \<and> to_list t' = drop n (to_list t)"
proof -
  obtain room where r: "take_numbers_2 t n = (out, room, t')"
    using assms(2) by (auto simp: take_numbers_def split: prod.splits)
  then show ?thesis
    using take_numbers_2_spec [OF r] take_numbers_2_wf [OF _ r] assms(1) set_drop_subset [of n "to_list t"]
    by (auto simp: tree_ok_def)
qed

section \<open>The interface the main loop relies on\<close>

locale number_bag =
  fixes empty :: "'t"
    and add :: "cint \<Rightarrow> 't \<Rightarrow> 't option"
    and take_some :: "'t \<Rightarrow> nat \<Rightarrow> cint list \<times> 't"
    and contents :: "'t \<Rightarrow> cint list"
    and ok :: "'t \<Rightarrow> bool"
  assumes empty: "ok empty" "contents empty = []"
    and add: "ok t \<Longrightarrow> \<not> bit x 31 \<Longrightarrow>
      \<exists>t'. add x t = Some t' \<and> ok t' \<and> mset (contents t') = add_mset x (mset (contents t))"
    and take_some: "ok t \<Longrightarrow> take_some t n = (out, t') \<Longrightarrow>
      ok t' \<and> out = take n (contents t) \<and> contents t' = drop n (contents t)"
    and ascending: "ok t \<Longrightarrow> sorted (contents t)"
begin

lemma contents_of_mset: "ok t \<Longrightarrow> contents t = sorted_list_of_multiset (mset (contents t))"
  by (metis ascending sorted_list_of_multiset_mset sorted_sort_id)

text \<open>Two requests in a row give what one request for the sum gives.\<close>

lemma take_twice:
  assumes "ok t" and "take_some t m = (out, t')" and "take_some t' n = (out', t'')"
  shows "out @ out' = take (m + n) (contents t) \<and> contents t'' = drop (m + n) (contents t)"
  using take_some [OF assms(1,2)] take_some [OF _ assms(3)] by (simp add: take_add add.commute)

primrec add_all :: "cint list \<Rightarrow> 't \<Rightarrow> 't option" where
  "add_all [] t = Some t"
| "add_all (x # xs) t = Option.bind (add x t) (add_all xs)"

lemma add_all_contents:
  "ok t \<Longrightarrow> \<forall>x \<in> set xs. \<not> bit x 31 \<Longrightarrow>
   \<exists>t'. add_all xs t = Some t' \<and> ok t' \<and> mset (contents t') = mset xs + mset (contents t)"
proof (induction xs arbitrary: t)
  case (Cons x xs)
  obtain t1 where "add x t = Some t1" "ok t1" "mset (contents t1) = add_mset x (mset (contents t))"
    using add [of t x] Cons.prems by auto
  then show ?case using Cons.IH [of t1] Cons.prems by auto
qed simp

text \<open>Adding numbers and taking them all sorts them.\<close>

lemma add_then_take_sorts:
  assumes "\<forall>x \<in> set xs. \<not> bit x 31" and "length xs \<le> n"
  shows "\<exists>t t'. add_all xs empty = Some t \<and> take_some t n = (sort xs, t') \<and> contents t' = []"
proof -
  obtain t where t: "add_all xs empty = Some t" "ok t" "mset (contents t) = mset xs"
    using add_all_contents [OF empty(1) assms(1)] empty(2) by auto
  then have "contents t = sort xs" using ascending by (metis properties_for_sort)
  moreover obtain out t' where o: "take_some t n = (out, t')" by (cases "take_some t n")
  ultimately show ?thesis using t take_some [OF t(2) o] assms(2) by auto
qed

end

interpretation radix: number_bag Null add_number take_numbers to_list tree_ok
  by unfold_locales
    (simp_all add: tree_ok_def [of Null] add_number_spec take_numbers_spec,
      auto simp: tree_ok_def intro: sorted_to_list)

section \<open>The main loop\<close>

text \<open>
  \<^verbatim>\<open>write_int_buffer\<close> is a system call: \<open>wr n\<close> is how many of \<open>n\<close> numbers it writes, from the
  start of the buffer. The buffers that \<^verbatim>\<open>read_int_buffer\<close> fills are the input.
\<close>

partial_function (option) write_loop :: "(int \<Rightarrow> int) \<Rightarrow> cint list \<Rightarrow> int \<Rightarrow> cint list option" where
  "write_loop wr out_numbers to_write =
     (if 0 < to_write then
        Option.bind (write_loop wr out_numbers (to_write - wr to_write))
          (\<lambda>rest. Some (take (nat (wr to_write)) out_numbers @ rest))
      else Some [])"

function take_loop :: "(int \<Rightarrow> int) \<Rightarrow> tree \<Rightarrow> int \<Rightarrow> (tree \<times> cint list) option" where
  "take_loop wr t limit =
     (if 0 < limit then
        let take_max = (if limit < 100 then limit else 100);
            (out_numbers, t) = take_numbers t (nat take_max);
            taken = int (length out_numbers)
        in case write_loop wr out_numbers taken of None \<Rightarrow> None
           | Some written \<Rightarrow>
               if taken = 0 then Some (t, written)
               else map_option (\<lambda>(t, rest). (t, written @ rest)) (take_loop wr t (limit - taken))
      else Some (t, []))"
  by pat_completeness auto
termination
  by (relation "measure (\<lambda>(_, _, limit). nat limit)") auto

declare take_loop.simps [simp del]

definition process_number :: "(int \<Rightarrow> int) \<Rightarrow> cint \<Rightarrow> tree \<times> cint list \<Rightarrow> (tree \<times> cint list) option" where
  "process_number wr number = (\<lambda>(t, file).
     (if sint number < 0
      then map_option (\<lambda>(t, written). (t, file @ written)) (take_loop wr t (sint (- number)))
      else map_option (\<lambda>t. (t, file)) (add_number number t)))"

primrec process_buffer :: "(int \<Rightarrow> int) \<Rightarrow> cint list \<Rightarrow> tree \<times> cint list \<Rightarrow> (tree \<times> cint list) option" where
  "process_buffer wr [] s = Some s"
| "process_buffer wr (n # ns) s = Option.bind (process_number wr n s) (process_buffer wr ns)"

text \<open>The loop over the buffers ends with the first empty one; the result is the output file.\<close>

fun main_loop :: "(int \<Rightarrow> int) \<Rightarrow> cint list list \<Rightarrow> tree \<times> cint list \<Rightarrow> cint list option" where
  "main_loop wr [] (t, file) = Some file"
| "main_loop wr (buf # bufs) (t, file) =
     (if buf = [] then Some file
      else Option.bind (process_buffer wr buf (t, file)) (main_loop wr bufs))"

section \<open>The main loop against a bag of numbers\<close>

text \<open>A negative number -N takes and outputs the N smallest numbers, any other is added.\<close>

definition bag_number :: "cint \<Rightarrow> cint multiset \<times> cint list \<Rightarrow> cint multiset \<times> cint list" where
  "bag_number number = (\<lambda>(bag, file).
     (if sint number < 0
      then let xs = take (nat (sint (- number))) (sorted_list_of_multiset bag)
           in (bag - mset xs, file @ xs)
      else (add_mset number bag, file)))"

lemma write_loop_complete: "wr = (\<lambda>n. n) \<Longrightarrow> write_loop wr xs (int (length xs)) = Some xs"
  by (simp add: write_loop.simps)

lemma take_loop_spec:
  "tree_ok t \<Longrightarrow> \<exists>t'. take_loop (\<lambda>n. n) t limit = Some (t', take (nat limit) (to_list t)) \<and>
     tree_ok t' \<and> to_list t' = drop (nat limit) (to_list t)"
proof (induction "nat limit" arbitrary: t limit rule: less_induct)
  case less
  show ?case
  proof (cases "0 < limit")
    case False
    then show ?thesis using less.prems by (simp add: take_loop.simps [of _ t limit])
  next
    case True
    define k where "k = nat (if limit < 100 then limit else 100)"
    have k: "0 < k" "k \<le> nat limit" using True by (auto simp: k_def)
    obtain out t1 where o: "take_numbers t k = (out, t1)" by (cases "take_numbers t k")
    have t1: "tree_ok t1" "out = take k (to_list t)" "to_list t1 = drop k (to_list t)"
      using radix.take_some [OF less.prems o] by auto
    have step: "take_loop (\<lambda>n. n) t limit =
        (if out = [] then Some (t1, [])
         else map_option (\<lambda>(t, rest). (t, out @ rest)) (take_loop (\<lambda>n. n) t1 (limit - int (length out))))"
      using True o write_loop_complete [of "\<lambda>n. n" out]
      by (simp add: take_loop.simps [of _ t limit] k_def Let_def)
    show ?thesis
    proof (cases "out = []")
      case True
      then have "to_list t = []" using t1(2) k(1) by auto
      then show ?thesis using step t1 True by auto
    next
      case False
      then have "nat (limit - int (length out)) < nat limit" using \<open>0 < limit\<close> by simp
      from less.hyps [OF this t1(1)] obtain t2 where t2:
        "take_loop (\<lambda>n. n) t1 (limit - int (length out)) =
           Some (t2, take (nat (limit - int (length out))) (to_list t1))"
        "tree_ok t2" "to_list t2 = drop (nat (limit - int (length out))) (to_list t1)"
        by blast
      have n: "nat (limit - int (length out)) = nat limit - length out" by simp
      have "out @ take (nat limit - length out) (drop k (to_list t)) = take (nat limit) (to_list t) \<and>
          drop (nat limit - length out) (drop k (to_list t)) = drop (nat limit) (to_list t)"
      proof (cases "k \<le> length (to_list t)")
        case True
        then have "length out = k" using t1(2) by simp
        moreover have "nat limit = k + (nat limit - k)" using k(2) by simp
        ultimately show ?thesis using t1(2) by (metis add.commute drop_drop take_add)
      next
        case False
        then show ?thesis using t1(2) k(2) by simp
      qed
      then show ?thesis using step False t2 t1 unfolding n by auto
    qed
  qed
qed

lemma process_number_spec:
  assumes "tree_ok t"
  shows "\<exists>t' file'. process_number (\<lambda>n. n) x (t, file) = Some (t', file') \<and> tree_ok t' \<and>
    bag_number x (mset (to_list t), file) = (mset (to_list t'), file')"
proof (cases "sint x < 0")
  case True
  obtain t' where t': "take_loop (\<lambda>n. n) t (sint (- x)) = Some (t', take (nat (sint (- x))) (to_list t))"
    "tree_ok t'" "to_list t' = drop (nat (sint (- x))) (to_list t)"
    using take_loop_spec [OF assms, of "sint (- x)"] by blast
  have "mset (to_list t) - mset (take n (to_list t)) = mset (drop n (to_list t))" for n
    by (metis add_diff_cancel_left' append_take_drop_id mset_append)
  then show ?thesis using True t' radix.contents_of_mset [OF assms, symmetric]
    by (simp add: process_number_def bag_number_def)
next
  case False
  then obtain t' where "add_number x t = Some t'" "tree_ok t'" "mset (to_list t') = add_mset x (mset (to_list t))"
    using radix.add [OF assms, of x] by (auto simp: negative_iff)
  then show ?thesis using False by (simp add: process_number_def bag_number_def)
qed

lemma process_buffer_spec:
  "tree_ok t \<Longrightarrow> \<exists>t' outp'. process_buffer (\<lambda>n. n) xs (t, outp) = Some (t', outp') \<and> tree_ok t' \<and>
    fold bag_number xs (mset (to_list t), outp) = (mset (to_list t'), outp')"
proof (induction xs arbitrary: t outp)
  case (Cons x xs)
  obtain t1 file1 where "process_number (\<lambda>n. n) x (t, outp) = Some (t1, file1)" "tree_ok t1"
    "bag_number x (mset (to_list t), outp) = (mset (to_list t1), file1)"
    using process_number_spec [OF Cons.prems] by blast
  then show ?case using Cons.IH [of t1 file1] by simp
qed simp

lemma main_loop_spec:
  "tree_ok t \<Longrightarrow> main_loop (\<lambda>n. n) bufs (t, outp) =
     Some (snd (fold bag_number (concat (takeWhile (\<lambda>b. b \<noteq> []) bufs)) (mset (to_list t), outp)))"
proof (induction bufs arbitrary: t outp)
  case (Cons buf bufs)
  show ?case
  proof (cases "buf = []")
    case False
    obtain t1 file1 where "process_buffer (\<lambda>n. n) buf (t, outp) = Some (t1, file1)" "tree_ok t1"
      "fold bag_number buf (mset (to_list t), outp) = (mset (to_list t1), file1)"
      using process_buffer_spec [OF Cons.prems] by blast
    then show ?thesis using False Cons.IH [of t1 file1] by simp
  qed simp
qed simp

text \<open>A system call that writes one number at a time.\<close>

lemma write_loop_one: "xs \<noteq> [] \<Longrightarrow> write_loop (\<lambda>n. 1) xs (int k) = Some (replicate k (hd xs))"
proof (induction k)
  case 0
  show ?case by (simp add: write_loop.simps)
next
  case (Suc k)
  have "take (nat 1) xs = [hd xs]" using Suc.prems by (cases xs) simp_all
  then show ?case
    using Suc by (subst write_loop.simps) simp
qed

section \<open>Properties\<close>

text \<open>
  \<^verbatim>\<open>add_number\<close> returns for every number that is not negative, never reads a node
  through the wrong member of the union, and adds exactly this number to the bag; the
  tree stays well-formed, so its numbers are in ascending order from left to right.
\<close>

theorem radix_add_number:
  assumes "tree_ok t" and "0 \<le> sint number"
  shows "\<exists>t'. add_number number t = Some t' \<and> tree_ok t' \<and> sorted (to_list t') \<and>
    mset (to_list t') = add_mset number (mset (to_list t))"
  using radix.add [OF assms(1), of number] radix.ascending assms(2) negative_iff [of number] by force

theorem radix_add_number_witness:
  "\<exists>t'. add_number 5 Null = Some t' \<and> tree_ok t' \<and> sorted (to_list t') \<and>
    mset (to_list t') = add_mset 5 (mset (to_list Null))"
  by (rule radix_add_number) (simp_all add: tree_ok_def)

text \<open>
  \<^verbatim>\<open>take_numbers\<close> returns the smallest numbers of the bag in ascending order, as many
  as the buffer holds, removes exactly these, and keeps the tree well-formed.
\<close>

theorem radix_take_numbers:
  assumes "tree_ok t" and "take_numbers t max_nums = (out, t')"
  shows "out = take max_nums (sorted_list_of_multiset (mset (to_list t))) \<and>
    mset (to_list t') = mset (to_list t) - mset out \<and> tree_ok t'"
proof -
  have "mset (to_list t) - mset (take n (to_list t)) = mset (drop n (to_list t))" for n
    by (metis add_diff_cancel_left' append_take_drop_id mset_append)
  then show ?thesis using radix.take_some [OF assms] radix.contents_of_mset [OF assms(1)] by simp
qed

theorem radix_take_numbers_witness:
  "[4] = take 1 (sorted_list_of_multiset (mset (to_list (Leaf 5 2 1)))) \<and>
    mset (to_list (Leaf 5 1 1)) = mset (to_list (Leaf 5 2 1)) - mset [4] \<and> tree_ok (Leaf 5 1 1)"
  by (rule radix_take_numbers)
    (simp_all add: tree_ok_def take_numbers_def take_count_spec bit_numeral_rec)

text \<open>
  If the system call writes what it is given, the program's output is what a bag of
  numbers gives for the input up to the first empty buffer: each number that is not
  negative is added, each -N outputs the N smallest and removes them. In particular every
  call of the loop returns.
\<close>

theorem radix_main_loop:
  "main_loop (\<lambda>n. n) bufs (Null, []) =
     Some (snd (fold bag_number (concat (takeWhile (\<lambda>b. b \<noteq> []) bufs)) ({#}, [])))"
  using main_loop_spec [OF radix.empty(1)] radix.empty(2) by simp

text \<open>
  Numbers that are added and then all taken come out sorted.
\<close>

theorem radix_sorts:
  assumes "\<forall>x \<in> set xs. 0 \<le> sint x" and "length xs \<le> n"
  shows "\<exists>t t'. radix.add_all xs Null = Some t \<and> take_numbers t n = (sort xs, t') \<and> to_list t' = []"
  using radix.add_then_take_sorts [OF _ assms(2)] assms(1) negative_iff by force

theorem radix_sorts_witness:
  "\<exists>t t'. radix.add_all [7, 3, 7, 0] Null = Some t \<and> take_numbers t 4 = (sort [7, 3, 7, 0], t') \<and> to_list t' = []"
  by (rule radix_sorts) simp_all

text \<open>
  A system call that writes only a part of the numbers makes the output wrong: each
  repetition starts at the beginning of the buffer again, so a call that writes one
  number at a time outputs the first number again and again.
\<close>

theorem partial_write_repeats:
  assumes "xs \<noteq> []"
  shows "write_loop (\<lambda>n. 1) xs (int (length xs)) = Some (replicate (length xs) (hd xs))"
  using assms by (rule write_loop_one)

theorem partial_write_repeats_witness:
  "write_loop (\<lambda>n. 1) [1, 2, 3] (int (length [1, 2, 3 :: cint])) =
    Some (replicate (length [1, 2, 3 :: cint]) (hd [1, 2, 3]))"
  by (rule partial_write_repeats) simp

end
