(* ===== verification/Block_Allocator.thy ===== *)
theory Block_Allocator
  imports Prelude "HOL-Library.Signed_Division"
begin

text \<open>
  The allocator for small blocks that the RISC-V programs use, \<^verbatim>\<open>A6/lib.c\<close>, and its older
  version \<^verbatim>\<open>A5/resources/tiny_riscv/lib.c\<close>, which differs in one assignment. Pointers and
  \<^verbatim>\<open>int\<close> are 32-bit words; the memory is a map from the address of an aligned word to its
  value, and \<^verbatim>\<open>small_block_headers\<close> lies outside of it. \<open>None\<close> is an access outside that array,
  or a loop that does not end.

  The state is abstracted to the lists of free blocks of each size and the map of the
  blocks in use. The lemmas show that allocation and release keep all blocks disjoint and
  below \<^verbatim>\<open>free_space\<close>, and that a block in use is not written.
\<close>

section \<open>The code\<close>

definition SMALL_BLOCK_LIMIT :: int where "SMALL_BLOCK_LIMIT = 4096"
definition MIN_ALLOCATION :: int where "MIN_ALLOCATION = 100"
definition BLOCK_SIZE_STEP :: int where "BLOCK_SIZE_STEP = 8"
definition NUM_SIZES :: nat where "NUM_SIZES = nat (SMALL_BLOCK_LIMIT div BLOCK_SIZE_STEP)"

record heap =
  small_block_headers :: "cint list"
  free_space :: cint
  initialized :: cint
  mem :: "cint \<Rightarrow> cint"

definition init_heap :: "cint \<Rightarrow> heap \<Rightarrow> heap" where
  "init_heap heap_start h = h\<lparr>initialized := 0, free_space := heap_start\<rparr>"

text \<open>The loop that places a linked list inside a chunk; \<open>header\<close> is \<^verbatim>\<open>*header\<close>.\<close>

partial_function (option) thread_blocks :: "cint \<Rightarrow> cint \<Rightarrow> cint \<Rightarrow> cint \<Rightarrow> (cint \<Rightarrow> cint) \<Rightarrow> (cint \<times> (cint \<Rightarrow> cint)) option" where
  "thread_blocks chunk sz end_chunk header m =
     (if chunk \<le> end_chunk
      then thread_blocks chunk sz (end_chunk - sz) end_chunk (m(end_chunk := header))
      else Some (header, m))"

definition new_chunk :: "nat \<Rightarrow> cint \<Rightarrow> heap \<Rightarrow> heap option" where
  "new_chunk num_size sz h =
     (let allocation = sz * 10;
          allocation = (if sint allocation < MIN_ALLOCATION
                        then word_of_int (MIN_ALLOCATION sdiv sint sz) * sz else allocation);
          chunk = free_space h;
          end_chunk = chunk + allocation
      in case thread_blocks chunk sz (end_chunk - sz) (small_block_headers h ! num_size) (mem h) of
           None \<Rightarrow> None
         | Some (header, m) \<Rightarrow>
             Some (h\<lparr>free_space := end_chunk, small_block_headers := (small_block_headers h)[num_size := header], mem := m\<rparr>))"

definition aligned :: "cint \<Rightarrow> cint" where
  "aligned sz =
     (let offset = sz AND (word_of_int BLOCK_SIZE_STEP - 1)
      in if offset \<noteq> 0 then (sz AND NOT offset) + word_of_int BLOCK_SIZE_STEP else sz)"

text \<open>\<open>flag\<close> is what \<^verbatim>\<open>allocate\<close> assigns to \<^verbatim>\<open>initialized\<close>.\<close>

definition ready :: "cint \<Rightarrow> heap \<Rightarrow> heap" where
  "ready flag h =
     (if initialized h = 0 then h\<lparr>initialized := flag, small_block_headers := replicate NUM_SIZES 0\<rparr> else h)"

definition unlink :: "nat \<Rightarrow> cint \<Rightarrow> heap \<Rightarrow> cint \<times> heap" where
  "unlink num_size sz h =
     (let block = small_block_headers h ! num_size
      in (block + 4, h\<lparr>small_block_headers := (small_block_headers h)[num_size := mem h block],
                       mem := (mem h)(block := sz)\<rparr>))"

definition allocate_with :: "cint \<Rightarrow> cint \<Rightarrow> heap \<Rightarrow> (cint \<times> heap) option" where
  "allocate_with flag sz h =
     (let h = ready flag h
      in if sint sz < 1 then Some (0, h)
         else let sz = aligned (sz + 4);
                  num_size = sint sz sdiv BLOCK_SIZE_STEP
              in if int NUM_SIZES \<le> num_size then Some (0, h)
                 else if num_size < 0 then None
                 else case (if small_block_headers h ! nat num_size = 0 then new_chunk (nat num_size) sz h else Some h) of
                        None \<Rightarrow> None
                      | Some h \<Rightarrow> Some (unlink (nat num_size) sz h))"

definition allocate :: "cint \<Rightarrow> heap \<Rightarrow> (cint \<times> heap) option" where
  "allocate = allocate_with 1"

definition release :: "cint \<Rightarrow> heap \<Rightarrow> heap option" where
  "release memory h =
     (let chunk = memory - 4;
          num_size = sint (mem h chunk) sdiv BLOCK_SIZE_STEP
      in if num_size < 0 \<or> int NUM_SIZES \<le> num_size then None
         else Some (h\<lparr>small_block_headers := (small_block_headers h)[nat num_size := chunk],
                      mem := (mem h)(chunk := small_block_headers h ! nat num_size)\<rparr>))"

text \<open>The older version.\<close>

definition allocate_tiny :: "cint \<Rightarrow> heap \<Rightarrow> (cint \<times> heap) option" where
  "allocate_tiny = allocate_with 0"

section \<open>Sizes\<close>

lemma NUM_SIZES_512 [simp]: "NUM_SIZES = 512"
  by (simp add: NUM_SIZES_def SMALL_BLOCK_LIMIT_def BLOCK_SIZE_STEP_def)

text \<open>The size class of a request: room for it and for the size field, in steps of eight bytes.\<close>

definition class_of :: "nat \<Rightarrow> nat" where
  "class_of n = (n + 11) div 8"

lemma sdiv_8: "sint (word_of_nat (8 * k) :: cint) sdiv 8 = int k" if "k < 2 ^ 28"
proof -
  have "sint (word_of_nat (8 * k) :: cint) = int (8 * k)" using that by (intro sint_of_nat) simp
  then show ?thesis by (cases "k = 0") (simp_all add: signed_divide_int_def)
qed

lemma seven_mask: "(7 :: cint) = mask 3"
  by (simp add: mask_eq_exp_minus_1)

lemma low_bits: "w AND 7 = take_bit 3 (w :: cint)"
  by (simp only: seven_mask take_bit_eq_mask)

lemma clear_low_bits: "w AND NOT (w AND 7) = push_bit 3 (drop_bit 3 (w :: cint))"
  unfolding low_bits by (rule word32_eqI) (auto simp: bit_simps)

lemma aligned_of_nat:
  assumes "n < 2 ^ 32"
  shows "aligned (word_of_nat n) = word_of_nat (8 * ((n + 7) div 8))"
proof -
  let ?w = "word_of_nat n :: cint"
  have n: "unat ?w = n" using assms by (simp add: unat_of_nat)
  have m: "unat (?w AND 7) = n mod 8"
    unfolding low_bits unsigned_take_bit_eq [of 3 ?w, where 'a = nat] n by (simp add: take_bit_eq_mod)
  have "unat (drop_bit 3 ?w) = n div 8"
    unfolding unat_drop_bit_eq n by (simp add: drop_bit_eq_div)
  moreover have "unat (word_of_nat (n div 8) :: cint) = n div 8"
    using assms by (simp add: unat_of_nat)
  ultimately have "drop_bit 3 ?w = word_of_nat (n div 8)" by (simp only: word_unat_eq_iff)
  then have c: "?w AND NOT (?w AND 7) = word_of_nat (8 * (n div 8))"
    unfolding clear_low_bits by (simp add: push_bit_eq_mult)
  have z: "?w AND 7 = 0 \<longleftrightarrow> n mod 8 = 0" using m by (metis unat_eq_zero)
  have d: "(n + 7) div 8 = n div 8 + (n mod 8 + 7) div 8"
    using div_mult_self2 [of 8 "n mod 8 + 7" "n div 8"] by (simp add: add.commute [of _ 7] add.assoc)
  show ?thesis
  proof (cases "n mod 8 = 0")
    case True
    then have "8 * ((n + 7) div 8) = n" using d by simp
    then show ?thesis using True z by (simp add: aligned_def Let_def BLOCK_SIZE_STEP_def)
  next
    case False
    have "(n mod 8 + 7) div 8 = 1" using False by (intro div_nat_eqI) auto
    then have "8 * ((n + 7) div 8) = 8 * (n div 8) + 8" using d by simp
    then show ?thesis using False z c by (simp add: aligned_def Let_def BLOCK_SIZE_STEP_def)
  qed
qed


section \<open>Free lists\<close>

text \<open>The words linked from \<open>p\<close> are \<open>as\<close>; the list ends with the null pointer.\<close>

fun chain :: "(cint \<Rightarrow> cint) \<Rightarrow> cint \<Rightarrow> cint list \<Rightarrow> bool" where
  "chain m p [] \<longleftrightarrow> p = 0"
| "chain m p (a # as) \<longleftrightarrow> p = a \<and> a \<noteq> 0 \<and> chain m (m a) as"

lemma chain_update [simp]: "x \<notin> set as \<Longrightarrow> chain (m(x := v)) p as = chain m p as"
  by (induction as arbitrary: p) auto

lemma chain_cong: "(\<And>a. a \<in> set as \<Longrightarrow> m a = m' a) \<Longrightarrow> chain m p as = chain m' p as"
  by (induction as arbitrary: p) auto

text \<open>The \<open>n\<close> blocks of a chunk.\<close>

definition pieces :: "nat \<Rightarrow> nat \<Rightarrow> nat \<Rightarrow> cint list" where
  "pieces c s n = map (\<lambda>i. word_of_nat (c + s * i)) [0..<n]"

lemma unat_small: "n < 2 ^ 32 \<Longrightarrow> unat (word_of_nat n :: cint) = n"
  by (simp add: unat_of_nat)

lemma word_of_nat_inj: "m < 2 ^ 32 \<Longrightarrow> n < 2 ^ 32 \<Longrightarrow> (word_of_nat m :: cint) = word_of_nat n \<longleftrightarrow> m = n"
  by (metis unat_small)

lemma pieces_set: "a \<in> set (pieces c s n) \<longleftrightarrow> (\<exists>i<n. a = word_of_nat (c + s * i))"
  by (auto simp: pieces_def)

lemma pieces_Suc: "pieces c s (Suc n) = pieces c s n @ [word_of_nat (c + s * n)]"
  by (simp add: pieces_def)

lemma thread_blocks_pieces:
  assumes "0 < s" "s \<le> c" "c + s * n < 2 ^ 32" "chain m p as" "set as \<inter> set (pieces c s n) = {}"
  shows "\<exists>q m'. thread_blocks (word_of_nat c) (word_of_nat s) (word_of_nat (c + s * n) - word_of_nat s) p m = Some (q, m') \<and>
    chain m' q (pieces c s n @ as) \<and> (\<forall>a. a \<notin> set (pieces c s n) \<longrightarrow> m' a = m a)"
  using assms(3-)
proof (induction n arbitrary: p m as)
  case 0
  have "word_of_nat (c + s * 0) - word_of_nat s = (word_of_nat (c - s) :: cint)"
    using assms(2) by (simp add: of_nat_diff)
  moreover have "\<not> (word_of_nat c :: cint) \<le> word_of_nat (c - s)"
  proof -
    have "unat (word_of_nat c :: cint) = c" "unat (word_of_nat (c - s) :: cint) = c - s"
      using 0(1) by (auto intro!: unat_small)
    then show ?thesis unfolding word_le_nat_alt using assms(1,2) by linarith
  qed
  ultimately show ?case using 0(2) by (simp add: pieces_def thread_blocks.simps [of "word_of_nat c" "word_of_nat s" "word_of_nat (c - s)"])
next
  case (Suc n)
  let ?e = "word_of_nat (c + s * n) :: cint"
  have e: "word_of_nat (c + s * Suc n) - word_of_nat s = ?e" by simp
  have le: "word_of_nat c \<le> ?e"
  proof -
    have "unat (word_of_nat c :: cint) = c" "unat ?e = c + s * n"
      by (rule unat_small, use Suc.prems(1) in simp)+
    then show ?thesis unfolding word_le_nat_alt by linarith
  qed
  have "?e \<noteq> word_of_nat (c + s * i)" if "i < n" for i
  proof -
    have "s * i < s * n" using that assms(1) by simp
    moreover have "c + s * n < 2 ^ 32" using Suc.prems(1) by simp
    moreover from calculation have "c + s * i < 2 ^ 32" "c + s * i \<noteq> c + s * n" by linarith+
    ultimately show ?thesis using word_of_nat_inj [of "c + s * i" "c + s * n"] by metis
  qed
  then have fresh: "?e \<notin> set as" "?e \<notin> set (pieces c s n)"
    using Suc.prems(3) by (auto simp: pieces_Suc pieces_set simp del: of_nat_add of_nat_mult)
  have "?e \<noteq> 0" using assms(1,2) Suc.prems(1) word_of_nat_inj [of "c + s * n" 0] by simp
  then have ch: "chain (m(?e := p)) ?e (?e # as)" using fresh(1) Suc.prems(2) by simp
  have "c + s * n < 2 ^ 32" "set (?e # as) \<inter> set (pieces c s n) = {}"
    using Suc.prems(1,3) fresh(2) by (auto simp: pieces_Suc)
  from Suc.IH [OF this(1) ch this(2)]
  obtain q m' where "thread_blocks (word_of_nat c) (word_of_nat s) (?e - word_of_nat s) ?e (m(?e := p)) = Some (q, m')"
    "chain m' q (pieces c s n @ ?e # as)" "\<forall>a. a \<notin> set (pieces c s n) \<longrightarrow> m' a = (m(?e := p)) a"
    by (elim exE conjE)
  then show ?case unfolding e
    using le by (simp add: pieces_Suc thread_blocks.simps [of _ _ ?e] del: of_nat_add of_nat_mult)
qed


section \<open>The state of the heap\<close>

text \<open>
  \<open>fl k\<close> is the list of the free blocks of \<open>8 * k\<close> bytes, \<open>used\<close> maps the address of a block
  in use to its class. A block of class \<open>k\<close> at \<open>a\<close> takes the bytes of \<open>extent a k\<close>.
\<close>

definition extent :: "cint \<Rightarrow> nat \<Rightarrow> nat set" where
  "extent a k = {unat a..<unat a + 8 * k}"

definition block_in :: "(nat \<Rightarrow> cint list) \<Rightarrow> (cint \<Rightarrow> nat option) \<Rightarrow> cint \<Rightarrow> nat \<Rightarrow> bool" where
  "block_in fl used a k \<longleftrightarrow> a \<in> set (fl k) \<or> used a = Some k"

definition free_lists_ok :: "heap \<Rightarrow> (nat \<Rightarrow> cint list) \<Rightarrow> bool" where
  "free_lists_ok h fl \<longleftrightarrow> initialized h \<noteq> 0 \<and> length (small_block_headers h) = NUM_SIZES \<and>
     (\<forall>k. if k < NUM_SIZES then chain (mem h) (small_block_headers h ! k) (fl k) \<and> distinct (fl k) else fl k = [])"

definition blocks_ok :: "nat \<Rightarrow> nat \<Rightarrow> (nat \<Rightarrow> cint list) \<Rightarrow> (cint \<Rightarrow> nat option) \<Rightarrow> bool" where
  "blocks_ok lo hi fl used \<longleftrightarrow>
     (\<forall>a k. block_in fl used a k \<longrightarrow> 0 < k \<and> k < NUM_SIZES \<and> lo \<le> unat a \<and> unat a + 8 * k \<le> hi) \<and>
     (\<forall>a k b j. block_in fl used a k \<longrightarrow> block_in fl used b j \<longrightarrow> extent a k \<inter> extent b j \<noteq> {} \<longrightarrow> a = b \<and> k = j) \<and>
     (\<forall>a k. a \<in> set (fl k) \<longrightarrow> used a = None)"

definition sizes_ok :: "heap \<Rightarrow> (cint \<Rightarrow> nat option) \<Rightarrow> bool" where
  "sizes_ok h used \<longleftrightarrow> (\<forall>a k. used a = Some k \<longrightarrow> mem h a = word_of_nat (8 * k))"

definition heap_ok :: "nat \<Rightarrow> heap \<Rightarrow> (nat \<Rightarrow> cint list) \<Rightarrow> (cint \<Rightarrow> nat option) \<Rightarrow> bool" where
  "heap_ok lo h fl used \<longleftrightarrow>
     free_lists_ok h fl \<and> blocks_ok lo (unat (free_space h)) fl used \<and> sizes_ok h used \<and>
     nat SMALL_BLOCK_LIMIT \<le> lo \<and> lo \<le> unat (free_space h)"

text \<open>Room for the largest chunk, and the end of the address space above it.\<close>

definition room :: "heap \<Rightarrow> bool" where
  "room h \<longleftrightarrow> unat (free_space h) + 10 * nat SMALL_BLOCK_LIMIT < 2 ^ 32"

lemma block_extent: "0 < k \<Longrightarrow> unat a \<in> extent a k"
  by (simp add: extent_def)

text \<open>A block has one class, and its first word belongs to no other block.\<close>

lemma block_unique:
  assumes "blocks_ok lo hi fl used" "block_in fl used a k" "block_in fl used a j"
  shows "k = j"
proof -
  have "0 < k" "0 < j" using assms by (auto simp: blocks_ok_def)
  then have "extent a k \<inter> extent a j \<noteq> {}" using block_extent by blast
  then show ?thesis using assms by (auto simp: blocks_ok_def)
qed

lemma free_disjoint:
  assumes "blocks_ok lo hi fl used" "a \<in> set (fl k)" "a \<in> set (fl j)"
  shows "k = j"
  using block_unique [OF assms(1), of a k j] assms(2,3) by (simp add: block_in_def)

lemma free_not_used: "blocks_ok lo hi fl used \<Longrightarrow> used a = Some k \<Longrightarrow> a \<notin> set (fl j)"
  by (auto simp: blocks_ok_def)

lemma blocks_ok_same:
  assumes "blocks_ok lo hi fl used" "\<And>a k. block_in fl' used' a k = block_in fl used a k"
    "\<And>a k. a \<in> set (fl' k) \<Longrightarrow> used' a = None"
  shows "blocks_ok lo hi fl' used'"
  using assms(1) unfolding blocks_ok_def assms(2) by (simp add: assms(3))

text \<open>Moving a block between a free list and the blocks in use.\<close>

lemma free_unused: "blocks_ok lo hi fl used \<Longrightarrow> a \<in> set (fl k) \<Longrightarrow> used a = None"
  unfolding blocks_ok_def by blast

lemma blocks_ok_take:
  assumes "blocks_ok lo hi fl used" "fl k = a # as" "distinct (fl k)"
  shows "blocks_ok lo hi (fl(k := as)) (used(a \<mapsto> k))"
proof (rule blocks_ok_same [OF assms(1)])
  have a: "a \<in> set (fl k)" "used a = None" using free_unused [OF assms(1), of a k] assms(2) by auto
  have only: "a \<in> set (fl j) \<Longrightarrow> j = k" for j using free_disjoint [OF assms(1) a(1), of j] by simp
  show "block_in (fl(k := as)) (used(a \<mapsto> k)) b j = block_in fl used b j" for b j
    using assms(2) a by (cases "b = a"; cases "j = k") (auto simp: block_in_def)
  show "(used(a \<mapsto> k)) b = None" if "b \<in> set ((fl(k := as)) j)" for b j
  proof -
    have "b \<in> set (fl j)" "b \<noteq> a" using that assms(2,3) only [of j] by (auto split: if_splits)
    then show ?thesis using free_unused [OF assms(1)] by simp
  qed
qed

lemma blocks_ok_give:
  assumes "blocks_ok lo hi fl used" "used a = Some k"
  shows "blocks_ok lo hi (fl(k := a # fl k)) (used(a := None))"
proof (rule blocks_ok_same [OF assms(1)])
  have a: "a \<notin> set (fl j)" for j using free_not_used [OF assms] .
  show "block_in (fl(k := a # fl k)) (used(a := None)) b j = block_in fl used b j" for b j
    using assms(2) a [of j] by (cases "b = a"; cases "j = k") (auto simp: block_in_def)
  show "(used(a := None)) b = None" if "b \<in> set ((fl(k := a # fl k)) j)" for b j
    using that free_unused [OF assms(1), of b j] free_unused [OF assms(1), of b k] by (auto split: if_splits)
qed

text \<open>New free blocks at the end.\<close>

lemma piece_address:
  assumes "0 < s" "i < n" "c + s * n \<le> 2 ^ 32"
  shows "unat (word_of_nat (c + s * i) :: cint) = c + s * i" and "s * i + s \<le> s * n"
proof -
  have "s * i + s * 1 \<le> s * n"
    unfolding add_mult_distrib2 [symmetric] using assms(2) by (intro mult_le_mono) auto
  then show "s * i + s \<le> s * n" by simp
  then have "c + s * i < 2 ^ 32" using assms(1,3) by linarith
  then show "unat (word_of_nat (c + s * i) :: cint) = c + s * i" by (rule unat_small)
qed

lemma pieces_distinct: "0 < s \<Longrightarrow> c + s * n \<le> 2 ^ 32 \<Longrightarrow> distinct (pieces c s n)"
proof -
  assume s: "0 < s" "c + s * n \<le> 2 ^ 32"
  have "i = j" if "i < n" "j < n" "(word_of_nat (c + s * i) :: cint) = word_of_nat (c + s * j)" for i j
  proof -
    have "c + s * i = c + s * j"
      using piece_address(1) [OF s(1) that(1) s(2)] piece_address(1) [OF s(1) that(2) s(2)] that(3) by metis
    then show ?thesis using s(1) by simp
  qed
  then show ?thesis by (auto simp: pieces_def distinct_map intro!: inj_onI simp del: of_nat_add of_nat_mult)
qed

lemma same_piece:
  assumes "x \<in> {c + s * i..<c + s * i + s}" "x \<in> {c + s * j..<c + s * j + s}"
  shows "i = (j :: nat)"
proof -
  have "(x - c) div s = i" "(x - c) div s = j" using assms by (auto intro!: div_nat_eqI simp: algebra_simps)
  then show ?thesis by simp
qed

lemma blocks_ok_extend:
  assumes "blocks_ok lo hi fl used" "fl k = []" "0 < k" "k < NUM_SIZES" "lo \<le> hi" "hi + 8 * k * n < 2 ^ 32"
  shows "blocks_ok lo (hi + 8 * k * n) (fl(k := pieces hi (8 * k) n)) used"
proof -
  let ?fl = "fl(k := pieces hi (8 * k) n)"
  have pos: "0 < 8 * k" "hi + 8 * k * n \<le> 2 ^ 32" using assms(3,6) by auto
  have old: "0 < j \<and> j < NUM_SIZES \<and> lo \<le> unat a \<and> unat a + 8 * j \<le> hi" if "block_in fl used a j" for a j
    using assms(1) that unfolding blocks_ok_def by blast
  have cases: "block_in ?fl used a j \<longleftrightarrow> block_in fl used a j \<or> (j = k \<and> a \<in> set (pieces hi (8 * k) n))" for a j
    using assms(2) by (auto simp: block_in_def)
  have new: "\<exists>i<n. unat a = hi + 8 * k * i \<and> 8 * k * i + 8 * k \<le> 8 * k * n" if "a \<in> set (pieces hi (8 * k) n)" for a
    using that piece_address [OF pos(1) _ pos(2)] unfolding pieces_set by metis
  show ?thesis unfolding blocks_ok_def
  proof (intro conjI allI impI)
    fix a j assume "block_in ?fl used a j"
    then have "block_in fl used a j \<or> (j = k \<and> a \<in> set (pieces hi (8 * k) n))" by (simp only: cases)
    then show "0 < j" "j < NUM_SIZES" "lo \<le> unat a" "unat a + 8 * j \<le> hi + 8 * k * n"
      using old [of a j] new [of a] assms(3-5) by auto
  next
    fix a j b m
    assume "block_in ?fl used a j" "block_in ?fl used b m" and meet: "extent a j \<inter> extent b m \<noteq> {}"
    then have ab: "block_in fl used a j \<or> (j = k \<and> a \<in> set (pieces hi (8 * k) n))"
      "block_in fl used b m \<or> (m = k \<and> b \<in> set (pieces hi (8 * k) n))" by (simp_all only: cases)
    have apart: "extent a j \<inter> extent b m = {}" if "block_in fl used a j" "b \<in> set (pieces hi (8 * k) n)" for a b j m
      using old [OF that(1)] new [OF that(2)] by (auto simp: extent_def)
    consider "block_in fl used a j" "block_in fl used b m"
      | "j = k" "m = k" "a \<in> set (pieces hi (8 * k) n)" "b \<in> set (pieces hi (8 * k) n)"
      using ab meet apart [of a j b m] apart [of b m a j] by blast
    then have "a = b \<and> j = m"
    proof cases
      case 1
      then show ?thesis using assms(1) meet unfolding blocks_ok_def by blast
    next
      case 2
      obtain i i' where "unat a = hi + 8 * k * i" "unat b = hi + 8 * k * i'" using new 2(3,4) by metis
      moreover from this obtain x where "x \<in> extent a k" "x \<in> extent b k" using meet 2(1,2) by blast
      ultimately have "i = i'" by (intro same_piece [of x hi "8 * k"]) (simp_all add: extent_def)
      then show ?thesis using 2 \<open>unat a = _\<close> \<open>unat b = _\<close> by (simp add: word_unat_eq_iff)
    qed
    then show "a = b" "j = m" by auto
  next
    fix a j assume "a \<in> set (?fl j)"
    then consider "a \<in> set (fl j)" | "a \<in> set (pieces hi (8 * k) n)" by (auto split: if_splits)
    then show "used a = None"
    proof cases
      case 1
      then show ?thesis using free_unused [OF assms(1)] by simp
    next
      case 2
      have "False" if "used a = Some m" for m
      proof -
        have "0 < m" "unat a + 8 * m \<le> hi" using old [of a m] that by (auto simp: block_in_def)
        moreover have "hi \<le> unat a" using new [OF 2] by auto
        ultimately show False by linarith
      qed
      then show ?thesis by (cases "used a") auto
    qed
  qed
qed


section \<open>The operations\<close>

lemma extent_apart:
  assumes "blocks_ok lo hi fl used" "used a = Some k" "b \<in> set (fl j)"
  shows "extent a k \<inter> extent b j = {}"
proof (rule ccontr)
  assume "extent a k \<inter> extent b j \<noteq> {}"
  then have "a = b" using assms unfolding blocks_ok_def block_in_def by blast
  then show False using assms free_not_used by metis
qed

lemma release_spec:
  assumes ok: "heap_ok lo h fl used" and a: "used a = Some k"
  shows "\<exists>h'. release (a + 4) h = Some h' \<and> heap_ok lo h' (fl(k := a # fl k)) (used(a := None)) \<and>
    free_space h' = free_space h \<and> (\<forall>x. x \<noteq> a \<longrightarrow> mem h' x = mem h x)"
proof -
  have F: "free_lists_ok h fl" and B: "blocks_ok lo (unat (free_space h)) fl used" and S: "sizes_ok h used"
    using ok by (simp_all add: heap_ok_def)
  have k: "0 < k" "k < NUM_SIZES" "unat a + 8 * k \<le> unat (free_space h)"
    using B a unfolding blocks_ok_def block_in_def by blast+
  have len: "length (small_block_headers h) = NUM_SIZES" using F by (simp add: free_lists_ok_def)
  have chains: "chain (mem h) (small_block_headers h ! j) (fl j)" "distinct (fl j)" if "j < NUM_SIZES" for j
    using F that by (auto simp: free_lists_ok_def)
  have a_free: "a \<notin> set (fl j)" for j using free_not_used [OF B a] .
  let ?h = "h\<lparr>small_block_headers := (small_block_headers h)[k := a], mem := (mem h)(a := small_block_headers h ! k)\<rparr>"
  have "mem h a = word_of_nat (8 * k)" using S a by (simp add: sizes_ok_def)
  then have "sint (mem h a) sdiv BLOCK_SIZE_STEP = int k"
    using sdiv_8 [of k] k(2) by (simp add: BLOCK_SIZE_STEP_def)
  then have r: "release (a + 4) h = Some ?h" using k(2) by (simp add: release_def)
  have "lo \<le> unat a" using B a unfolding blocks_ok_def block_in_def by blast
  then have "a \<noteq> 0" using ok by (auto simp: heap_ok_def SMALL_BLOCK_LIMIT_def)
  then have "free_lists_ok ?h (fl(k := a # fl k))"
    using F a_free k(2) chains len by (auto simp: free_lists_ok_def)
  moreover have "sizes_ok ?h (used(a := None))" using S by (simp add: sizes_ok_def)
  ultimately have "heap_ok lo ?h (fl(k := a # fl k)) (used(a := None))"
    using blocks_ok_give [OF B a] ok by (simp add: heap_ok_def)
  then show ?thesis using r by auto
qed


lemma unlink_spec:
  assumes ok: "heap_ok lo h fl used" and k: "k < NUM_SIZES" "fl k = a # as"
  shows "\<exists>h'. unlink k (word_of_nat (8 * k)) h = (a + 4, h') \<and> heap_ok lo h' (fl(k := as)) (used(a \<mapsto> k)) \<and>
    free_space h' = free_space h \<and> (\<forall>x. x \<noteq> a \<longrightarrow> mem h' x = mem h x)"
proof -
  have F: "free_lists_ok h fl" and B: "blocks_ok lo (unat (free_space h)) fl used" and S: "sizes_ok h used"
    using ok by (simp_all add: heap_ok_def)
  have len: "length (small_block_headers h) = NUM_SIZES" using F by (simp add: free_lists_ok_def)
  have chains: "chain (mem h) (small_block_headers h ! j) (fl j)" "distinct (fl j)" if "j < NUM_SIZES" for j
    using F that by (auto simp: free_lists_ok_def)
  have head: "small_block_headers h ! k = a" "chain (mem h) (mem h a) as" "a \<notin> set as"
    using chains [OF k(1)] k(2) by auto
  let ?h = "h\<lparr>small_block_headers := (small_block_headers h)[k := mem h a], mem := (mem h)(a := word_of_nat (8 * k))\<rparr>"
  have only: "a \<in> set (fl j) \<Longrightarrow> j = k" for j using free_disjoint [OF B, of a k j] k(2) by simp
  have "free_lists_ok ?h (fl(k := as))"
    unfolding free_lists_ok_def
  proof (intro conjI allI)
    fix j
    show "if j < NUM_SIZES then chain (mem ?h) (small_block_headers ?h ! j) ((fl(k := as)) j) \<and> distinct ((fl(k := as)) j)
      else (fl(k := as)) j = []"
    proof (cases "j = k")
      case True
      then show ?thesis using head k chains(2) [OF k(1)] len by simp
    next
      case False
      then have "a \<notin> set (fl j)" "fl j = [] \<or> j < NUM_SIZES" using only [of j] F by (auto simp: free_lists_ok_def)
      then show ?thesis using False chains [of j] F by (auto simp: free_lists_ok_def)
    qed
  qed (use F len in \<open>simp_all add: free_lists_ok_def\<close>)
  moreover have "sizes_ok ?h (used(a \<mapsto> k))" using S by (simp add: sizes_ok_def)
  ultimately have "heap_ok lo ?h (fl(k := as)) (used(a \<mapsto> k))"
    using blocks_ok_take [OF B k(2)] chains(2) [OF k(1)] ok by (simp add: heap_ok_def)
  then show ?thesis using head by (simp add: unlink_def Let_def)
qed

text \<open>How many blocks a chunk has: ten, or as many as fit into 100 bytes.\<close>

definition chunk_blocks :: "nat \<Rightarrow> nat" where
  "chunk_blocks k = (if k = 1 then 12 else 10)"

lemma new_chunk_result:
  assumes "small_block_headers h ! k = 0" "room h" "4096 \<le> unat (free_space h)" "0 < k" "k < NUM_SIZES"
  defines "new \<equiv> pieces (unat (free_space h)) (8 * k) (chunk_blocks k)"
  shows "\<exists>q m. new_chunk k (word_of_nat (8 * k)) h =
      Some (h\<lparr>free_space := word_of_nat (unat (free_space h) + 8 * k * chunk_blocks k),
              small_block_headers := (small_block_headers h)[k := q], mem := m\<rparr>) \<and>
    chain m q new \<and> (\<forall>a. a \<notin> set new \<longrightarrow> m a = mem h a)"
    and "unat (free_space h) + 8 * k * chunk_blocks k < 2 ^ 32"
proof -
  let ?c = "unat (free_space h)" and ?n = "chunk_blocks k"
  show n: "?c + 8 * k * ?n < 2 ^ 32"
    using assms by (auto simp: chunk_blocks_def room_def SMALL_BLOCK_LIMIT_def)
  have sz: "sint (word_of_nat (8 * k) :: cint) = int (8 * k)" using assms(5) by (intro sint_of_nat) simp
  have a10: "sint (word_of_nat (8 * k * 10) :: cint) = int (8 * k * 10)" using assms(5) by (intro sint_of_nat) simp
  have alloc: "(if sint (word_of_nat (8 * k) * 10 :: cint) < MIN_ALLOCATION
      then word_of_int (MIN_ALLOCATION sdiv sint (word_of_nat (8 * k) :: cint)) * word_of_nat (8 * k)
      else word_of_nat (8 * k) * 10) = (word_of_nat (8 * k * ?n) :: cint)"
  proof (cases "k = 1")
    case True
    then show ?thesis by (simp add: MIN_ALLOCATION_def chunk_blocks_def signed_divide_int_def)
  next
    case False
    then have "\<not> int (8 * k * 10) < MIN_ALLOCATION" using assms(4) by (simp add: MIN_ALLOCATION_def)
    then show ?thesis using a10 False by (simp add: chunk_blocks_def)
  qed
  have "chain (mem h) (small_block_headers h ! k) []" using assms(1) by simp
  from thread_blocks_pieces [OF _ _ n this]
  obtain q m where t: "thread_blocks (word_of_nat ?c) (word_of_nat (8 * k)) (word_of_nat (?c + 8 * k * ?n) - word_of_nat (8 * k))
      (small_block_headers h ! k) (mem h) = Some (q, m)" "chain m q new" "\<forall>a. a \<notin> set new \<longrightarrow> m a = mem h a"
    using assms(3-5) unfolding new_def by auto
  have e: "free_space h + word_of_nat (8 * k * ?n) = word_of_nat (?c + 8 * k * ?n)" "word_of_nat ?c = free_space h"
    by simp_all
  have "new_chunk k (word_of_nat (8 * k)) h =
      Some (h\<lparr>free_space := word_of_nat (?c + 8 * k * ?n), small_block_headers := (small_block_headers h)[k := q], mem := m\<rparr>)"
    using t(1) unfolding new_chunk_def Let_def alloc e by simp
  then show "\<exists>q m. new_chunk k (word_of_nat (8 * k)) h =
      Some (h\<lparr>free_space := word_of_nat (?c + 8 * k * ?n), small_block_headers := (small_block_headers h)[k := q], mem := m\<rparr>) \<and>
    chain m q new \<and> (\<forall>a. a \<notin> set new \<longrightarrow> m a = mem h a)"
    using t by blast
qed

lemma new_chunk_spec:
  assumes ok: "heap_ok lo h fl used" and "room h" and k: "0 < k" "k < NUM_SIZES" "fl k = []"
  defines "new \<equiv> pieces (unat (free_space h)) (8 * k) (chunk_blocks k)"
  shows "\<exists>h'. new_chunk k (word_of_nat (8 * k)) h = Some h' \<and> heap_ok lo h' (fl(k := new)) used \<and>
    (\<forall>x. x \<notin> set new \<longrightarrow> mem h' x = mem h x)"
proof -
  let ?c = "unat (free_space h)" and ?n = "chunk_blocks k"
  have F: "free_lists_ok h fl" and B: "blocks_ok lo ?c fl used" and S: "sizes_ok h used"
    and lo: "4096 \<le> lo" "lo \<le> ?c"
    using ok by (simp_all add: heap_ok_def SMALL_BLOCK_LIMIT_def)
  have len: "length (small_block_headers h) = NUM_SIZES" using F by (simp add: free_lists_ok_def)
  have chains: "chain (mem h) (small_block_headers h ! j) (fl j)" "distinct (fl j)" if "j < NUM_SIZES" for j
    using F that by (auto simp: free_lists_ok_def)
  have "small_block_headers h ! k = 0" "4096 \<le> ?c" using chains(1) [OF k(2)] k(3) lo by simp_all
  from new_chunk_result [OF this(1) assms(2) this(2) k(1,2)]
  obtain q m where nc: "new_chunk k (word_of_nat (8 * k)) h = Some (h\<lparr>free_space := word_of_nat (?c + 8 * k * ?n),
      small_block_headers := (small_block_headers h)[k := q], mem := m\<rparr>)"
    and t: "chain m q new" "\<forall>a. a \<notin> set new \<longrightarrow> m a = mem h a"
    and n: "?c + 8 * k * ?n < 2 ^ 32" unfolding new_def by blast
  let ?h = "h\<lparr>free_space := word_of_nat (?c + 8 * k * ?n), small_block_headers := (small_block_headers h)[k := q], mem := m\<rparr>"
  have B': "blocks_ok lo (?c + 8 * k * ?n) (fl(k := new)) used"
    unfolding new_def using blocks_ok_extend [OF B k(3,1,2) lo(2) n] .
  have fs: "unat (free_space ?h) = ?c + 8 * k * ?n" using unat_small [OF n] by simp
  have outside: "a \<notin> set new" if "a \<in> set (fl j)" "j \<noteq> k" for a j
    using free_disjoint [OF B', of a j k] that by auto
  have "free_lists_ok ?h (fl(k := new))"
    unfolding free_lists_ok_def
  proof (intro conjI allI)
    fix j
    show "if j < NUM_SIZES then chain (mem ?h) (small_block_headers ?h ! j) ((fl(k := new)) j) \<and> distinct ((fl(k := new)) j)
      else (fl(k := new)) j = []"
    proof (cases "j = k")
      case True
      have "distinct new" unfolding new_def using k(1) n by (intro pieces_distinct) simp_all
      then show ?thesis using True t(1) k(2) len by simp
    next
      case False
      then have "chain m p (fl j) = chain (mem h) p (fl j)" for p
        using outside t(2) by (intro chain_cong) simp
      then show ?thesis using False chains [of j] F by (auto simp: free_lists_ok_def)
    qed
  qed (use F len in \<open>simp_all add: free_lists_ok_def\<close>)
  moreover have "sizes_ok ?h used"
    using S t(2) free_not_used [OF B', of _ _ k] by (simp add: sizes_ok_def)
  ultimately have "heap_ok lo ?h (fl(k := new)) used"
    using B' ok fs lo by (simp add: heap_ok_def SMALL_BLOCK_LIMIT_def)
  then show ?thesis using nc t(2) by auto
qed

lemma ready_simps [simp]: "free_space (ready f h) = free_space h" "mem (ready f h) = mem h"
  "initialized h \<noteq> 0 \<Longrightarrow> ready f h = h" "room (ready f h) = room h"
  by (simp_all add: ready_def room_def)

lemma heap_ok_ready [simp]: "heap_ok lo h fl used \<Longrightarrow> ready f h = h"
  by (simp add: heap_ok_def free_lists_ok_def)

text \<open>The requests that are served: \<^verbatim>\<open>size\<close> with the size field is rounded up to at most 4088 bytes.\<close>

definition servable :: "nat \<Rightarrow> bool" where
  "servable n \<longleftrightarrow> 0 < n \<and> n \<le> 4084"

lemma class_of_bounds:
  "servable n \<Longrightarrow> 0 < class_of n" "servable n \<Longrightarrow> class_of n < NUM_SIZES" "n + 4 \<le> 8 * class_of n"
  unfolding servable_def class_of_def by (simp_all add: div_less_iff_less_mult)

lemma request_class:
  assumes "n < 2 ^ 31"
  shows "aligned (word_of_nat n + 4) = word_of_nat (8 * class_of n)"
proof -
  have "word_of_nat n + 4 = (word_of_nat (n + 4) :: cint)" by simp
  moreover have "aligned (word_of_nat (n + 4)) = word_of_nat (8 * ((n + 4 + 7) div 8))"
    using assms by (intro aligned_of_nat) simp
  moreover have "n + 4 + 7 = n + 11" by simp
  ultimately show ?thesis by (simp only: class_of_def)
qed

lemma allocate_enter:
  assumes "servable n"
  shows "allocate_with f (word_of_nat n) h =
    (case (if small_block_headers (ready f h) ! class_of n = 0
           then new_chunk (class_of n) (word_of_nat (8 * class_of n)) (ready f h) else Some (ready f h)) of
       None \<Rightarrow> None
     | Some h \<Rightarrow> Some (unlink (class_of n) (word_of_nat (8 * class_of n)) h))"
proof -
  have n: "0 < n" "n < 2 ^ 31" using assms by (auto simp: servable_def)
  have s: "sint (word_of_nat n :: cint) = int n" using n by (intro sint_of_nat) simp
  have k: "class_of n < 512" using class_of_bounds(2) [OF assms] by simp
  then have d: "sint (word_of_nat (8 * class_of n) :: cint) sdiv BLOCK_SIZE_STEP = int (class_of n)"
    using sdiv_8 [of "class_of n"] by (simp add: BLOCK_SIZE_STEP_def)
  show ?thesis unfolding allocate_with_def Let_def request_class [OF n(2)] s d using n(1) k by (simp cong: option.case_cong)
qed

text \<open>A served request: the memory of the blocks in use is not changed.\<close>

definition untouched :: "(cint \<Rightarrow> nat option) \<Rightarrow> heap \<Rightarrow> heap \<Rightarrow> bool" where
  "untouched used h h' \<longleftrightarrow> (\<forall>b j x. used b = Some j \<longrightarrow> unat x \<in> extent b j \<longrightarrow> mem h' x = mem h x)"

lemma allocate_reuses:
  assumes ok: "heap_ok lo (ready f h) fl used" and n: "servable n" "fl (class_of n) = a # as"
  shows "\<exists>h'. allocate_with f (word_of_nat n) h = Some (a + 4, h') \<and>
    heap_ok lo h' (fl(class_of n := as)) (used(a \<mapsto> class_of n)) \<and> used a = None \<and> untouched used h h'"
proof -
  let ?k = "class_of n"
  have k: "?k < NUM_SIZES" "0 < ?k" using class_of_bounds n(1) by auto
  have F: "free_lists_ok (ready f h) fl" and B: "blocks_ok lo (unat (free_space h)) fl used"
    using ok by (simp_all add: heap_ok_def)
  have "chain (mem h) (small_block_headers (ready f h) ! ?k) (a # as)"
    using F k(1) n(2) by (auto simp: free_lists_ok_def dest: spec [of _ "class_of n"])
  then have "small_block_headers (ready f h) ! ?k \<noteq> 0" by simp
  moreover obtain h' where h': "unlink ?k (word_of_nat (8 * ?k)) (ready f h) = (a + 4, h')"
    "heap_ok lo h' (fl(?k := as)) (used(a \<mapsto> ?k))" "\<forall>x. x \<noteq> a \<longrightarrow> mem h' x = mem h x"
    using unlink_spec [OF ok k(1) n(2)] by auto
  moreover have a: "a \<in> set (fl ?k)" using n(2) by simp
  moreover have "untouched used h h'"
    unfolding untouched_def
  proof (intro allI impI)
    fix b x :: cint and j assume "used b = Some j" "unat x \<in> extent b j"
    then have "x \<noteq> a" using extent_apart [OF B _ a, of b j] block_extent [OF k(2), of a] by auto
    then show "mem h' x = mem h x" using h'(3) by simp
  qed
  ultimately show ?thesis using free_unused [OF B a] by (simp add: allocate_enter [OF n(1)])
qed

lemma allocate_spec:
  assumes ok: "heap_ok lo (ready f h) fl used" and "room h" and n: "servable n"
  shows "\<exists>a h' fl'. allocate_with f (word_of_nat n) h = Some (a + 4, h') \<and>
    heap_ok lo h' fl' (used(a \<mapsto> class_of n)) \<and> used a = None \<and> untouched used h h'"
proof (cases "fl (class_of n)")
  case (Cons a as)
  show ?thesis using allocate_reuses [OF ok n Cons] by blast
next
  case Nil
  let ?k = "class_of n" and ?h = "ready f h"
  have k: "?k < NUM_SIZES" "0 < ?k" using class_of_bounds n by auto
  define new where "new = pieces (unat (free_space h)) (8 * ?k) (chunk_blocks ?k)"
  obtain h1 where h1: "new_chunk ?k (word_of_nat (8 * ?k)) ?h = Some h1" "heap_ok lo h1 (fl(?k := new)) used"
    "\<forall>x. x \<notin> set new \<longrightarrow> mem h1 x = mem h x"
    using new_chunk_spec [OF ok _ k(2,1) Nil] assms(2) unfolding new_def by auto
  have B: "blocks_ok lo (unat (free_space h1)) (fl(?k := new)) used" using h1(2) by (simp add: heap_ok_def)
  have "chain (mem h) (small_block_headers ?h ! ?k) []"
    using ok k(1) Nil by (auto simp: heap_ok_def free_lists_ok_def dest: spec [of _ "class_of n"])
  then have enter: "allocate_with f (word_of_nat n) h = Some (unlink ?k (word_of_nat (8 * ?k)) h1)"
    using h1(1) by (simp add: allocate_enter [OF n])
  obtain a as where new: "new = a # as"
    by (cases new) (auto simp: new_def pieces_def chunk_blocks_def split: if_splits)
  have r: "ready f h1 = h1" using h1(2) by simp
  have same: "untouched used h h1"
    unfolding untouched_def
  proof (intro allI impI)
    fix b x :: cint and j assume b: "used b = Some j" "unat x \<in> extent b j"
    have "x \<notin> set new"
    proof
      assume "x \<in> set new"
      then have "extent b j \<inter> extent x ?k = {}" using extent_apart [OF B b(1), of x ?k] by simp
      then show False using b(2) block_extent [OF k(2), of x] by auto
    qed
    then show "mem h1 x = mem h x" using h1(3) by simp
  qed
  have "(fl(?k := new)) ?k = a # as" using new by simp
  from unlink_spec [OF h1(2) k(1) this]
  obtain h' where h': "unlink ?k (word_of_nat (8 * ?k)) h1 = (a + 4, h')"
    "heap_ok lo h' ((fl(?k := new))(?k := as)) (used(a \<mapsto> ?k))" "\<forall>x. x \<noteq> a \<longrightarrow> mem h' x = mem h1 x" by blast
  have a: "a \<in> set ((fl(?k := new)) ?k)" using new by simp
  have "untouched used h1 h'"
    unfolding untouched_def
  proof (intro allI impI)
    fix b x :: cint and j assume "used b = Some j" "unat x \<in> extent b j"
    then have "x \<noteq> a" using extent_apart [OF B _ a, of b j] block_extent [OF k(2), of a] by auto
    then show "mem h' x = mem h1 x" using h'(3) by simp
  qed
  then have "untouched used h h'" using same by (simp add: untouched_def)
  then show ?thesis using enter h' free_unused [OF B a] by auto
qed

section \<open>Programs that use the heap\<close>

text \<open>
  What a program sees: \<open>live\<close> maps the pointers it holds to the number of bytes it asked
  for. It may allocate while there is room, release a pointer it holds, and write a word
  inside the bytes it asked for.
\<close>

type_synonym live = "cint \<Rightarrow> nat option"

definition payload :: "cint \<Rightarrow> nat \<Rightarrow> nat set" where
  "payload p n = {unat p..<unat p + n}"

inductive heap_step :: "heap \<times> live \<Rightarrow> heap \<times> live \<Rightarrow> bool" where
  alloc: "servable n \<Longrightarrow> room h \<Longrightarrow> allocate (word_of_nat n) h = Some (p, h') \<Longrightarrow> heap_step (h, live) (h', live(p \<mapsto> n))"
| free: "live p = Some n \<Longrightarrow> release p h = Some h' \<Longrightarrow> heap_step (h, live) (h', live(p := None))"
| store: "live p = Some n \<Longrightarrow> {unat x..<unat x + 4} \<subseteq> payload p n \<Longrightarrow>
    heap_step (h, live) (h\<lparr>mem := (mem h)(x := v)\<rparr>, live)"

text \<open>The heap represents what the program sees.\<close>

definition represents :: "nat \<Rightarrow> heap \<Rightarrow> live \<Rightarrow> (nat \<Rightarrow> cint list) \<Rightarrow> (cint \<Rightarrow> nat option) \<Rightarrow> bool" where
  "represents lo h live fl used \<longleftrightarrow> heap_ok lo (ready 1 h) fl used \<and>
     (\<forall>p n. live p = Some n \<longrightarrow> initialized h \<noteq> 0 \<and> servable n \<and> used (p - 4) = Some (class_of n))"

definition live_ok :: "nat \<Rightarrow> heap \<times> live \<Rightarrow> bool" where
  "live_ok lo s \<longleftrightarrow> (\<exists>fl used. represents lo (fst s) (snd s) fl used)"

lemma represents_used:
  assumes "represents lo h live fl used" "live p = Some n"
  shows "used (p - 4) = Some (class_of n)" "heap_ok lo (ready 1 h) fl used" "blocks_ok lo (unat (free_space h)) fl used"
    "servable n" "payload p n \<subseteq> {x \<in> extent (p - 4) (class_of n). unat (p - 4) + 4 \<le> x}"
    "lo \<le> unat (p - 4)" "unat p = unat (p - 4) + 4" "unat (p - 4) + 8 * class_of n \<le> unat (free_space h)"
proof -
  show u: "used (p - 4) = Some (class_of n)" and ok: "heap_ok lo (ready 1 h) fl used" and s: "servable n"
    using assms by (auto simp: represents_def)
  then show B: "blocks_ok lo (unat (free_space h)) fl used" by (simp add: heap_ok_def)
  then show b: "lo \<le> unat (p - 4)" "unat (p - 4) + 8 * class_of n \<le> unat (free_space h)"
    using u unfolding blocks_ok_def block_in_def by blast+
  have k: "n + 4 \<le> 8 * class_of n" by (rule class_of_bounds)
  have "unat (free_space h) < 2 ^ 32" using unsigned_less [of "free_space h"] by simp
  then have "unat (p - 4) + 4 < 2 ^ 32" using b(2) k s by (simp add: servable_def)
  then have "unat (word_of_nat (unat (p - 4) + 4) :: cint) = unat (p - 4) + 4" by (rule unat_small)
  then show p: "unat p = unat (p - 4) + 4" by simp
  show "payload p n \<subseteq> {x \<in> extent (p - 4) (class_of n). unat (p - 4) + 4 \<le> x}"
    using k by (auto simp: payload_def extent_def p)
qed

lemma live_apart:
  assumes "represents lo h live fl used" "live p = Some n" "live q = Some m" "p \<noteq> q"
  shows "payload p n \<inter> payload q m = {}"
proof -
  note P = represents_used [OF assms(1,2)] and Q = represents_used [OF assms(1,3)]
  have "p - 4 \<noteq> q - 4" using assms(4) by simp
  then have "extent (p - 4) (class_of n) \<inter> extent (q - 4) (class_of m) = {}"
    using P(1,3) Q(1) unfolding blocks_ok_def block_in_def by blast
  then show ?thesis using P(5) Q(5) by blast
qed

text \<open>The size field of a block lies in no other block a program holds.\<close>

lemma size_field_apart:
  assumes "represents lo h live fl used" "live p = Some n" "live q = Some i" "q \<noteq> p" "unat x \<in> payload q i"
  shows "x \<noteq> p - 4"
proof
  note P = represents_used [OF assms(1,2)]
  assume "x = p - 4"
  have "0 < class_of n" using class_of_bounds P(4) by blast
  then have "unat (p - 4) \<in> extent (p - 4) (class_of n)" by (rule block_extent)
  moreover have "unat (p - 4) \<in> extent (q - 4) (class_of i)"
    using represents_used(5) [OF assms(1,3)] assms(5) \<open>x = p - 4\<close> by auto
  moreover have "used (q - 4) = Some (class_of i)" using represents_used(1) [OF assms(1,3)] .
  ultimately have "q - 4 = p - 4"
    using P(1,3) unfolding blocks_ok_def block_in_def by blast
  then show False using assms(4) by simp
qed

text \<open>Storing into a block leaves the lists and the size fields alone.\<close>

lemma heap_ok_store:
  assumes "heap_ok lo h fl used" "\<And>b j. block_in fl used b j \<Longrightarrow> b \<noteq> x"
  shows "heap_ok lo (h\<lparr>mem := (mem h)(x := v)\<rparr>) fl used"
proof -
  have "x \<notin> set (fl j)" "used x \<noteq> Some j" for j using assms(2) [of x j] by (auto simp: block_in_def)
  moreover from this have "used x = None" by (cases "used x") auto
  ultimately show ?thesis using assms(1) by (auto simp: heap_ok_def free_lists_ok_def sizes_ok_def)
qed

lemma store_inside:
  assumes "represents lo h live fl used" "live p = Some n" "{unat x..<unat x + 4} \<subseteq> payload p n" "block_in fl used b j"
  shows "b \<noteq> x"
proof
  note P = represents_used [OF assms(1,2)]
  assume "b = x"
  have x: "unat x \<in> payload p n" using assms(3) by auto
  have "0 < j" using P(3) assms(4) unfolding blocks_ok_def by blast
  then have "unat x \<in> extent b j" using block_extent \<open>b = x\<close> by blast
  moreover have "unat x \<in> extent (p - 4) (class_of n)" "unat (p - 4) + 4 \<le> unat x" using P(5) x by auto
  ultimately have "b = p - 4"
    using P(1,3) assms(4) unfolding blocks_ok_def block_in_def by blast
  then show False using \<open>b = x\<close> \<open>unat (p - 4) + 4 \<le> unat x\<close> by simp
qed

lemma live_ok_init:
  assumes "nat SMALL_BLOCK_LIMIT \<le> unat start"
  shows "live_ok (unat start) (init_heap start h, Map.empty)"
proof -
  have "heap_ok (unat start) (ready 1 (init_heap start h)) (\<lambda>_. []) Map.empty"
    using assms by (auto simp: heap_ok_def free_lists_ok_def blocks_ok_def sizes_ok_def block_in_def
      ready_def init_heap_def)
  then show ?thesis by (auto simp: live_ok_def represents_def)
qed

lemma represents_alloc:
  assumes "represents lo h live fl used" "room h" "servable n"
  shows "\<exists>p h'. allocate (word_of_nat n) h = Some (p, h') \<and> live p = None \<and> live_ok lo (h', live(p \<mapsto> n)) \<and>
    untouched used h h'"
proof -
  have "heap_ok lo (ready 1 h) fl used" using assms(1) by (simp add: represents_def)
  from allocate_spec [OF this assms(2,3)]
  obtain a h' fl' where a: "allocate (word_of_nat n) h = Some (a + 4, h')"
    "heap_ok lo h' fl' (used(a \<mapsto> class_of n))" "used a = None" "untouched used h h'"
    unfolding allocate_def by blast
  have "live (a + 4) = None"
  proof (rule ccontr)
    assume "live (a + 4) \<noteq> None"
    then obtain m where "live (a + 4) = Some m" by blast
    from represents_used(1) [OF assms(1) this] show False using a(3) by simp
  qed
  moreover have "represents lo h' (live(a + 4 \<mapsto> n)) fl' (used(a \<mapsto> class_of n))"
    using a(2) assms(1,3) by (auto simp: represents_def heap_ok_def free_lists_ok_def)
  ultimately show ?thesis using a(1,4) unfolding live_ok_def by (metis fst_conv snd_conv)
qed

lemma represents_release:
  assumes "represents lo h live fl used" "live p = Some n"
  shows "\<exists>h'. release p h = Some h' \<and> represents lo h' (live(p := None))
      (fl(class_of n := (p - 4) # fl (class_of n))) (used(p - 4 := None)) \<and>
    (\<forall>x. x \<noteq> p - 4 \<longrightarrow> mem h' x = mem h x)"
proof -
  note P = represents_used [OF assms]
  have r: "ready 1 h = h" using assms by (simp add: represents_def)
  from release_spec [OF P(2) [unfolded r] P(1)]
  obtain h' where h': "release p h = Some h'"
    "heap_ok lo h' (fl(class_of n := (p - 4) # fl (class_of n))) (used(p - 4 := None))"
    "\<forall>x. x \<noteq> p - 4 \<longrightarrow> mem h' x = mem h x" by auto
  moreover have "initialized h' \<noteq> 0" using h'(2) by (simp add: heap_ok_def free_lists_ok_def)
  ultimately show ?thesis using assms(1) by (auto simp: represents_def)
qed

lemma live_ok_step: "heap_step s s' \<Longrightarrow> live_ok lo s \<Longrightarrow> live_ok lo s'"
proof (induction rule: heap_step.induct)
  case (alloc n h p h' live)
  then obtain fl used where "represents lo h live fl used" by (auto simp: live_ok_def)
  from represents_alloc [OF this alloc(2,1)] show ?case using alloc(3) by auto
next
  case (free live p n h h')
  then obtain fl used where "represents lo h live fl used" by (auto simp: live_ok_def)
  from represents_release [OF this free(1)] show ?case using free(2) by (auto simp: live_ok_def)
next
  case (store live p n x h v)
  then obtain fl used where r: "represents lo h live fl used" by (auto simp: live_ok_def)
  have i: "ready 1 h = h" using r store(1) by (simp add: represents_def)
  have "heap_ok lo (h\<lparr>mem := (mem h)(x := v)\<rparr>) fl used"
    using r store_inside [OF r store(1,2)] by (intro heap_ok_store) (simp_all add: represents_def i)
  then have "represents lo (h\<lparr>mem := (mem h)(x := v)\<rparr>) live fl used"
    using r by (auto simp: represents_def)
  then show ?case by (auto simp: live_ok_def)
qed

definition reachable_heap :: "cint \<Rightarrow> heap \<times> live \<Rightarrow> bool" where
  "reachable_heap start s \<longleftrightarrow> nat SMALL_BLOCK_LIMIT \<le> unat start \<and>
     (\<exists>h. heap_step\<^sup>*\<^sup>* (init_heap start h, Map.empty) s)"

lemma reachable_live_ok: "reachable_heap start s \<Longrightarrow> live_ok (unat start) s"
proof -
  assume "reachable_heap start s"
  then obtain h where start: "nat SMALL_BLOCK_LIMIT \<le> unat start" and "heap_step\<^sup>*\<^sup>* (init_heap start h, Map.empty) s"
    by (auto simp: reachable_heap_def)
  from this(2) show ?thesis
    by (induction rule: rtranclp_induct) (use live_ok_init [OF start] live_ok_step in blast)+
qed

lemma reachable_init: "nat SMALL_BLOCK_LIMIT \<le> unat start \<Longrightarrow> reachable_heap start (init_heap start h, Map.empty)"
  by (auto simp: reachable_heap_def)

lemma reachable_step: "reachable_heap start s \<Longrightarrow> heap_step s s' \<Longrightarrow> reachable_heap start s'"
  unfolding reachable_heap_def by (meson rtranclp.rtrancl_into_rtrancl)

text \<open>The stored words of the blocks a program holds that differ between two heaps.\<close>

definition changed :: "live \<Rightarrow> heap \<Rightarrow> heap \<Rightarrow> cint set" where
  "changed live h h' = {x. \<exists>p n. live p = Some n \<and> unat x \<in> payload p n \<and> mem h' x \<noteq> mem h x}"

lemma reachable_alloc:
  assumes "reachable_heap start (h, live)" "room h" "servable m"
  shows "\<exists>q h'. allocate (word_of_nat m) h = Some (q, h') \<and> live q = None \<and>
    reachable_heap start (h', live(q \<mapsto> m)) \<and> changed live h h' = {}"
proof -
  obtain fl used where r: "represents (unat start) h live fl used"
    using reachable_live_ok [OF assms(1)] by (auto simp: live_ok_def)
  obtain q h' where a: "allocate (word_of_nat m) h = Some (q, h')" "live q = None" "untouched used h h'"
    using represents_alloc [OF r assms(2,3)] by blast
  have "mem h' x = mem h x" if "live p = Some n" "unat x \<in> payload p n" for p n x
    using represents_used(1,5) [OF r that(1)] a(3) that(2) by (auto simp: untouched_def)
  then have "changed live h h' = {}" by (auto simp: changed_def)
  then show ?thesis using a reachable_step [OF assms(1) heap_step.alloc [OF assms(3,2) a(1)]] by blast
qed

lemma reachable_release:
  assumes "reachable_heap start (h, live)" "live p = Some n"
  shows "\<exists>h'. release p h = Some h' \<and> reachable_heap start (h', live(p := None)) \<and>
    changed (live(p := None)) h h' = {} \<and> free_space h' = free_space h"
proof -
  obtain fl used where r: "represents (unat start) h live fl used"
    using reachable_live_ok [OF assms(1)] by (auto simp: live_ok_def)
  from represents_release [OF this assms(2)]
  obtain h' where h': "release p h = Some h'" "\<forall>x. x \<noteq> p - 4 \<longrightarrow> mem h' x = mem h x" by blast
  have "changed (live(p := None)) h h' = {}"
    using h'(2) size_field_apart [OF r assms(2)] by (auto simp: changed_def split: if_splits)
  moreover have "free_space h' = free_space h" using h'(1) by (auto simp: release_def Let_def split: if_splits)
  ultimately show ?thesis using h'(1) reachable_step [OF assms(1) heap_step.free] assms(2) by blast
qed

lemma reachable_store:
  "reachable_heap start (h, live) \<Longrightarrow> live p = Some n \<Longrightarrow> {unat x..<unat x + 4} \<subseteq> payload p n \<Longrightarrow>
   reachable_heap start (h\<lparr>mem := (mem h)(x := v)\<rparr>, live)"
  by (rule reachable_step [OF _ heap_step.store])

text \<open>A request takes at most one chunk from the free space.\<close>

lemma allocate_growth:
  assumes "reachable_heap start (h, live)" "room h" "servable n" "allocate (word_of_nat n) h = Some (q, h')"
  shows "unat (free_space h') \<le> unat (free_space h) + 8 * class_of n * chunk_blocks (class_of n)"
proof -
  let ?k = "class_of n" and ?h = "ready 1 h"
  have k: "0 < ?k" "?k < NUM_SIZES" using class_of_bounds assms(3) by auto
  have "4096 \<le> unat (free_space h)"
    using reachable_live_ok [OF assms(1)]
    by (auto simp: live_ok_def represents_def heap_ok_def SMALL_BLOCK_LIMIT_def)
  then have h: "room ?h" "4096 \<le> unat (free_space ?h)" using assms(2) by simp_all
  show ?thesis
  proof (cases "small_block_headers ?h ! ?k = 0")
    case True
    obtain p m where nc: "new_chunk ?k (word_of_nat (8 * ?k)) ?h = Some (?h\<lparr>free_space := word_of_nat (unat (free_space h) + 8 * ?k * chunk_blocks ?k),
        small_block_headers := (small_block_headers ?h)[?k := p], mem := m\<rparr>)"
      and fits: "unat (free_space h) + 8 * ?k * chunk_blocks ?k < 2 ^ 32"
      using new_chunk_result [OF True h k] by auto
    then show ?thesis using assms(4) True unat_small [OF fits]
      by (auto simp: allocate_def allocate_enter [OF assms(3)] unlink_def Let_def)
  next
    case False
    then show ?thesis using assms(4)
      by (auto simp: allocate_def allocate_enter [OF assms(3)] unlink_def Let_def)
  qed
qed

text \<open>A program that holds one block of ten bytes.\<close>

definition blank_heap :: heap where
  "blank_heap = \<lparr>small_block_headers = [], free_space = 0, initialized = 0, mem = \<lambda>_. 0\<rparr>"

lemma room_init: "room (init_heap 0x10000 h)"
  by (simp add: room_def init_heap_def SMALL_BLOCK_LIMIT_def)

lemma reachable_init_blank: "reachable_heap 0x10000 (init_heap 0x10000 blank_heap, Map.empty)"
  by (rule reachable_init) (simp add: SMALL_BLOCK_LIMIT_def)

lemma reachable_one: "\<exists>h q. reachable_heap 0x10000 (h, [q \<mapsto> 10])"
  using reachable_alloc [OF reachable_init_blank room_init, of 10] by (auto simp: servable_def)

section \<open>Properties\<close>

text \<open>
  C10: whatever sequence of allocations, releases and stores a program makes after
  \<^verbatim>\<open>init_heap\<close>, the bytes of the blocks it holds are disjoint and lie between the start of
  the heap and \<^verbatim>\<open>free_space\<close>, and every pointer it holds can be released.
\<close>

theorem live_blocks_disjoint:
  assumes "reachable_heap start (h, live)" and "live p = Some n"
  shows "payload p n \<subseteq> {unat start..<unat (free_space h)} \<and>
    payload p n \<inter> (\<Union>q \<in> dom live - {p}. payload q (the (live q))) = {} \<and>
    (\<exists>h'. release p h = Some h' \<and> reachable_heap start (h', live(p := None)))"
proof -
  obtain fl used where r: "represents (unat start) h live fl used"
    using reachable_live_ok [OF assms(1)] by (auto simp: live_ok_def)
  note P = represents_used [OF r assms(2)]
  have "payload p n \<subseteq> {unat start..<unat (free_space h)}" using P(5,6,8) by (auto simp: extent_def)
  moreover have "payload p n \<inter> payload q (the (live q)) = {}" if "q \<in> dom live - {p}" for q
    using live_apart [OF r assms(2), of q "the (live q)"] that by auto
  then have "payload p n \<inter> (\<Union>q \<in> dom live - {p}. payload q (the (live q))) = {}" by auto
  moreover obtain h' where h': "release p h = Some h'" using represents_release [OF r assms(2)] by blast
  moreover have "heap_step (h, live) (h', live(p := None))" using assms(2) h' by (rule heap_step.free)
  then have "reachable_heap start (h', live(p := None))" by (rule reachable_step [OF assms(1)])
  ultimately show ?thesis by blast
qed

theorem live_blocks_disjoint_witness:
  "\<exists>h q. reachable_heap 0x10000 (h, [q \<mapsto> 10]) \<and> payload q 10 \<subseteq> {unat (0x10000 :: cint)..<unat (free_space h)} \<and>
    (\<exists>h'. release q h = Some h')"
proof -
  obtain h q where r: "reachable_heap 0x10000 (h, [q \<mapsto> 10])" using reachable_one by blast
  then show ?thesis using live_blocks_disjoint [OF r, of q 10] by auto
qed

text \<open>
  C11: while there is room every request of 1 to 4084 bytes is served with a block the program
  does not hold yet, and no byte of the blocks it holds is changed.
\<close>

theorem requests_served:
  assumes "reachable_heap start (h, live)" and "room h" and "0 < m" "m \<le> 4084"
  shows "\<exists>q h'. allocate (word_of_nat m) h = Some (q, h') \<and> live q = None \<and>
    reachable_heap start (h', live(q \<mapsto> m)) \<and> changed live h h' = {}"
  using assms by (intro reachable_alloc) (simp_all add: servable_def)

theorem requests_served_witness:
  "\<exists>q h'. allocate (word_of_nat 10) (init_heap 0x10000 blank_heap) = Some (q, h') \<and> (Map.empty :: live) q = None \<and>
    reachable_heap 0x10000 (h', Map.empty(q \<mapsto> 10)) \<and> changed Map.empty (init_heap 0x10000 blank_heap) h' = {}"
  by (rule requests_served [OF reachable_init_blank room_init]) simp_all

text \<open>
  C13: a released block is the next one returned for a request of the same size class, and
  releasing it changes no byte of the other blocks.
\<close>

theorem released_block_reused:
  assumes "reachable_heap start (h, live)" and "live p = Some n"
    and "(m + 11) div 8 = (n + 11) div 8" "0 < m" "m \<le> 4084"
  shows "\<exists>h1 h2. release p h = Some h1 \<and> changed (live(p := None)) h h1 = {} \<and>
    allocate (word_of_nat m) h1 = Some (p, h2)"
proof -
  have m: "servable m" "class_of m = class_of n" using assms(3-) by (simp_all add: servable_def class_of_def)
  obtain fl used where r: "represents (unat start) h live fl used"
    using reachable_live_ok [OF assms(1)] by (auto simp: live_ok_def)
  note P = represents_used [OF r assms(2)]
  let ?fl = "fl(class_of n := (p - 4) # fl (class_of n))"
  obtain h1 where h1: "release p h = Some h1" "represents (unat start) h1 (live(p := None)) ?fl (used(p - 4 := None))"
    "\<forall>x. x \<noteq> p - 4 \<longrightarrow> mem h1 x = mem h x"
    using represents_release [OF r assms(2)] by blast
  have "heap_ok (unat start) (ready 1 h1) ?fl (used(p - 4 := None))" using h1(2) by (simp add: represents_def)
  from allocate_reuses [OF this m(1)] have "\<exists>h2. allocate (word_of_nat m) h1 = Some (p, h2)"
    unfolding allocate_def m(2) by fastforce
  moreover have "changed (live(p := None)) h h1 = {}"
    using h1(3) size_field_apart [OF r assms(2)] by (auto simp: changed_def split: if_splits)
  ultimately show ?thesis using h1(1) by blast
qed

theorem released_block_reused_witness:
  "\<exists>h q h1 h2. reachable_heap 0x10000 (h, [q \<mapsto> 10]) \<and> release q h = Some h1 \<and> allocate (word_of_nat 12) h1 = Some (q, h2)"
proof -
  obtain h q where r: "reachable_heap 0x10000 (h, [q \<mapsto> 10])" using reachable_one by blast
  show ?thesis using released_block_reused [OF r, of q 10 12] r by auto
qed

text \<open>
  Which other sizes are refused: a size below 1 or above 4084 gives the null pointer, but
  for the eleven largest \<^verbatim>\<open>int\<close> values adding the size field and rounding up overflows, and
  the array of headers is accessed at a negative index.
\<close>

theorem other_requests_refused:
  "if sint sz < 1 \<or> (4084 < sint sz \<and> sint sz \<le> 2 ^ 31 - 12) then allocate sz h = Some (0, ready 1 h)
   else sint sz \<le> 4084 \<or> allocate sz h = None"
proof (cases "sint sz < 1")
  case True
  then show ?thesis by (simp add: allocate_def allocate_with_def Let_def)
next
  case False
  define n where "n = nat (sint sz)"
  have i: "sint sz = int n" using False by (simp add: n_def)
  then have "sz = word_of_int (int n)" by (simp flip: i)
  then have sz: "sz = word_of_nat n" "sint sz = int n" using i by simp_all
  have n: "0 < n" "n < 2 ^ 31"
    using False sz(2) sint_lt [of sz] by simp_all
  let ?k = "class_of n"
  let ?d = "sint (word_of_nat (8 * ?k) :: cint) sdiv BLOCK_SIZE_STEP"
  have al: "allocate sz h = (if int NUM_SIZES \<le> ?d then Some (0, ready 1 h) else if ?d < 0 then None
      else allocate sz h)"
    using n(1) unfolding allocate_def allocate_with_def Let_def sz(2) unfolding sz(1) request_class [OF n(2)] by simp
  consider "n \<le> 4084" | "4084 < n" "n \<le> 2 ^ 31 - 12" | "2 ^ 31 - 11 \<le> n" by linarith
  then show ?thesis
  proof cases
    case 1
    then show ?thesis using sz(2) n(1) by simp
  next
    case 2
    then have "512 \<le> ?k" "?k < 2 ^ 28" by (auto simp: class_of_def div_less_iff_less_mult less_eq_div_iff_mult_less_eq)
    then have "int NUM_SIZES \<le> ?d" using sdiv_8 [of ?k] by (simp add: BLOCK_SIZE_STEP_def)
    then show ?thesis using al 2 sz(2) by simp
  next
    case 3
    have "?k = 2 ^ 28 \<or> ?k = 2 ^ 28 + 1"
    proof -
      have "2 ^ 28 \<le> ?k" "?k < 2 ^ 28 + 2"
        using 3 n(2) by (auto simp: class_of_def div_less_iff_less_mult less_eq_div_iff_mult_less_eq)
      then show ?thesis by linarith
    qed
    then have "?d < 0" by (auto simp: BLOCK_SIZE_STEP_def signed_divide_int_def)
    then have "allocate sz h = None" using al by simp
    then show ?thesis using 3 sz(2) by simp
  qed
qed

text \<open>
  In the older version \<^verbatim>\<open>allocate\<close> leaves \<^verbatim>\<open>initialized\<close> at 0, so every call forgets the free
  lists: it takes a new chunk of ten or twelve blocks each time and reuses nothing.
\<close>

theorem tiny_never_reuses:
  assumes "initialized h = 0" and "room h" and "nat SMALL_BLOCK_LIMIT \<le> unat (free_space h)" and "0 < n" "n \<le> 4084"
  shows "\<exists>h'. allocate_tiny (word_of_nat n) h = Some (free_space h + 4, h') \<and> initialized h' = 0 \<and>
    unat (free_space h') = unat (free_space h) + 8 * class_of n * chunk_blocks (class_of n)"
proof -
  let ?k = "class_of n" and ?h = "ready 0 h"
  have n: "servable n" using assms by (simp add: servable_def)
  have k: "0 < ?k" "?k < NUM_SIZES" using class_of_bounds n by auto
  have h: "small_block_headers ?h ! ?k = 0" "initialized ?h = 0" "room ?h" "4096 \<le> unat (free_space ?h)"
    using assms k by (simp_all add: ready_def room_def SMALL_BLOCK_LIMIT_def)
  let ?new = "pieces (unat (free_space h)) (8 * ?k) (chunk_blocks ?k)"
  obtain q m where nc: "new_chunk ?k (word_of_nat (8 * ?k)) ?h = Some (?h\<lparr>free_space := word_of_nat (unat (free_space h) + 8 * ?k * chunk_blocks ?k),
      small_block_headers := (small_block_headers ?h)[?k := q], mem := m\<rparr>)" "chain m q ?new"
    and fits: "unat (free_space h) + 8 * ?k * chunk_blocks ?k < 2 ^ 32"
    using new_chunk_result [OF h(1,3,4) k] by auto
  have "length (small_block_headers ?h) = NUM_SIZES" using assms(1) by (simp add: ready_def)
  moreover have "q = free_space h"
    using nc(2) by (auto simp: pieces_def chunk_blocks_def upt_rec split: if_splits)
  ultimately show ?thesis
    using nc(1) h(1,2) k(2) unat_small [OF fits]
    by (simp add: allocate_tiny_def allocate_enter [OF n] unlink_def Let_def)
qed

theorem tiny_never_reuses_witness:
  "\<exists>h'. allocate_tiny (word_of_nat 10) (init_heap 0x10000 blank_heap) = Some (free_space (init_heap 0x10000 blank_heap) + 4, h') \<and>
    initialized h' = 0 \<and> unat (free_space h') =
      unat (free_space (init_heap 0x10000 blank_heap)) + 8 * class_of 10 * chunk_blocks (class_of 10)"
  by (rule tiny_never_reuses [OF _ room_init]) (simp_all add: init_heap_def SMALL_BLOCK_LIMIT_def)

end
