(* ===== verification/Tiny_Lib.thy ===== *)
theory Tiny_Lib
  imports Prelude
begin

text \<open>
  The conversions of numbers of \<^verbatim>\<open>A6/lib.c\<close> (the same code as
  \<^verbatim>\<open>A5/resources/tiny_riscv/lib.c\<close>): \<^verbatim>\<open>str_to_uns\<close> reads a decimal number,
  \<^verbatim>\<open>uns_to_str\<close> writes one, digit by digit from the least significant, and reverses the
  buffer in place. A string is the list of its characters before the terminating zero;
  \<open>None\<close> is the empty string, for which \<^verbatim>\<open>str_to_uns\<close> reads past the zero.

  The lemmas show that the two are inverse to each other on all 2^32 values, that the
  output is the usual decimal notation, and what \<^verbatim>\<open>uns_to_str\<close> returns.
\<close>

section \<open>Operations\<close>

definition c_code :: "char \<Rightarrow> cint" where "c_code c = word_of_int (code c)"

fun str_digits :: "cint \<Rightarrow> string \<Rightarrow> cint" where
  "str_digits val [] = val"
| "str_digits val (c # cs) = str_digits (val * 10 + c_code c - c_code (CHR ''0'')) cs"

fun str_to_uns :: "string \<Rightarrow> cint option" where
  "str_to_uns [] = None"
| "str_to_uns (c # cs) = Some (str_digits (c_code c - c_code (CHR ''0'')) cs)"

text \<open>The loop that writes the digits in reverse order.\<close>

function digit_loop :: "cint \<Rightarrow> string" where
  "digit_loop val =
     (if val = 0 then [] else char_of (unat (val mod 10) + of_char (CHR ''0'')) # digit_loop (val div 10))"
  by pat_completeness auto
termination
proof (relation "measure unat")
  fix val :: cint
  assume "val \<noteq> 0"
  then have "unat val div 10 < unat val" by (simp add: unat_gt_0)
  then show "(val div 10, val) \<in> measure unat" by (simp add: unat_div_distrib)
qed simp

declare digit_loop.simps [simp del]

text \<open>The loop that swaps the characters at the two ends, which move towards each other.\<close>

function reverse_loop :: "string \<Rightarrow> nat \<Rightarrow> nat \<Rightarrow> string" where
  "reverse_loop s buffer ptr =
     (if buffer < ptr
      then reverse_loop (s[ptr := s ! buffer, buffer := s ! ptr]) (buffer + 1) (ptr - 1)
      else s)"
  by pat_completeness auto
termination
  by (relation "measure (\<lambda>(_, buffer, ptr). ptr - buffer)") auto

declare reverse_loop.simps [simp del]

text \<open>The string in the buffer and the value returned.\<close>

definition uns_to_str :: "cint \<Rightarrow> string \<times> int" where
  "uns_to_str val =
     (if val = 0 then (''0'', 1)
      else let s = digit_loop val; ptr = length s - 1
           in (reverse_loop s 0 ptr, int ptr))"

section \<open>Reversing in place\<close>

lemma reverse_loop_spec:
  "j < length s \<Longrightarrow> i \<le> Suc j \<Longrightarrow> length (reverse_loop s i j) = length s \<and>
   (\<forall>k<length s. reverse_loop s i j ! k = (if i \<le> k \<and> k \<le> j then s ! (i + j - k) else s ! k))"
proof (induction s i j rule: reverse_loop.induct)
  case (1 s i j)
  show ?case
  proof (cases "i < j")
    case False
    then have "i = j \<or> i = Suc j" using "1.prems"(2) by auto
    then show ?thesis using False by (auto simp: reverse_loop.simps [of s i j])
  next
    case True
    let ?s = "s[j := s ! i, i := s ! j]"
    have ih: "length (reverse_loop ?s (i + 1) (j - 1)) = length s"
      "\<And>k. k < length s \<Longrightarrow> reverse_loop ?s (i + 1) (j - 1) ! k =
        (if i + 1 \<le> k \<and> k \<le> j - 1 then ?s ! (i + 1 + (j - 1) - k) else ?s ! k)"
      using "1.IH" [OF True] "1.prems" True by auto
    have "reverse_loop ?s (i + 1) (j - 1) ! k = (if i \<le> k \<and> k \<le> j then s ! (i + j - k) else s ! k)"
      if "k < length s" for k
    proof -
      consider "k < i" | "k = i" | "i < k" "k < j" | "k = j" | "j < k" by linarith
      then show ?thesis
        using ih(2) [OF that] "1.prems" True that by cases (auto simp: nth_list_update)
    qed
    then show ?thesis using ih(1) True by (simp add: reverse_loop.simps [of s i j])
  qed
qed

lemma reverse_loop_rev:
  assumes "s \<noteq> []"
  shows "reverse_loop s 0 (length s - 1) = rev s"
proof (rule nth_equalityI)
  have *: "length s - 1 < length s" "0 \<le> Suc (length s - 1)" using assms by simp_all
  note spec = reverse_loop_spec [OF *]
  show "length (reverse_loop s 0 (length s - 1)) = length (rev s)" using spec by simp
  show "reverse_loop s 0 (length s - 1) ! k = rev s ! k"
    if "k < length (reverse_loop s 0 (length s - 1))" for k
    using that spec by (auto simp: rev_nth)
qed

section \<open>Decimal notation\<close>

fun decimal :: "nat \<Rightarrow> string" where
  "decimal n = (if n < 10 then [char_of (48 + n)] else decimal (n div 10) @ [char_of (48 + n mod 10)])"

declare decimal.simps [simp del]

text \<open>\<^verbatim>\<open>%d\<close> and \<^verbatim>\<open>%ld\<close> of \<^verbatim>\<open>printf\<close>, for the programs that print numbers with it.\<close>

definition print_signed :: "int \<Rightarrow> string" where
  "print_signed v = (if v < 0 then ''-'' @ decimal (nat (- v)) else decimal (nat v))"

definition print_int :: "cint \<Rightarrow> string" where
  "print_int v = print_signed (sint v)"

lemma char_of_48: "char_of (48 :: nat) = CHR ''0''"
  by (simp add: char_of_def bit_0)

lemma rev_digit_loop: "val \<noteq> 0 \<Longrightarrow> rev (digit_loop val) = decimal (unat val)"
proof (induction val rule: digit_loop.induct)
  case (1 val)
  have m: "unat (val mod 10) = unat val mod 10" "unat (val div 10) = unat val div 10"
    by (simp_all add: unat_mod_distrib unat_div_distrib)
  show ?case
  proof (cases "val div 10 = 0")
    case True
    then have "unat val < 10" using m(2) by (simp add: div_eq_0_iff)
    then show ?thesis
      using "1.prems" True m(1)
      by (simp add: digit_loop.simps [of val] digit_loop.simps [of 0] decimal.simps [of "unat val"] add.commute)
  next
    case False
    then have "\<not> unat val < 10" using m(2) by (metis div_less unat_eq_zero)
    then show ?thesis
      using "1.prems" "1.IH" False m
      by (simp add: digit_loop.simps [of val] decimal.simps [of "unat val"] add.commute)
  qed
qed

lemma uns_to_str_decimal: "fst (uns_to_str val) = decimal (unat val)"
proof (cases "val = 0")
  case True
  then show ?thesis by (simp add: uns_to_str_def decimal.simps char_of_48)
next
  case False
  then have "digit_loop val \<noteq> []" by (simp add: digit_loop.simps)
  then show ?thesis using False rev_digit_loop [OF False] reverse_loop_rev [of "digit_loop val"]
    by (simp add: uns_to_str_def Let_def)
qed

lemma uns_to_str_result: "snd (uns_to_str val) =
  (if val = 0 then int (length (decimal (unat val))) else int (length (decimal (unat val))) - 1)"
proof (cases "val = 0")
  case False
  then have "digit_loop val \<noteq> []" by (simp add: digit_loop.simps)
  then have "0 < length (digit_loop val)" by simp
  moreover have "length (digit_loop val) = length (decimal (unat val))"
    using rev_digit_loop [OF False] by (metis length_rev)
  ultimately show ?thesis using False
    by (cases "length (decimal (unat val))") (simp_all add: uns_to_str_def Let_def)
qed (simp add: uns_to_str_def decimal.simps)

lemma decimal_digit: "c \<in> set (decimal n) \<Longrightarrow> \<exists>d<10. c = char_of (48 + d :: nat)"
proof (induction n rule: decimal.induct)
  case (1 n)
  show ?case
  proof (cases "n < 10")
    case True
    then show ?thesis using "1.prems" by (auto simp: decimal.simps [of n])
  next
    case False
    then have "c \<in> set (decimal (n div 10)) \<or> c = char_of (48 + n mod 10)"
      using "1.prems" by (auto simp: decimal.simps [of n])
    moreover have "n mod 10 < 10" by simp
    ultimately show ?thesis using "1.IH" [OF False] by blast
  qed
qed

lemma length_decimal: "n < 10 ^ k \<Longrightarrow> 0 < k \<Longrightarrow> length (decimal n) \<le> k"
proof (induction n arbitrary: k rule: decimal.induct)
  case (1 n)
  show ?case
  proof (cases "n < 10")
    case True
    then show ?thesis using "1.prems" by (simp add: decimal.simps [of n])
  next
    case False
    obtain k' where k: "k = Suc k'" using "1.prems" by (cases k) auto
    then have "n div 10 < 10 ^ k'" "0 < k'"
      using "1.prems"(1) False by (auto simp: div_less_iff_less_mult mult.commute intro!: Nat.gr0I)
    then show ?thesis using "1.IH" [OF False, of k'] k False by (simp add: decimal.simps [of n])
  qed
qed

section \<open>Reading back\<close>

lemma str_digits_append: "str_digits v (cs @ [c]) = str_digits v cs * 10 + c_code c - c_code (CHR ''0'')"
  by (induction cs arbitrary: v) simp_all

lemma str_to_uns_append:
  "cs \<noteq> [] \<Longrightarrow> str_to_uns (cs @ [c]) =
   map_option (\<lambda>v. v * 10 + c_code c - c_code (CHR ''0'')) (str_to_uns cs)"
  by (cases cs) (simp_all add: str_digits_append)

lemma c_code_digit: "d < 10 \<Longrightarrow> c_code (char_of (48 + d)) - c_code (CHR ''0'') = (of_nat d :: cint)"
  by (simp add: c_code_def code_char_of)

lemma decimal_nonempty: "decimal n \<noteq> []"
  by (simp add: decimal.simps)

lemma str_to_uns_decimal: "str_to_uns (decimal n) = Some (of_nat n)"
proof (induction n rule: decimal.induct)
  case (1 n)
  show ?case
  proof (cases "n < 10")
    case True
    then show ?thesis by (simp add: decimal.simps [of n] c_code_digit)
  next
    case False
    have "str_to_uns (decimal n) =
        Some (of_nat (n div 10) * 10 + (c_code (char_of (48 + n mod 10)) - c_code (CHR ''0'')))"
      using "1.IH" [OF False] str_to_uns_append [OF decimal_nonempty] False
      by (simp add: decimal.simps [of n])
    also have "of_nat (n div 10) * 10 + (c_code (char_of (48 + n mod 10)) - c_code (CHR ''0'')) =
        (of_nat (n div 10 * 10 + n mod 10) :: cint)"
      by (simp only: c_code_digit [of "n mod 10"] of_nat_add of_nat_mult of_nat_numeral
          pos_mod_bound mod_less_divisor zero_less_numeral)
    also have "n div 10 * 10 + n mod 10 = n" by simp
    finally show ?thesis .
  qed
qed

section \<open>Properties\<close>

text \<open>
  C40: reading what \<^verbatim>\<open>uns_to_str\<close> wrote gives the number back, for every 32-bit value; the
  text is the decimal notation of the number, and the value returned is the length of the
  text for 0 and one less for any other number.
\<close>

theorem uns_to_str_roundtrip:
  "str_to_uns (fst (uns_to_str val)) = Some val \<and> fst (uns_to_str val) = decimal (unat val) \<and>
   snd (uns_to_str val) = (if val = 0 then 1 else int (length (decimal (unat val))) - 1)"
  using str_to_uns_decimal [of "unat val"] uns_to_str_result [of val]
  by (simp add: uns_to_str_decimal decimal.simps [of 0])

text \<open>
  Reading a decimal number that does not fit into 32 bits gives its value modulo 2^32.
\<close>

theorem str_to_uns_wraps: "str_to_uns (decimal n) = Some (word_of_nat n)"
  by (rule str_to_uns_decimal)

end
