(* ===== verification/Radix_Heap.thy ===== *)
theory Radix_Heap
  imports Radix_Tree Block_Allocator Tiny_Lib
begin

text \<open>
  \<^verbatim>\<open>A6/radix.c\<close> once more, on the memory of the allocator of \<^verbatim>\<open>A6/lib.c\<close>: a node is a block
  of four words, pointers are addresses, and the operations follow and overwrite pointers as
  the code does. \<open>None\<close> stands for an access outside the array of headers or for a call that
  does not return.

  A relation says that the words at an address represent a tree of \<open>Radix_Tree\<close>, and which
  blocks it takes. The lemmas show that each operation does on the memory what it does
  on the tree, changes no other word the program holds, and keeps the account of the blocks;
  so the whole program outputs what a bag of numbers gives, and holds no block at the end.
\<close>

section \<open>State\<close>

record radix_program =
  tree_variable :: cint
  heap_of :: heap

text \<open>What a \<^verbatim>\<open>struct node **\<close> points to: the variable \<^verbatim>\<open>tree\<close> or a word of a node.\<close>

datatype place = Tree_Variable | Field cint

fun deref :: "place \<Rightarrow> radix_program \<Rightarrow> cint" where
  "deref Tree_Variable s = tree_variable s"
| "deref (Field a) s = mem (heap_of s) a"

fun assign :: "place \<Rightarrow> cint \<Rightarrow> radix_program \<Rightarrow> radix_program" where
  "assign Tree_Variable v s = s\<lparr>tree_variable := v\<rparr>"
| "assign (Field a) v s = s\<lparr>heap_of := (heap_of s)\<lparr>mem := (mem (heap_of s))(a := v)\<rparr>\<rparr>"

text \<open>
  The fields of a node. The union makes \<open>at_zero\<close> and \<open>at_one\<close> the two pointers of an
  interior node and the two counters of a leaf.
\<close>

definition at_bit_pos :: "cint \<Rightarrow> place" where "at_bit_pos nptr = Field nptr"
definition at_number :: "cint \<Rightarrow> place" where "at_number nptr = Field (nptr + 4)"
definition at_zero :: "cint \<Rightarrow> place" where "at_zero nptr = Field (nptr + 8)"
definition at_one :: "cint \<Rightarrow> place" where "at_one nptr = Field (nptr + 12)"

definition node_size :: nat where "node_size = 16"

definition new_node :: "radix_program \<Rightarrow> (cint \<times> radix_program) option" where
  "new_node s = map_option (\<lambda>(nptr, h). (nptr, s\<lparr>heap_of := h\<rparr>)) (allocate (word_of_nat node_size) (heap_of s))"

definition free_node :: "cint \<Rightarrow> radix_program \<Rightarrow> radix_program option" where
  "free_node nptr s = map_option (\<lambda>h. s\<lparr>heap_of := h\<rparr>) (release nptr (heap_of s))"

section \<open>Operations\<close>

definition create_leaf_at :: "cint \<Rightarrow> radix_program \<Rightarrow> (cint \<times> radix_program) option" where
  "create_leaf_at number s =
     Option.bind (new_node s) (\<lambda>(nptr, s).
       let s = assign (at_bit_pos nptr) 1 s;
           s = assign (at_number nptr) number s;
           s = assign (at_zero nptr) (if number AND 1 = 0 then 1 else 0) s;
           s = assign (at_one nptr) (number AND 1) s
       in Some (nptr, s))"

text \<open>A new interior node above \<open>nptr\<close>, and the leaf beside it.\<close>

definition inject_at :: "cint \<Rightarrow> cint \<Rightarrow> place \<Rightarrow> cint \<Rightarrow> radix_program \<Rightarrow> radix_program option" where
  "inject_at bit_pos number parent nptr s =
     Option.bind (new_node s) (\<lambda>(nptr2, s).
       let s = assign (at_bit_pos nptr2) bit_pos s;
           s = assign (at_number nptr2) number s;
           s = assign parent nptr2 s;
           (old, fresh) = (if number AND bit_pos = 0 then (at_one nptr2, at_zero nptr2)
                           else (at_zero nptr2, at_one nptr2));
           s = assign old nptr s
       in map_option (\<lambda>(leaf, s). assign fresh leaf s) (create_leaf_at number s))"

partial_function (option) add_loop :: "cint \<Rightarrow> cint \<Rightarrow> place \<Rightarrow> radix_program \<Rightarrow> radix_program option" where
  "add_loop bit_pos number parent s =
     (if \<not> 1 \<le>s bit_pos then Some s
      else let nptr = deref parent s
        in if nptr = 0
           then map_option (\<lambda>(leaf, s). assign parent leaf s) (create_leaf_at number s)
           else let node_pos = deref (at_bit_pos nptr) s;
                    diff = (if node_pos <s bit_pos
                            then bit_range bit_pos node_pos AND (number XOR deref (at_number nptr) s) else 0);
                    at = (if node_pos <s bit_pos then node_pos else bit_pos)
             in if diff \<noteq> 0
                then Option.bind (locate bit_pos diff) (\<lambda>bit_pos. inject_at bit_pos number parent nptr s)
                else if 1 <s at
                then add_loop (signed_drop_bit 1 at) number
                       (if at AND number \<noteq> 0 then at_one nptr else at_zero nptr) s
                else let counter = (if number AND 1 \<noteq> 0 then at_one nptr else at_zero nptr)
                  in add_loop (signed_drop_bit 1 at) number parent (assign counter (deref counter s + 1) s))"

definition add_number_at :: "cint \<Rightarrow> radix_program \<Rightarrow> radix_program option" where
  "add_number_at number s = add_loop MAX_BITS number Tree_Variable s"

text \<open>\<^verbatim>\<open>while (buffer < end && count) { *buffer++ = x; count--; }\<close>, with the counter at \<open>counter\<close>.\<close>

primrec take_counted :: "nat \<Rightarrow> place \<Rightarrow> cint \<Rightarrow> radix_program \<Rightarrow> cint list \<times> nat \<times> radix_program" where
  "take_counted 0 counter x s = ([], 0, s)"
| "take_counted (Suc space) counter x s =
     (if deref counter s \<noteq> 0
      then case take_counted space counter x (assign counter (deref counter s - 1) s) of (out, r, s) \<Rightarrow> (x # out, r, s)
      else ([], Suc space, s))"

definition drop_node :: "place \<Rightarrow> cint \<Rightarrow> radix_program \<Rightarrow> radix_program option" where
  "drop_node parent nptr s = map_option (assign parent 0) (free_node nptr s)"

definition drop_empty :: "place \<Rightarrow> cint \<Rightarrow> radix_program \<Rightarrow> radix_program option" where
  "drop_empty parent nptr s =
     (if deref (at_zero nptr) s = 0 \<and> deref (at_one nptr) s = 0 then drop_node parent nptr s else Some s)"

partial_function (option) take_at :: "place \<Rightarrow> nat \<Rightarrow> radix_program \<Rightarrow> (cint list \<times> nat \<times> radix_program) option" where
  "take_at parent space s =
     (let nptr = deref parent s
      in if nptr = 0 then Some ([], space, s)
         else if deref (at_bit_pos nptr) s = 1
         then let (out0, space, s) = take_counted space (at_zero nptr) (deref (at_number nptr) s AND NOT 1) s;
                  (out1, space, s) = take_counted space (at_one nptr) (deref (at_number nptr) s OR 1) s
              in map_option (\<lambda>s. (out0 @ out1, space, s)) (drop_empty parent nptr s)
         else Option.bind (take_at (at_zero nptr) space s) (\<lambda>(out0, space, s).
              Option.bind (take_at (at_one nptr) space s) (\<lambda>(out1, space, s).
                map_option (\<lambda>s. (out0 @ out1, space, s)) (drop_empty parent nptr s))))"

definition take_numbers_at :: "nat \<Rightarrow> radix_program \<Rightarrow> (cint list \<times> radix_program) option" where
  "take_numbers_at max_nums s =
     map_option (\<lambda>(out, _, s). (out, s)) (take_at Tree_Variable max_nums s)"

partial_function (option) release_tree_at :: "cint \<Rightarrow> radix_program \<Rightarrow> radix_program option" where
  "release_tree_at nptr s =
     (if nptr = 0 then Some s
      else Option.bind
        (if 1 <s deref (at_bit_pos nptr) s
         then Option.bind (release_tree_at (deref (at_zero nptr) s) s)
                (\<lambda>s. release_tree_at (deref (at_one nptr) s) s)
         else Some s)
        (free_node nptr))"

text \<open>\<^verbatim>\<open>print_radix_tree_values\<close>: an interior node is printed with its pointers for counters.\<close>

definition node_line :: "cint \<Rightarrow> radix_program \<Rightarrow> string" where
  "node_line nptr s =
     (let show_uns = (\<lambda>v. fst (uns_to_str v))
      in ''Value: '' @ show_uns (deref (at_number nptr) s) @ '' | '' @
         ''bit_pos: '' @ show_uns (deref (at_bit_pos nptr) s) @ '' | '' @
         ''leaf.count_zero: '' @ show_uns (deref (at_zero nptr) s) @ '' | '' @
         ''leaf.count_one: '' @ show_uns (deref (at_one nptr) s) @ '' | '' @
         ''Address: '' @ show_uns nptr @ [CHR 0x0A])"

partial_function (option) print_radix_tree_values :: "cint \<Rightarrow> radix_program \<Rightarrow> string option" where
  "print_radix_tree_values nptr s =
     (if nptr = 0 then Some []
      else if deref (at_bit_pos nptr) s = 1 then Some (node_line nptr s)
      else Option.bind (print_radix_tree_values (deref (at_zero nptr) s) s) (\<lambda>zero.
           Option.bind (print_radix_tree_values (deref (at_one nptr) s) s) (\<lambda>one.
             Some (node_line nptr s @ zero @ one))))"

section \<open>The program\<close>

partial_function (option) take_loop_at :: "(int \<Rightarrow> int) \<Rightarrow> int \<Rightarrow> radix_program \<Rightarrow> (cint list \<times> radix_program) option" where
  "take_loop_at wr limit s =
     (if 0 < limit then
        let take_max = (if limit < 100 then limit else 100)
        in Option.bind (take_numbers_at (nat take_max) s) (\<lambda>(out_numbers, s).
           let taken = int (length out_numbers)
           in Option.bind (write_loop wr out_numbers taken) (\<lambda>written.
                if taken = 0 then Some (written, s)
                else Option.bind (take_loop_at wr (limit - taken) s) (\<lambda>(later, s). Some (written @ later, s))))
      else Some ([], s))"

definition process_number_at :: "(int \<Rightarrow> int) \<Rightarrow> cint \<Rightarrow> radix_program \<times> cint list \<Rightarrow> (radix_program \<times> cint list) option" where
  "process_number_at wr number = (\<lambda>(s, file).
     (if sint number < 0
      then map_option (\<lambda>(written, s). (s, file @ written)) (take_loop_at wr (sint (- number)) s)
      else map_option (\<lambda>s. (s, file)) (add_number_at number s)))"

primrec process_buffer_at :: "(int \<Rightarrow> int) \<Rightarrow> cint list \<Rightarrow> radix_program \<times> cint list \<Rightarrow> (radix_program \<times> cint list) option" where
  "process_buffer_at wr [] s = Some s"
| "process_buffer_at wr (n # ns) s = Option.bind (process_number_at wr n s) (process_buffer_at wr ns)"

fun main_loop_at :: "(int \<Rightarrow> int) \<Rightarrow> cint list list \<Rightarrow> radix_program \<times> cint list \<Rightarrow> (radix_program \<times> cint list) option" where
  "main_loop_at wr [] s = Some s"
| "main_loop_at wr (buf # bufs) s =
     (if buf = [] then Some s else Option.bind (process_buffer_at wr buf s) (main_loop_at wr bufs))"

text \<open>
  The system calls are parameters: \<open>open_file\<close>, the buffers \<open>read_int_buffer\<close> fills from an open
  file, and how many numbers a write writes. The output is the text on the console with
  either the exit status or the numbers written to the output file and the final state.
  Closing the files, whose results are ignored, is left out.
\<close>

datatype radix_outcome =
    Terminated string int
  | Finished string "cint list" radix_program

definition radix_main ::
  "(string \<Rightarrow> string \<Rightarrow> cint) \<Rightarrow> (cint \<Rightarrow> cint list list) \<Rightarrow> (int \<Rightarrow> int) \<Rightarrow> string list \<Rightarrow> radix_program \<Rightarrow> radix_outcome option"
where
  "radix_main open_file read_int_buffer wr argv s =
     (if length argv \<noteq> 3 then Some (Terminated (''Use: radix input-file output-file'' @ [CHR 0x0A]) (- 1))
      else let in_file = open_file (argv ! 1) ''r'';
               text_in = (if sint in_file < 0 then ''Could not open input file'' @ [CHR 0x0A] else []);
               out_file = open_file (argv ! 2) ''w'';
               text_out = (if sint out_file < 0 then ''Could not open output file'' @ [CHR 0x0A] else [])
           in Option.bind (main_loop_at wr (read_int_buffer in_file) (s, [])) (\<lambda>(s, file).
                map_option (Finished (text_in @ text_out) file) (release_tree_at (tree_variable s) s)))"

text \<open>\<^verbatim>\<open>_start\<close> sets up the heap; the variable \<^verbatim>\<open>tree\<close> is \<^verbatim>\<open>NULL\<close> in the data of the program.\<close>

definition start_up :: "heap \<Rightarrow> radix_program" where
  "start_up h = \<lparr>tree_variable = 0, heap_of = init_heap 0x2000000 h\<rparr>"


section \<open>The blocks and words a program holds\<close>

lemmas field_defs = at_bit_pos_def at_number_def at_zero_def at_one_def

text \<open>The words of a set of nodes, and the places a program with these nodes may use.\<close>

definition fields :: "cint set \<Rightarrow> place set" where
  "fields A = (\<Union>p \<in> A. {at_bit_pos p, at_number p, at_zero p, at_one p})"

definition places :: "cint set \<Rightarrow> place set" where
  "places A = insert Tree_Variable (fields A)"

lemma field_in [simp]:
  "p \<in> A \<Longrightarrow> at_bit_pos p \<in> fields A" "p \<in> A \<Longrightarrow> at_number p \<in> fields A"
  "p \<in> A \<Longrightarrow> at_zero p \<in> fields A" "p \<in> A \<Longrightarrow> at_one p \<in> fields A"
  by (auto simp: fields_def)

lemma fields_Un [simp]: "fields {} = {}" "fields (A \<union> B) = fields A \<union> fields B" "Tree_Variable \<notin> fields A"
  by (auto simp: fields_def field_defs)

lemma fields_insert: "fields (insert p A) = fields {p} \<union> fields A"
  by (auto simp: fields_def)

lemma fields_mono: "A \<subseteq> B \<Longrightarrow> fields A \<subseteq> fields B" "A \<subseteq> B \<Longrightarrow> places A \<subseteq> places B"
  by (auto simp: fields_def places_def)

lemma fields_in_places: "A \<subseteq> B \<Longrightarrow> fields A \<subseteq> places B"
  by (auto simp: fields_def places_def)

lemma fields_places: "pl \<in> fields A \<Longrightarrow> pl \<in> places A" "fields A \<subseteq> places A" "Tree_Variable \<in> places A"
  by (auto simp: places_def)

lemma fields_distinct [simp]:
  "at_bit_pos p \<noteq> at_number p" "at_bit_pos p \<noteq> at_zero p" "at_bit_pos p \<noteq> at_one p"
  "at_number p \<noteq> at_bit_pos p" "at_zero p \<noteq> at_bit_pos p" "at_one p \<noteq> at_bit_pos p"
  "at_number p \<noteq> at_zero p" "at_number p \<noteq> at_one p" "at_zero p \<noteq> at_number p" "at_one p \<noteq> at_number p"
  "at_zero p \<noteq> at_one p" "at_one p \<noteq> at_zero p"
  by (simp_all add: field_defs)

lemma deref_assign [simp]: "deref pl (assign pl v s) = v" "pl \<noteq> pl' \<Longrightarrow> deref pl (assign pl' v s) = deref pl s"
  by (cases pl; cases pl'; simp)+

text \<open>The program holds the nodes of \<open>G\<close>, and has room for \<open>k\<close> more.\<close>

definition held :: "cint set \<Rightarrow> live" where
  "held G = (\<lambda>p. if p \<in> G then Some node_size else None)"

definition good :: "cint \<Rightarrow> radix_program \<Rightarrow> cint set \<Rightarrow> bool" where
  "good start s G \<longleftrightarrow> reachable_heap start (heap_of s, held G)"

definition nodes_left :: "nat \<Rightarrow> radix_program \<Rightarrow> bool" where
  "nodes_left k s \<longleftrightarrow> unat (free_space (heap_of s)) + 240 * k + 10 * nat SMALL_BLOCK_LIMIT < 2 ^ 32"

text \<open>Two states agree on some places.\<close>

definition keeps :: "place set \<Rightarrow> radix_program \<Rightarrow> radix_program \<Rightarrow> bool" where
  "keeps P s s' \<longleftrightarrow> (\<forall>pl \<in> P. deref pl s' = deref pl s)"

lemma keeps_refl [simp]: "keeps P s s"
  by (simp add: keeps_def)

lemma keeps_trans: "keeps P s s' \<Longrightarrow> keeps P s' s'' \<Longrightarrow> keeps P s s''"
  by (simp add: keeps_def)

lemma keeps_mono: "keeps P s s' \<Longrightarrow> Q \<subseteq> P \<Longrightarrow> keeps Q s s'"
  by (auto simp: keeps_def)

lemma keeps_assign: "pl \<notin> P \<Longrightarrow> keeps P s (assign pl v s)"
  unfolding keeps_def using deref_assign(2) by metis

lemma keepsD: "keeps P s s' \<Longrightarrow> pl \<in> P \<Longrightarrow> deref pl s' = deref pl s"
  by (simp add: keeps_def)

lemma held_simps [simp]: "(held G)(p \<mapsto> node_size) = held (insert p G)" "(held G)(p := None) = held (G - {p})"
  "held G p = None \<longleftrightarrow> p \<notin> G" "p \<in> G \<Longrightarrow> held G p = Some node_size"
  by (auto simp: held_def)

lemma nodes_left_mono: "nodes_left k s \<Longrightarrow> j \<le> k \<Longrightarrow> nodes_left j s"
  by (simp add: nodes_left_def)

lemma nodes_left_assign [simp]: "nodes_left k (assign pl v s) = nodes_left k s"
  by (cases pl) (simp_all add: nodes_left_def)

lemma node_servable: "servable node_size"
  by (simp add: servable_def node_size_def)

text \<open>A node lies in the heap without wrapping around, so its words are inside of its block.\<close>

lemma good_node:
  assumes "good start s G" "p \<in> G"
  shows "0 < unat p" "unat p + 16 \<le> 2 ^ 32"
proof -
  have r: "reachable_heap start (heap_of s, held G)" using assms(1) by (simp add: good_def)
  have "payload p node_size \<subseteq> {unat start..<unat (free_space (heap_of s))}"
  proof -
    obtain fl used where rep: "represents (unat start) (heap_of s) (held G) fl used"
      using reachable_live_ok [OF r] by (auto simp: live_ok_def)
    show ?thesis
      using represents_used(5,6,8) [OF rep, of p node_size] assms(2) by (auto simp: extent_def)
  qed
  then have p: "unat p \<in> {unat start..<unat (free_space (heap_of s))}"
    "unat p + 15 \<in> {unat start..<unat (free_space (heap_of s))}"
    by (auto simp: payload_def node_size_def)
  have "nat SMALL_BLOCK_LIMIT \<le> unat start" using r by (simp add: reachable_heap_def)
  then show "0 < unat p" using p(1) by (simp add: SMALL_BLOCK_LIMIT_def)
  have "unat (free_space (heap_of s)) < 2 ^ 32" using unsigned_less [of "free_space (heap_of s)"] by simp
  then show "unat p + 16 \<le> 2 ^ 32" using p(2) by simp
qed

lemma good_words:
  assumes "good start s G" "p \<in> G" "i \<le> 12"
  shows "unat (p + word_of_nat i) = unat p + i"
proof -
  have "unat p + i < 2 ^ 32" using good_node [OF assms(1,2)] assms(3) by simp
  then have "unat (word_of_nat (unat p + i) :: cint) = unat p + i" by (rule unat_small)
  then show ?thesis by simp
qed

lemma fields_payload:
  assumes "good start s G" "Field x \<in> fields {p}" "p \<in> G"
  shows "{unat x..<unat x + 4} \<subseteq> payload p node_size"
proof -
  obtain i where i: "x = p + word_of_nat i" "i \<le> 12"
  proof -
    have "x = p + word_of_nat 0 \<or> x = p + word_of_nat 4 \<or> x = p + word_of_nat 8 \<or> x = p + word_of_nat 12"
      using assms(2) by (auto simp: fields_def field_defs)
    then show thesis using that [of 0] that [of 4] that [of 8] that [of 12] by auto
  qed
  then have "unat x = unat p + i" using good_words [OF assms(1,3)] by simp
  then show ?thesis using i(2) by (auto simp: payload_def node_size_def)
qed

lemma fieldsE: "pl \<in> fields A \<Longrightarrow> (\<And>p x. p \<in> A \<Longrightarrow> pl = Field x \<Longrightarrow> Field x \<in> fields {p} \<Longrightarrow> thesis) \<Longrightarrow> thesis"
  by (auto simp: fields_def field_defs)

lemma fields_disjoint:
  assumes "good start s G" "A \<subseteq> G" "B \<subseteq> G" "A \<inter> B = {}"
  shows "fields A \<inter> fields B = {}"
proof (rule equals0I)
  fix pl assume pl: "pl \<in> fields A \<inter> fields B"
  obtain p x where p: "p \<in> A" "pl = Field x" "Field x \<in> fields {p}" using pl fieldsE by blast
  obtain q where "q \<in> B" "Field x \<in> fields {q}" using pl p(2) fieldsE by blast
  note pq = p(1) this(1) p(3) this(2)
  then have in_g: "p \<in> G" "q \<in> G" "p \<noteq> q" using assms(2-) by auto
  obtain fl used where rep: "represents (unat start) (heap_of s) (held G) fl used"
    using assms(1) reachable_live_ok by (fastforce simp: good_def live_ok_def)
  have "payload p node_size \<inter> payload q node_size = {}"
    using live_apart [OF rep, of p node_size q node_size] in_g by simp
  moreover have "unat x \<in> payload p node_size" "unat x \<in> payload q node_size"
    using fields_payload [OF assms(1) pq(3) in_g(1)] fields_payload [OF assms(1) pq(4) in_g(2)] by auto
  ultimately show False by blast
qed

lemma good_assign: "good start s G \<Longrightarrow> pl \<in> places G \<Longrightarrow> good start (assign pl v s) G"
proof (cases pl)
  case (Field x)
  assume g: "good start s G" and "pl \<in> places G"
  then have "Field x \<in> fields G" using Field by (simp add: places_def)
  then obtain p where p: "p \<in> G" "Field x \<in> fields {p}" using fieldsE by blast
  have "{unat x..<unat x + 4} \<subseteq> payload p node_size" using fields_payload [OF g p(2,1)] .
  moreover have "held G p = Some node_size" using p(1) by simp
  ultimately have "reachable_heap start ((heap_of s)\<lparr>mem := (mem (heap_of s))(x := v)\<rparr>, held G)"
    using g by (intro reachable_store) (simp_all add: good_def)
  then show ?thesis using Field by (simp add: good_def)
qed (simp add: good_def)

lemma keeps_unchanged:
  assumes "good start s G" "changed (held G) (heap_of s) h' = {}"
  shows "keeps (places G) s (s\<lparr>heap_of := h'\<rparr>)"
  unfolding keeps_def
proof
  fix pl assume "pl \<in> places G"
  show "deref pl (s\<lparr>heap_of := h'\<rparr>) = deref pl s"
  proof (cases pl)
    case (Field x)
    then have "Field x \<in> fields G" using \<open>pl \<in> places G\<close> by (simp add: places_def)
    then obtain p where p: "p \<in> G" "Field x \<in> fields {p}" using fieldsE by blast
    then have "unat x \<in> payload p node_size" using fields_payload [OF assms(1) p(2,1)] by auto
    then have "mem h' x = mem (heap_of s) x"
      using assms(2) p(1) held_simps(4) [OF p(1)] unfolding changed_def by blast
    then show ?thesis using Field by simp
  qed simp
qed

lemma new_node_good:
  assumes "good start s G" "nodes_left (Suc k) s"
  obtains p s' where "new_node s = Some (p, s')" "p \<notin> G" "good start s' (insert p G)" "nodes_left k s'"
    "keeps (places G) s s'"
proof -
  let ?h = "heap_of s"
  have r: "reachable_heap start (?h, held G)" using assms(1) by (simp add: good_def)
  have room: "room ?h" using assms(2) by (simp add: nodes_left_def room_def)
  from reachable_alloc [OF r room node_servable]
  obtain p h' where h': "allocate (word_of_nat node_size) ?h = Some (p, h')" "held G p = None"
    "reachable_heap start (h', (held G)(p \<mapsto> node_size))" "changed (held G) ?h h' = {}" by blast
  have "unat (free_space h') \<le> unat (free_space ?h) + 240"
    using allocate_growth [OF r room node_servable h'(1)] by (simp add: class_of_def node_size_def chunk_blocks_def)
  then have "nodes_left k (s\<lparr>heap_of := h'\<rparr>)" using assms(2) by (simp add: nodes_left_def)
  then show thesis
    using that [of p "s\<lparr>heap_of := h'\<rparr>"] h' keeps_unchanged [OF assms(1) h'(4)]
    by (simp add: new_node_def good_def)
qed

lemma free_node_good:
  assumes "good start s G" "p \<in> G"
  obtains s' where "free_node p s = Some s'" "good start s' (G - {p})" "\<And>k. nodes_left k s' = nodes_left k s"
    "keeps (places (G - {p})) s s'"
proof -
  have r: "reachable_heap start (heap_of s, held G)" using assms(1) by (simp add: good_def)
  from reachable_release [OF r held_simps(4) [OF assms(2)]]
  obtain h' where h': "release p (heap_of s) = Some h'" "reachable_heap start (h', (held G)(p := None))"
    "changed ((held G)(p := None)) (heap_of s) h' = {}" "free_space h' = free_space (heap_of s)" by blast
  have "keeps (places (G - {p})) s (s\<lparr>heap_of := h'\<rparr>)"
    unfolding keeps_def
  proof
    fix pl assume pl: "pl \<in> places (G - {p})"
    show "deref pl (s\<lparr>heap_of := h'\<rparr>) = deref pl s"
    proof (cases pl)
      case (Field x)
      then have "Field x \<in> fields (G - {p})" using pl by (simp add: places_def)
      then obtain q where q: "q \<in> G" "q \<noteq> p" "Field x \<in> fields {q}" using fieldsE by blast
      then have "unat x \<in> payload q node_size" using fields_payload [OF assms(1) q(3,1)] by auto
      then have "mem h' x = mem (heap_of s) x"
        using h'(3) q held_simps(4) [of q "G - {p}"] unfolding changed_def held_simps by blast
      then show ?thesis using Field by simp
    qed simp
  qed
  then show thesis using that [of "s\<lparr>heap_of := h'\<rparr>"] h' by (simp add: free_node_def good_def nodes_left_def)
qed


section \<open>Trees in memory\<close>

text \<open>The words at \<open>p\<close> are the tree \<open>t\<close>, whose nodes are the blocks of \<open>A\<close>.\<close>

fun holds :: "radix_program \<Rightarrow> tree \<Rightarrow> cint \<Rightarrow> cint set \<Rightarrow> bool" where
  "holds s Null p A \<longleftrightarrow> p = 0 \<and> A = {}"
| "holds s (Leaf n c0 c1) p A \<longleftrightarrow> p \<noteq> 0 \<and> A = {p} \<and> deref (at_bit_pos p) s = 1 \<and> deref (at_number p) s = n \<and>
     deref (at_zero p) s = word_of_nat c0 \<and> deref (at_one p) s = word_of_nat c1 \<and> c0 < 2 ^ 32 \<and> c1 < 2 ^ 32"
| "holds s (Interior b n zero one) p A \<longleftrightarrow> p \<noteq> 0 \<and> deref (at_bit_pos p) s = b \<and> deref (at_number p) s = n \<and>
     (\<exists>Z W. A = insert p (Z \<union> W) \<and> p \<notin> Z \<union> W \<and> Z \<inter> W = {} \<and>
       holds s zero (deref (at_zero p) s) Z \<and> holds s one (deref (at_one p) s) W)"

lemma holds_Interior:
  "p \<noteq> 0 \<Longrightarrow> deref (at_bit_pos p) s = b \<Longrightarrow> deref (at_number p) s = n \<Longrightarrow>
   p \<notin> Z \<union> W \<Longrightarrow> Z \<inter> W = {} \<Longrightarrow> holds s zero (deref (at_zero p) s) Z \<Longrightarrow>
   holds s one (deref (at_one p) s) W \<Longrightarrow> holds s (Interior b n zero one) p (insert p (Z \<union> W))"
  by auto

lemma holds_keeps: "holds s t p A \<Longrightarrow> keeps (fields A) s s' \<Longrightarrow> holds s' t p A"
proof (induction t arbitrary: p A)
  case (Interior b n zero one)
  then obtain Z W where A: "A = insert p (Z \<union> W)" "p \<notin> Z \<union> W" "Z \<inter> W = {}"
    "holds s zero (deref (at_zero p) s) Z" "holds s one (deref (at_one p) s) W" by auto
  have "keeps (fields Z) s s'" "keeps (fields W) s s'" "keeps (fields {p}) s s'"
    by (rule keeps_mono [OF Interior.prems(2)], rule fields_mono, use A(1) in auto)+
  then have "holds s' zero (deref (at_zero p) s') Z" "holds s' one (deref (at_one p) s') W"
    using Interior.IH A(4,5) keepsD [OF \<open>keeps (fields {p}) s s'\<close>] by simp_all
  then show ?case
    using Interior.prems(1) A(1-3) keepsD [OF \<open>keeps (fields {p}) s s'\<close>]
    by (simp only: A(1)) (rule holds_Interior; simp)
qed (auto simp: keeps_def)

lemma holds_null: "holds s t p A \<Longrightarrow> p = 0 \<longleftrightarrow> t = Null"
  by (cases t) auto

lemma holds_nodes: "holds s t p A \<Longrightarrow> p \<noteq> 0 \<Longrightarrow> p \<in> A"
  by (cases t) auto

lemma good_nonnull: "good start s G \<Longrightarrow> p \<in> G \<Longrightarrow> p \<noteq> 0"
  using good_node(1) by fastforce

text \<open>
  The tree at \<open>parent\<close>, with the blocks of \<open>A\<close>, has been replaced by \<open>t'\<close>; nothing else that
  the program holds has changed.
\<close>

definition replaced ::
  "cint \<Rightarrow> place \<Rightarrow> tree \<Rightarrow> cint set \<Rightarrow> cint set \<Rightarrow> radix_program \<Rightarrow> radix_program \<Rightarrow> bool"
where
  "replaced start parent t' G A s s' \<longleftrightarrow>
     (\<exists>A'. A' \<inter> (G - A) = {} \<and> good start s' (G - A \<union> A') \<and> holds s' t' (deref parent s') A' \<and>
       keeps (places (G - A) - {parent}) s s')"

lemma replacedI:
  "good start s' (G - A \<union> A') \<Longrightarrow> A' \<inter> (G - A) = {} \<Longrightarrow> holds s' t' (deref parent s') A' \<Longrightarrow>
   keeps (places (G - A) - {parent}) s s' \<Longrightarrow> replaced start parent t' G A s s'"
  by (auto simp: replaced_def)

lemma replaced_trans:
  assumes "A' \<inter> (G - A) = {}" "keeps (places (G - A) - {parent}) s s'"
    "replaced start parent t (G - A \<union> A') A' s' s''"
  shows "replaced start parent t G A s s''"
proof -
  have "(G - A \<union> A') - A' = G - A" using assms(1) by blast
  then obtain A'' where A'': "A'' \<inter> (G - A) = {}" "good start s'' (G - A \<union> A'')" "holds s'' t (deref parent s'') A''"
    "keeps (places (G - A) - {parent}) s' s''"
    using assms(3) by (auto simp: replaced_def)
  show ?thesis by (rule replacedI [OF A''(2,1,3) keeps_trans [OF assms(2) A''(4)]])
qed

lemma new_fields:
  assumes "good start s (insert p G)" "p \<notin> G" "pl \<in> fields {p}"
  shows "pl \<notin> places G"
proof -
  have "fields {p} \<inter> fields G = {}" by (rule fields_disjoint [OF assms(1)]) (use assms(2) in auto)
  then show ?thesis using assms(3) fields_Un(3) [of "{p}"] by (auto simp: places_def)
qed

lemma in_own_fields [simp]:
  "at_bit_pos p \<in> fields {p}" "at_number p \<in> fields {p}" "at_zero p \<in> fields {p}" "at_one p \<in> fields {p}"
  by simp_all

lemma places_insert: "pl \<in> fields {p} \<Longrightarrow> pl \<in> places (insert p G)" "pl \<in> places G \<Longrightarrow> pl \<in> places (insert p G)"
  by (auto simp: places_def fields_def)

text \<open>Replacing a subtree replaces the tree.\<close>

lemma replaced_child:
  assumes g: "good start s G" "A \<subseteq> G" "parent \<in> places (G - A)" "deref parent s = p"
    and A: "A = insert p (Z \<union> W)" "p \<notin> Z \<union> W" "Z \<inter> W = {}" "p \<noteq> 0"
    and pl: "pl \<in> fields {p}" "pl' \<in> fields {p}" "pl' \<noteq> pl"
    and other: "holds s u (deref pl' s) W"
    and r: "replaced start pl t' G Z s s'"
  obtains Z' where "deref parent s' = p" "good start s' (G - A \<union> insert p (Z' \<union> W))" "p \<notin> Z' \<union> W" "Z' \<inter> W = {}"
    "insert p (Z' \<union> W) \<inter> (G - A) = {}" "holds s' t' (deref pl s') Z'" "holds s' u (deref pl' s') W"
    "keeps (fields {p} - {pl}) s s'" "keeps (places (G - A) - {parent}) s s'"
proof -
  obtain Z' where Z': "Z' \<inter> (G - Z) = {}" "good start s' (G - Z \<union> Z')" "holds s' t' (deref pl s') Z'"
    "keeps (places (G - Z) - {pl}) s s'"
    using r by (auto simp: replaced_def)
  have in_g: "p \<in> G" "Z \<subseteq> G" "W \<subseteq> G" using g(2) A(1) by auto
  have apart: "fields {p} \<inter> fields (G - {p}) = {}" by (rule fields_disjoint [OF g(1)]) (use in_g in auto)
  have out: "pl \<notin> places (G - A)" "pl \<notin> fields W"
  proof -
    have "fields (G - A) \<subseteq> fields (G - {p})" "fields W \<subseteq> fields (G - {p})"
      by (rule fields_mono, use A(1,2) in_g(3) in blast)+
    then show "pl \<notin> places (G - A)" "pl \<notin> fields W" using apart pl(1) by (auto simp: places_def)
  qed
  have sub: "places (G - A) \<subseteq> places (G - Z)" "fields W \<subseteq> places (G - Z)" "fields {p} \<subseteq> places (G - Z)"
  proof -
    have "G - A \<subseteq> G - Z" "W \<subseteq> G - Z" "{p} \<subseteq> G - Z" using A in_g by auto
    then show "places (G - A) \<subseteq> places (G - Z)" "fields W \<subseteq> places (G - Z)" "fields {p} \<subseteq> places (G - Z)"
      by (simp_all only: fields_mono fields_in_places)
  qed
  have k: "keeps (places (G - A)) s s'" "keeps (fields W) s s'" "keeps (fields {p} - {pl}) s s'"
    by (rule keeps_mono [OF Z'(4)], use sub out in blast)+
  have eq: "G - A \<union> insert p (Z' \<union> W) = G - Z \<union> Z'" using A in_g by blast
  have "good start s' (G - A \<union> insert p (Z' \<union> W))" using Z'(2) by (simp only: eq)
  moreover have "deref parent s' = p" using keepsD [OF k(1) g(3)] g(4) by simp
  moreover have "holds s' u (deref pl' s') W"
    using holds_keeps [OF other k(2)] keepsD [OF k(3), of pl'] pl by simp
  moreover have "p \<notin> Z' \<union> W" "Z' \<inter> W = {}" "insert p (Z' \<union> W) \<inter> (G - A) = {}"
    using Z'(1) A in_g by auto
  ultimately show thesis using that [of Z'] Z'(3) k(3) keeps_mono [OF k(1) Diff_subset] by (simp only: simp_thms)
qed

lemma replaced_zero:
  assumes "good start s G" "A \<subseteq> G" "parent \<in> places (G - A)" "deref parent s = p" "p \<noteq> 0"
    "deref (at_bit_pos p) s = b" "deref (at_number p) s = n"
    and A: "A = insert p (Z \<union> W)" "p \<notin> Z \<union> W" "Z \<inter> W = {}" "holds s one (deref (at_one p) s) W"
    and r: "replaced start (at_zero p) zero G Z s s'"
  shows "replaced start parent (Interior b n zero one) G A s s'" "deref parent s' = p"
proof -
  obtain Z' where Z': "deref parent s' = p" "good start s' (G - A \<union> insert p (Z' \<union> W))" "p \<notin> Z' \<union> W" "Z' \<inter> W = {}"
    "insert p (Z' \<union> W) \<inter> (G - A) = {}" "holds s' zero (deref (at_zero p) s') Z'" "holds s' one (deref (at_one p) s') W"
    "keeps (fields {p} - {at_zero p}) s s'" "keeps (places (G - A) - {parent}) s s'"
    by (rule replaced_child [OF assms(1-4) A(1-3) assms(5) _ _ _ A(4) r]) simp_all
  show "deref parent s' = p" by fact
  show "replaced start parent (Interior b n zero one) G A s s'"
    using Z' assms(5-7) keepsD [OF Z'(8)] by (intro replacedI [of start s' G A "insert p (Z' \<union> W)"]) auto
qed

lemma replaced_one:
  assumes "good start s G" "A \<subseteq> G" "parent \<in> places (G - A)" "deref parent s = p" "p \<noteq> 0"
    "deref (at_bit_pos p) s = b" "deref (at_number p) s = n"
    and A: "A = insert p (Z \<union> W)" "p \<notin> Z \<union> W" "Z \<inter> W = {}" "holds s zero (deref (at_zero p) s) Z"
    and r: "replaced start (at_one p) one G W s s'"
  shows "replaced start parent (Interior b n zero one) G A s s'" "deref parent s' = p"
proof -
  have A': "A = insert p (W \<union> Z)" "p \<notin> W \<union> Z" "W \<inter> Z = {}" using A by auto
  obtain W' where W': "deref parent s' = p" "good start s' (G - A \<union> insert p (W' \<union> Z))" "p \<notin> W' \<union> Z" "W' \<inter> Z = {}"
    "insert p (W' \<union> Z) \<inter> (G - A) = {}" "holds s' one (deref (at_one p) s') W'" "holds s' zero (deref (at_zero p) s') Z"
    "keeps (fields {p} - {at_one p}) s s'" "keeps (places (G - A) - {parent}) s s'"
    by (rule replaced_child [OF assms(1-4) A' assms(5) _ _ _ A(4) r]) simp_all
  show "deref parent s' = p" by fact
  show "replaced start parent (Interior b n zero one) G A s s'"
  proof (rule replacedI [OF W'(2,5) _ W'(9)])
    have "holds s' (Interior b n zero one) p (insert p (Z \<union> W'))"
      using W'(3,4,6,7) assms(5-7) keepsD [OF W'(8)] by (intro holds_Interior) auto
    then show "holds s' (Interior b n zero one) (deref parent s') (insert p (W' \<union> Z))"
      by (simp only: W'(1) Un_commute)
  qed
qed


section \<open>Adding\<close>

lemma create_leaf_at_spec:
  assumes "good start s G" "nodes_left (Suc k) s"
  obtains p s' where "create_leaf_at x s = Some (p, s')" "p \<notin> G" "good start s' (insert p G)" "nodes_left k s'"
    "keeps (places G) s s'" "holds s' (create_leaf x) p {p}"
proof -
  obtain p s1 where s1: "new_node s = Some (p, s1)" "p \<notin> G" "good start s1 (insert p G)" "nodes_left k s1"
    "keeps (places G) s s1"
    using new_node_good [OF assms] .
  let ?s' = "assign (at_one p) (x AND 1) (assign (at_zero p) (if x AND 1 = 0 then 1 else 0)
    (assign (at_number p) x (assign (at_bit_pos p) 1 s1)))"
  have out: "pl \<notin> places G" if "pl \<in> fields {p}" for pl using new_fields [OF s1(3,2) that] .
  have "good start ?s' (insert p G)" by (intro good_assign s1(3) places_insert) simp_all
  moreover have "keeps (places G) s ?s'"
    using out by (intro keeps_trans [OF _ keeps_assign] s1(5)) simp_all
  moreover have "holds ?s' (create_leaf x) p {p}"
  proof -
    have "unat (x AND 1) < 2 ^ 32" using unsigned_less [of "x AND 1"] by simp
    then show ?thesis using good_nonnull [OF s1(3)] by (simp add: create_leaf_def)
  qed
  moreover have "create_leaf_at x s = Some (p, ?s')" by (simp add: create_leaf_at_def s1(1) Let_def)
  moreover have "nodes_left k ?s'" using s1(4) by simp
  ultimately show thesis using that s1(2) by blast
qed

lemma place_apart:
  assumes "good start s G" "A \<subseteq> G" "parent \<in> places (G - A)"
  shows "parent \<in> places G" "parent \<notin> fields A"
proof -
  show "parent \<in> places G" using assms(3) fields_mono(2) [of "G - A" G] by blast
  have "fields A \<inter> fields (G - A) = {}" by (rule fields_disjoint [OF assms(1,2)]) auto
  then show "parent \<notin> fields A" using assms(3) fields_Un(3) [of A] by (auto simp: places_def)
qed

text \<open>The interior node up to the creation of its leaf.\<close>

lemma inject_enter:
  assumes g: "good start s G" "parent \<in> places G" "nodes_left (Suc (Suc k)) s"
  obtains p2 s2 where
    "inject_at b x parent p s =
       map_option (\<lambda>(leaf, s). assign (if x AND b = 0 then at_zero p2 else at_one p2) leaf s) (create_leaf_at x s2)"
    "p2 \<notin> G" "good start s2 (insert p2 G)" "nodes_left (Suc k) s2" "keeps (places G - {parent}) s s2"
    "deref (at_bit_pos p2) s2 = b" "deref (at_number p2) s2 = x"
    "deref (if x AND b = 0 then at_one p2 else at_zero p2) s2 = p" "deref parent s2 = p2"
proof -
  obtain p2 s1 where s1: "new_node s = Some (p2, s1)" "p2 \<notin> G" "good start s1 (insert p2 G)" "nodes_left (Suc k) s1"
    "keeps (places G) s s1"
    using new_node_good [OF g(1,3)] .
  let ?old = "if x AND b = 0 then at_one p2 else at_zero p2"
  define s2 where "s2 = assign ?old p (assign parent p2 (assign (at_number p2) x (assign (at_bit_pos p2) b s1)))"
  have old: "?old \<in> fields {p2}" by simp
  have out: "pl \<notin> places G" if "pl \<in> fields {p2}" for pl using new_fields [OF s1(3,2) that] .
  have "good start s2 (insert p2 G)"
    unfolding s2_def
    using places_insert(1) [OF old, of G] places_insert(1) [OF in_own_fields(1), of p2 G]
      places_insert(1) [OF in_own_fields(2), of p2 G] places_insert(2) [OF g(2), of p2]
    by (intro good_assign s1(3))
  moreover have "nodes_left (Suc k) s2" unfolding s2_def using s1(4) by simp
  moreover have "keeps (places G - {parent}) s s2"
    unfolding s2_def using out old by (intro keeps_trans [OF _ keeps_assign] keeps_mono [OF s1(5)]) simp_all
  moreover have "deref (at_bit_pos p2) s2 = b" "deref (at_number p2) s2 = x" "deref ?old s2 = p" "deref parent s2 = p2"
  proof -
    have "parent \<noteq> pl" if "pl \<in> fields {p2}" for pl using out [OF that] g(2) by blast
    from this [OF in_own_fields(1)] this [OF in_own_fields(2)] this [OF in_own_fields(3)] this [OF in_own_fields(4)]
    show "deref (at_bit_pos p2) s2 = b" "deref (at_number p2) s2 = x" "deref ?old s2 = p" "deref parent s2 = p2"
      unfolding s2_def by auto
  qed
  moreover have "inject_at b x parent p s =
      map_option (\<lambda>(leaf, s). assign (if x AND b = 0 then at_zero p2 else at_one p2) leaf s) (create_leaf_at x s2)"
    by (simp add: inject_at_def s1(1) Let_def s2_def)
  ultimately show thesis using that s1(2) by simp
qed

lemma inject_at_spec:
  assumes g: "good start s G" "A \<subseteq> G" "parent \<in> places (G - A)" "nodes_left (k + 2) s" and t: "holds s t p A"
  shows "\<exists>s'. inject_at b x parent p s = Some s' \<and> replaced start parent (inject b x t) G A s s' \<and> nodes_left k s'"
proof -
  note parent = place_apart [OF g(1-3)]
  have "nodes_left (Suc (Suc k)) s" using g(4) by simp
  from inject_enter [OF g(1) parent(1) this, of b x p]
  obtain p2 s2 where inj: "inject_at b x parent p s =
       map_option (\<lambda>(leaf, s). assign (if x AND b = 0 then at_zero p2 else at_one p2) leaf s) (create_leaf_at x s2)"
    and g2: "p2 \<notin> G" "good start s2 (insert p2 G)" "nodes_left (Suc k) s2" "keeps (places G - {parent}) s s2"
    and words: "deref (at_bit_pos p2) s2 = b" "deref (at_number p2) s2 = x"
      "deref (if x AND b = 0 then at_one p2 else at_zero p2) s2 = p" "deref parent s2 = p2" .
  let ?old = "if x AND b = 0 then at_one p2 else at_zero p2" and ?new = "if x AND b = 0 then at_zero p2 else at_one p2"
  have own: "?old \<in> fields {p2}" "?new \<in> fields {p2}" "?old \<noteq> ?new" by simp_all
  obtain leaf s3 where s3: "create_leaf_at x s2 = Some (leaf, s3)" "leaf \<notin> insert p2 G"
    "good start s3 (insert leaf (insert p2 G))" "nodes_left k s3" "keeps (places (insert p2 G)) s2 s3"
    "holds s3 (create_leaf x) leaf {leaf}"
    using create_leaf_at_spec [OF g2(2,3)] .
  let ?s' = "assign ?new leaf s3"
  have new: "?new \<notin> places G" "?new \<notin> fields A" "?new \<notin> fields {leaf}"
  proof -
    show "?new \<notin> places G" using new_fields [OF g2(2,1) own(2)] .
    then show "?new \<notin> fields A" using fields_in_places [OF g(2)] by blast
    have "fields {leaf} \<inter> fields {p2} = {}" by (rule fields_disjoint [OF s3(3)]) (use s3(2) in auto)
    then show "?new \<notin> fields {leaf}" using own(2) by blast
  qed
  have k: "keeps (places G - {parent}) s ?s'"
  proof (rule keeps_trans [OF keeps_trans [OF g2(4) keeps_mono [OF s3(5)]] keeps_assign])
    show "places G - {parent} \<subseteq> places (insert p2 G)" using places_insert(2) by blast
    show "?new \<notin> places G - {parent}" using new(1) by blast
  qed
  have "fields A \<subseteq> places G - {parent}" using fields_in_places [OF g(2)] parent(2) by blast
  then have "holds ?s' t p A" by (intro holds_keeps [OF t keeps_mono [OF k]])
  moreover have "holds ?s' (create_leaf x) leaf {leaf}" by (rule holds_keeps [OF s3(6) keeps_assign [OF new(3)]])
  moreover have "deref pl ?s' = deref pl s2" if "pl \<in> fields {p2}" "pl \<noteq> ?new" for pl
    using keepsD [OF s3(5) places_insert(1) [OF that(1)]] that(2) by simp
  from this [of "at_bit_pos p2"] this [of "at_number p2"] this [OF own(1,3)]
  have "deref (at_bit_pos p2) ?s' = b" "deref (at_number p2) ?s' = x" "deref ?old ?s' = p" using words by simp_all
  moreover have "p2 \<noteq> 0" "p2 \<notin> {leaf} \<union> A" "leaf \<notin> A" using good_nonnull [OF g2(2)] s3(2) g2(1) g(2) by auto
  ultimately have h: "holds ?s' (inject b x t) p2 (insert p2 ({leaf} \<union> A))"
    using holds_Interior [of p2 ?s' b x "{leaf}" A "create_leaf x" t] holds_Interior [of p2 ?s' b x A "{leaf}" t "create_leaf x"]
    by (auto simp: inject_def Un_commute)
  have same: "G - A \<union> insert p2 ({leaf} \<union> A) = insert leaf (insert p2 G)" using g(2) by auto
  have "replaced start parent (inject b x t) G A s ?s'"
  proof (rule replacedI)
    show "good start ?s' (G - A \<union> insert p2 ({leaf} \<union> A))"
      unfolding same using own(2) by (intro good_assign s3(3) places_insert(2) [OF places_insert(1)])
    show "insert p2 ({leaf} \<union> A) \<inter> (G - A) = {}" using g2(1) s3(2) by auto
    have "parent \<noteq> ?new" using new(1) parent(1) by blast
    then have "deref parent ?s' = p2"
      using keepsD [OF s3(5) places_insert(2) [OF parent(1)]] words(4) by simp
    then show "holds ?s' (inject b x t) (deref parent ?s') (insert p2 ({leaf} \<union> A))" using h by simp
    show "keeps (places (G - A) - {parent}) s ?s'" by (rule keeps_mono [OF k]) (use fields_mono(2) [of "G - A" G] in blast)
  qed
  then show ?thesis using inj s3(1,4) by simp
qed

text \<open>Writing to the counters of a leaf.\<close>

lemma own_fields_apart:
  assumes "good start s G" "p \<in> G" "pl \<in> fields {p}"
  shows "pl \<notin> places (G - {p})"
proof -
  have "fields {p} \<inter> fields (G - {p}) = {}" by (rule fields_disjoint [OF assms(1)]) (use assms(2) in auto)
  then show ?thesis using assms(3) fields_Un(3) [of "{p}"] by (auto simp: places_def)
qed

lemma replaced_leaf:
  assumes "good start s' G" "p \<in> G" "parent \<in> places (G - {p})" "deref parent s = p"
    "keeps (places (G - {p})) s s'" "holds s' t' p {p}"
  shows "replaced start parent t' G {p} s s'"
proof (rule replacedI)
  show "good start s' (G - {p} \<union> {p})" using assms(1,2) by (simp add: insert_absorb)
  show "holds s' t' (deref parent s') {p}" using keepsD [OF assms(5,3)] assms(4,6) by simp
qed (use keeps_mono [OF assms(5)] in auto)

lemma assign_twice [simp]: "assign pl a (assign pl b s) = assign pl a s" "assign pl (deref pl s) s = s"
  by (cases pl; simp)+

lemma replaced_counts:
  assumes g: "good start s G" "holds s (Leaf n c0 c1) p A" "A \<subseteq> G" "parent \<in> places (G - A)" "deref parent s = p"
    and d: "d0 < 2 ^ 32" "d1 < 2 ^ 32"
  shows "replaced start parent (Leaf n d0 d1) G A s
      (assign (at_one p) (word_of_nat d1) (assign (at_zero p) (word_of_nat d0) s))"
    and "deref parent (assign (at_one p) (word_of_nat d1) (assign (at_zero p) (word_of_nat d0) s)) = p"
proof -
  let ?s' = "assign (at_one p) (word_of_nat d1) (assign (at_zero p) (word_of_nat d0) s)"
  have A: "A = {p}" "p \<in> G" using g(2,3) by auto
  have out: "at_zero p \<notin> places (G - {p})" "at_one p \<notin> places (G - {p})"
    using own_fields_apart [OF g(1) A(2)] by simp_all
  have k: "keeps (places (G - {p})) s ?s'" using out by (intro keeps_trans [OF keeps_assign keeps_assign])
  then show "deref parent ?s' = p" using keepsD [OF k] g(4,5) A(1) by simp
  have "at_zero p \<in> places G" "at_one p \<in> places G" using A(2) by (simp_all add: fields_places(1))
  then have "good start ?s' G" by (intro good_assign g(1))
  moreover have "holds ?s' (Leaf n d0 d1) p {p}" using g(2) d by simp
  ultimately show "replaced start parent (Leaf n d0 d1) G A s ?s'"
    using A g(4,5) k unfolding A(1) by (intro replaced_leaf)
qed

lemma replaced_count:
  assumes g: "good start s G" "holds s (Leaf n c0 c1) p A" "A \<subseteq> G" "parent \<in> places (G - A)" "deref parent s = p"
    and c: "c < 2 ^ 32"
  shows "replaced start parent (Leaf n c c1) G A s (assign (at_zero p) (word_of_nat c) s)"
    "replaced start parent (Leaf n c0 c) G A s (assign (at_one p) (word_of_nat c) s)"
proof -
  have p: "deref (at_zero p) s = word_of_nat c0" "deref (at_one p) s = word_of_nat c1" "c0 < 2 ^ 32" "c1 < 2 ^ 32"
    using g(2) by auto
  have "assign (at_one p) (word_of_nat c1) (assign (at_zero p) (word_of_nat c) s) = assign (at_zero p) (word_of_nat c) s"
    using p(2) assign_twice(2) [of "at_one p" "assign (at_zero p) (word_of_nat c) s"] by simp
  then show "replaced start parent (Leaf n c c1) G A s (assign (at_zero p) (word_of_nat c) s)"
    using replaced_counts(1) [OF g c p(4)] by simp
  have "assign (at_zero p) (word_of_nat c0) s = s" using p(1) assign_twice(2) [of "at_zero p" s] by simp
  then show "replaced start parent (Leaf n c0 c) G A s (assign (at_one p) (word_of_nat c) s)"
    using replaced_counts(1) [OF g p(3) c] by simp
qed

lemma last_bit_pos: "1 \<le>s b \<Longrightarrow> \<not> 1 <s b \<Longrightarrow> (b :: cint) = 1"
  by (simp add: signed.less_le)

lemma shifted_out: "signed_drop_bit 1 (1 :: cint) = 0" "\<not> 1 \<le>s (0 :: cint)"
  by (simp_all add: word_sle_eq)

lemma replaced_same:
  "good start s G \<Longrightarrow> holds s t (deref parent s) A \<Longrightarrow> A \<subseteq> G \<Longrightarrow> replaced start parent t G A s s"
  by (rule replacedI [of start s G A A]) (simp_all add: Un_absorb2)

lemma add_loop_Null:
  assumes "add_from b x Null = Some t'" "good start s G" "holds s Null (deref parent s) A" "A \<subseteq> G"
    "parent \<in> places (G - A)" "nodes_left (k + 2) s" "length (to_list Null) + 1 < 2 ^ 32"
  shows "\<exists>s'. add_loop b x parent s = Some s' \<and> replaced start parent t' G A s s' \<and> nodes_left k s'"
proof -
  let ?p = "deref parent s"
  have A: "A = {}" "?p = 0" using assms(3) by auto
  show ?thesis
  proof (cases "1 \<le>s b")
    case False
    then show ?thesis
      using assms(1) replaced_same [OF assms(2-4)] nodes_left_mono [OF assms(6), of k] by (simp add: add_loop.simps [of b])
  next
    case True
    have "nodes_left (Suc k) s" using assms(6) nodes_left_mono by fastforce
    from create_leaf_at_spec [OF assms(2) this]
    obtain q s1 where s1: "create_leaf_at x s = Some (q, s1)" "q \<notin> G" "good start s1 (insert q G)" "nodes_left k s1"
      "keeps (places G) s s1" "holds s1 (create_leaf x) q {q}" .
    have parent: "parent \<in> places G" "parent \<notin> fields {q}"
      using assms(5) A(1) new_fields [OF s1(3,2)] by auto
    have "replaced start parent t' G A s (assign parent q s1)"
      unfolding A(1)
    proof (rule replacedI)
      show "good start (assign parent q s1) (G - {} \<union> {q})"
        using good_assign [OF s1(3) places_insert(2) [OF parent(1)]] by simp
      show "{q} \<inter> (G - {}) = {}" using s1(2) by simp
      show "holds (assign parent q s1) t' (deref parent (assign parent q s1)) {q}"
        using assms(1) True holds_keeps [OF s1(6) keeps_assign [OF parent(2)]] by simp
      show "keeps (places (G - {}) - {parent}) s (assign parent q s1)"
        by (rule keeps_trans [OF keeps_mono [OF s1(5)] keeps_assign]) auto
    qed
    then show ?thesis using True A(2) s1(1,4) by (simp add: add_loop.simps [of b])
  qed
qed

lemma add_loop_Leaf:
  assumes "add_from b x (Leaf n c0 c1) = Some t'" "good start s G" "holds s (Leaf n c0 c1) (deref parent s) A" "A \<subseteq> G"
    "parent \<in> places (G - A)" "nodes_left (k + 2) s" "length (to_list (Leaf n c0 c1)) + 1 < 2 ^ 32"
  shows "\<exists>s'. add_loop b x parent s = Some s' \<and> replaced start parent t' G A s s' \<and> nodes_left k s'"
proof -
  let ?p = "deref parent s"
  have p: "?p \<noteq> 0" "deref (at_bit_pos ?p) s = 1" "deref (at_number ?p) s = n"
    "deref (at_zero ?p) s = word_of_nat c0" "deref (at_one ?p) s = word_of_nat c1"
    using assms(3) by auto
  show ?thesis
  proof (cases "1 \<le>s b")
    case False
    then show ?thesis
      using assms(1) replaced_same [OF assms(2-4)] nodes_left_mono [OF assms(6), of k] by (simp add: add_loop.simps [of b])
  next
    case True
    define d where "d = (if 1 <s b then bit_range b 1 AND (x XOR n) else 0)"
    define at where "at = (if 1 <s b then 1 else b)"
    have at: "at = 1" using True last_bit_pos by (auto simp: at_def)
    show ?thesis
    proof (cases "d = 0")
      case False
      then obtain b' where b': "locate b d = Some b'" "t' = inject b' x (Leaf n c0 c1)"
        using assms(1) True by (auto simp: d_def Let_def)
      have "add_loop b x parent s = inject_at b' x parent ?p s"
        using True False b'(1) p by (simp add: add_loop.simps [of b] d_def Let_def split: if_splits)
      then show ?thesis using inject_at_spec [OF assms(2,4,5,6,3)] b'(2) by simp
    next
      case d: True
      let ?c = "if x AND 1 \<noteq> 0 then at_one ?p else at_zero ?p"
      have small: "c0 + 1 < 2 ^ 32" "c1 + 1 < 2 ^ 32" using assms(7) by simp_all
      have "add_loop b x parent s = add_loop 0 x parent (assign ?c (deref ?c s + 1) s)"
        using True d at p shifted_out(1) by (simp add: add_loop.simps [of b] d_def at_def Let_def split: if_splits)
      then have "add_loop b x parent s = Some (assign ?c (deref ?c s + 1) s)"
        using shifted_out(2) by (simp add: add_loop.simps [of 0])
      moreover have "t' = (if x AND 1 \<noteq> 0 then Leaf n c0 (c1 + 1) else Leaf n (c0 + 1) c1)"
        using assms(1) True d at by (simp add: d_def at_def Let_def split: if_splits)
      ultimately show ?thesis
        using replaced_count(1) [OF assms(2,3,4,5) refl small(1)] replaced_count(2) [OF assms(2,3,4,5) refl small(2)]
          nodes_left_mono [OF assms(6), of k] p(4,5)
        by (cases "x AND 1 = 0") (simp_all add: add.commute)
    qed
  qed
qed

lemma add_loop_spec:
  assumes "add_from b x t = Some t'" "good start s G" "holds s t (deref parent s) A" "A \<subseteq> G"
    "parent \<in> places (G - A)" "nodes_left (k + 2) s" "length (to_list t) + 1 < 2 ^ 32"
  shows "\<exists>s'. add_loop b x parent s = Some s' \<and> replaced start parent t' G A s s' \<and> nodes_left k s'"
  using assms
proof (induction t arbitrary: b t' parent A)
  case Null
  show ?case by (rule add_loop_Null [OF Null.prems])
next
  case (Leaf n c0 c1)
  show ?case by (rule add_loop_Leaf [OF Leaf.prems])
next
  case (Interior bp n zero one)
  let ?p = "deref parent s" and ?t = "Interior bp n zero one"
  have p: "?p \<noteq> 0" "deref (at_bit_pos ?p) s = bp" "deref (at_number ?p) s = n"
    using Interior.prems(3) by auto
  obtain Z W where A: "A = insert ?p (Z \<union> W)" "?p \<notin> Z \<union> W" "Z \<inter> W = {}"
    "holds s zero (deref (at_zero ?p) s) Z" "holds s one (deref (at_one ?p) s) W"
    using Interior.prems(3) by auto
  show ?case
  proof (cases "1 \<le>s b")
    case False
    then show ?thesis
      using Interior.prems(1) replaced_same [OF Interior.prems(2-4)] nodes_left_mono [OF Interior.prems(6), of k]
      by (simp add: add_loop.simps [of b])
  next
    case True
    define d where "d = (if bp <s b then bit_range b bp AND (x XOR n) else 0)"
    define at where "at = (if bp <s b then bp else b)"
    have code: "add_loop b x parent s =
      (if d \<noteq> 0 then Option.bind (locate b d) (\<lambda>b'. inject_at b' x parent ?p s)
       else if 1 <s at
       then add_loop (signed_drop_bit 1 at) x (if at AND x \<noteq> 0 then at_one ?p else at_zero ?p) s
       else let c = (if x AND 1 \<noteq> 0 then at_one ?p else at_zero ?p)
         in add_loop (signed_drop_bit 1 at) x parent (assign c (deref c s + 1) s))"
      using True p by (simp add: add_loop.simps [of b] d_def at_def Let_def)
    have model: "add_from b x ?t = (if d \<noteq> 0 then map_option (\<lambda>b'. inject b' x ?t) (locate b d)
         else if \<not> 1 <s at then None
         else if at AND x \<noteq> 0 then map_option (Interior bp n zero) (add_from (signed_drop_bit 1 at) x one)
         else map_option (\<lambda>z. Interior bp n z one) (add_from (signed_drop_bit 1 at) x zero))"
      using True by (simp add: d_def at_def Let_def)
    show ?thesis
    proof (cases "d = 0")
      case False
      then obtain b' where b': "locate b d = Some b'" "t' = inject b' x ?t"
        using Interior.prems(1) False unfolding model by auto
      then show ?thesis using inject_at_spec [OF Interior.prems(2,4,5,6,3)] False code by simp
    next
      case d: True
      then have at: "1 <s at" using Interior.prems(1) unfolding model by (auto split: if_splits)
      have in_g: "?p \<in> G" "Z \<subseteq> G" "W \<subseteq> G" using Interior.prems(4) A(1) by auto
      show ?thesis
      proof (cases "at AND x = 0")
        case left: True
        then obtain z where z: "add_from (signed_drop_bit 1 at) x zero = Some z" "t' = Interior bp n z one"
          using Interior.prems(1) d at left unfolding model by auto
        have "at_zero ?p \<in> places (G - Z)" using in_g(1) A(2) by (simp add: fields_places(1))
        then obtain s' where "add_loop (signed_drop_bit 1 at) x (at_zero ?p) s = Some s'"
          "replaced start (at_zero ?p) z G Z s s'" "nodes_left k s'"
          using Interior.IH(1) [OF z(1) Interior.prems(2) A(4) in_g(2) _ Interior.prems(6)] Interior.prems(7) by auto
        then show ?thesis
          using replaced_zero(1) [OF Interior.prems(2,4,5) refl p A(1-3,5)] code d at left z(2) by auto
      next
        case right: False
        then obtain w where w: "add_from (signed_drop_bit 1 at) x one = Some w" "t' = Interior bp n zero w"
          using Interior.prems(1) d at right unfolding model by auto
        have "at_one ?p \<in> places (G - W)" using in_g(1) A(2) by (simp add: fields_places(1))
        then obtain s' where "add_loop (signed_drop_bit 1 at) x (at_one ?p) s = Some s'"
          "replaced start (at_one ?p) w G W s s'" "nodes_left k s'"
          using Interior.IH(2) [OF w(1) Interior.prems(2) A(5) in_g(3) _ Interior.prems(6)] Interior.prems(7) by auto
        then show ?thesis
          using replaced_one(1) [OF Interior.prems(2,4,5) refl p A(1-4)] code d at right w(2) by auto
      qed
    qed
  qed
qed

text \<open>One replacement after another.\<close>

lemma replaced_next:
  assumes "replaced start parent t1 G A s s1" "parent \<in> places (G - A)"
  obtains G1 A1 where "good start s1 G1" "holds s1 t1 (deref parent s1) A1" "A1 \<subseteq> G1" "parent \<in> places (G1 - A1)"
    "\<And>t2 s2. replaced start parent t2 G1 A1 s1 s2 \<Longrightarrow> replaced start parent t2 G A s s2"
proof -
  obtain A1 where A1: "A1 \<inter> (G - A) = {}" "good start s1 (G - A \<union> A1)" "holds s1 t1 (deref parent s1) A1"
    "keeps (places (G - A) - {parent}) s s1"
    using assms(1) by (auto simp: replaced_def)
  moreover have "(G - A \<union> A1) - A1 = G - A" using A1(1) by blast
  ultimately show thesis using that [of "G - A \<union> A1" A1] assms(2) replaced_trans [OF A1(1,4)] by simp
qed

section \<open>Taking\<close>

lemma take_counted_spec:
  "deref pl s = word_of_nat c \<Longrightarrow> c < 2 ^ 32 \<Longrightarrow>
   take_counted r pl x s = (case take_count r c x of (out, r', c') \<Rightarrow> (out, r', assign pl (word_of_nat c') s))"
proof (induction r arbitrary: c s)
  case 0
  then show ?case using assign_twice(2) [of pl s] by simp
next
  case (Suc r)
  show ?case
  proof (cases c)
    case 0
    then show ?thesis using Suc.prems assign_twice(2) [of pl s] by simp
  next
    case (Suc d)
    have "deref pl s \<noteq> 0" using Suc.prems Suc unat_small [of c] by (metis unat_0 nat.simps(3))
    moreover have "deref pl s - 1 = word_of_nat d" using Suc.prems(1) Suc by simp
    ultimately show ?thesis
      using Suc.IH [of "assign pl (word_of_nat d) s" d] Suc.prems(2) Suc by (simp split: prod.splits)
  qed
qed

lemma drop_empty_spec:
  assumes g: "good start s G" "holds s t p A" "A \<subseteq> G" "parent \<in> places (G - A)" "deref parent s = p" "p \<noteq> 0"
    and e: "deref (at_zero p) s = 0 \<and> deref (at_one p) s = 0 \<longleftrightarrow> e" "e \<Longrightarrow> A = {p}"
  shows "\<exists>s'. drop_empty parent p s = Some s' \<and> replaced start parent (if e then Null else t) G A s s' \<and>
    (\<forall>k. nodes_left k s \<longrightarrow> nodes_left k s')"
proof (cases e)
  case False
  then show ?thesis using replaced_same [of start s G t parent A] assms by (auto simp: drop_empty_def)
next
  case True
  then have A: "A = {p}" "p \<in> G" using e(2) g(3) by auto
  obtain s1 where s1: "free_node p s = Some s1" "good start s1 (G - {p})" "\<And>k. nodes_left k s1 = nodes_left k s"
    "keeps (places (G - {p})) s s1"
    using free_node_good [OF g(1) A(2)] by blast
  have "replaced start parent Null G A s (assign parent 0 s1)"
  proof (rule replacedI)
    show "good start (assign parent 0 s1) (G - A \<union> {})" using good_assign [OF s1(2)] g(4) A(1) by simp
    show "keeps (places (G - A) - {parent}) s (assign parent 0 s1)"
      unfolding A(1) by (rule keeps_trans [OF keeps_mono [OF s1(4)] keeps_assign]) auto
  qed simp_all
  then show ?thesis using True e(1) s1(1,3) by (simp add: drop_empty_def drop_node_def)
qed

lemma wf_interior: "wf k (Interior b n zero one) \<Longrightarrow> 1 <s b"
  using one_hot_less [of 0] by (auto simp: one_hot_0)

lemma take_at_Leaf:
  assumes g: "good start s G" "holds s (Leaf n c0 c1) (deref parent s) A" "A \<subseteq> G" "parent \<in> places (G - A)"
    and t: "take_numbers_2 (Leaf n c0 c1) r = (out, r', t')"
  shows "\<exists>s'. take_at parent r s = Some (out, r', s') \<and> replaced start parent t' G A s s' \<and>
    (\<forall>k. nodes_left k s \<longrightarrow> nodes_left k s')"
proof -
  let ?p = "deref parent s"
  have p: "?p \<noteq> 0" "deref (at_bit_pos ?p) s = 1" "deref (at_number ?p) s = n" "A = {?p}" "?p \<in> G"
    and c: "deref (at_zero ?p) s = word_of_nat c0" "deref (at_one ?p) s = word_of_nat c1" "c0 < 2 ^ 32" "c1 < 2 ^ 32"
    using g(2,3) by auto
  obtain out0 r0 d0 where t0: "take_count r c0 (n AND NOT 1) = (out0, r0, d0)" by (metis prod_cases3)
  obtain out1 r1 d1 where t1: "take_count r0 c1 (n OR 1) = (out1, r1, d1)" by (metis prod_cases3)
  have d: "d0 < 2 ^ 32" "d1 < 2 ^ 32"
    using t0 t1 c(3,4) unfolding take_count_spec by (auto intro: le_less_trans [OF diff_le_self])
  let ?s1 = "assign (at_zero ?p) (word_of_nat d0) s"
  let ?s2 = "assign (at_one ?p) (word_of_nat d1) ?s1"
  note two = replaced_counts [OF g refl d]
  from replaced_next [OF two(1) g(4)]
  obtain G2 A2 where s2: "good start ?s2 G2" "holds ?s2 (Leaf n d0 d1) (deref parent ?s2) A2" "A2 \<subseteq> G2"
    "parent \<in> places (G2 - A2)"
    "\<And>t2 s3. replaced start parent t2 G2 A2 ?s2 s3 \<Longrightarrow> replaced start parent t2 G A s s3" by blast
  have e: "deref (at_zero ?p) ?s2 = 0 \<and> deref (at_one ?p) ?s2 = 0 \<longleftrightarrow> d0 = 0 \<and> d1 = 0"
    using word_of_nat_inj [OF d(1), of 0] word_of_nat_inj [OF d(2), of 0] by simp
  have A2: "A2 = {?p}" using s2(2) unfolding two(2) by simp
  obtain s3 where s3: "drop_empty parent ?p ?s2 = Some s3"
    "replaced start parent (if d0 = 0 \<and> d1 = 0 then Null else Leaf n d0 d1) G2 A2 ?s2 s3"
    "\<forall>k. nodes_left k ?s2 \<longrightarrow> nodes_left k s3"
    using drop_empty_spec [OF s2(1) s2(2) [unfolded two(2)] s2(3,4) two(2) p(1) e A2] by auto
  have "take_at parent r s = Some (out0 @ out1, r1, s3)"
    using p(1-3) s3(1) t0 t1 take_counted_spec [OF c(1,3), of r "n AND NOT 1"] take_counted_spec [of "at_one ?p" ?s1 c1 r0 "n OR 1"] c(2,4)
    by (simp add: take_at.simps [of parent] Let_def)
  moreover have "out = out0 @ out1" "r' = r1" "t' = (if d0 = 0 \<and> d1 = 0 then Null else Leaf n d0 d1)"
    using t t0 t1 by (simp_all add: Let_def)
  ultimately show ?thesis using s2(5) [OF s3(2)] s3(3) by simp
qed

lemma take_at_spec:
  assumes "wf k t" "good start s G" "holds s t (deref parent s) A" "A \<subseteq> G" "parent \<in> places (G - A)"
    "take_numbers_2 t r = (out, r', t')"
  shows "\<exists>s'. take_at parent r s = Some (out, r', s') \<and> replaced start parent t' G A s s' \<and>
    (\<forall>k. nodes_left k s \<longrightarrow> nodes_left k s')"
  using assms
proof (induction t arbitrary: k parent s G A r out r' t')
  case Null
  then show ?case
    using replaced_same [of start s G Null parent A] by (auto simp: take_at.simps [of parent])
next
  case (Leaf n c0 c1)
  show ?case by (rule take_at_Leaf [OF Leaf.prems(2-6)])
next
  case (Interior b n zero one)
  let ?p = "deref parent s"
  have p: "?p \<noteq> 0" "deref (at_bit_pos ?p) s = b" "deref (at_number ?p) s = n" "b \<noteq> 1"
    using Interior.prems(3) wf_interior [OF Interior.prems(1)] by auto
  obtain Z W where A: "A = insert ?p (Z \<union> W)" "?p \<notin> Z \<union> W" "Z \<inter> W = {}"
    "holds s zero (deref (at_zero ?p) s) Z" "holds s one (deref (at_one ?p) s) W"
    using Interior.prems(3) by auto
  obtain out0 r0 z where z: "take_numbers_2 zero r = (out0, r0, z)" by (metis prod_cases3)
  obtain out1 r1 w where w: "take_numbers_2 one r0 = (out1, r1, w)" by (metis prod_cases3)
  obtain j where j: "wf j zero" "wf j one" using Interior.prems(1) by auto
  have "Z \<subseteq> G" "at_zero ?p \<in> places (G - Z)" using Interior.prems(4) A(1,2) by (auto simp: fields_places(1))
  from Interior.IH(1) [OF j(1) Interior.prems(2) A(4) this z]
  obtain s1 where s1: "take_at (at_zero ?p) r s = Some (out0, r0, s1)" "replaced start (at_zero ?p) z G Z s s1"
    "\<forall>k. nodes_left k s \<longrightarrow> nodes_left k s1" by blast
  note r1 = replaced_zero [OF Interior.prems(2,4,5) refl p(1-3) A(1-3,5) s1(2)]
  from replaced_next [OF r1(1) Interior.prems(5)]
  obtain G1 A1 where g1: "good start s1 G1" "holds s1 (Interior b n z one) (deref parent s1) A1" "A1 \<subseteq> G1"
    "parent \<in> places (G1 - A1)"
    "\<And>t2 s2. replaced start parent t2 G1 A1 s1 s2 \<Longrightarrow> replaced start parent t2 G A s s2" by blast
  have p1: "deref (at_bit_pos ?p) s1 = b" "deref (at_number ?p) s1 = n" using g1(2) unfolding r1(2) by simp_all
  obtain Z1 W1 where A1: "A1 = insert ?p (Z1 \<union> W1)" "?p \<notin> Z1 \<union> W1" "Z1 \<inter> W1 = {}"
    "holds s1 z (deref (at_zero ?p) s1) Z1" "holds s1 one (deref (at_one ?p) s1) W1"
    using g1(2) unfolding r1(2) by auto
  have "W1 \<subseteq> G1" "at_one ?p \<in> places (G1 - W1)" using g1(3) A1(1,2) by (auto simp: fields_places(1))
  from Interior.IH(2) [OF j(2) g1(1) A1(5) this w]
  obtain s2 where s2: "take_at (at_one ?p) r0 s1 = Some (out1, r1, s2)" "replaced start (at_one ?p) w G1 W1 s1 s2"
    "\<forall>k. nodes_left k s1 \<longrightarrow> nodes_left k s2" by blast
  note r2 = replaced_one [OF g1(1,3,4) r1(2) p(1) p1 A1(1-4) s2(2)]
  from replaced_next [OF r2(1) g1(4)]
  obtain G2 A2 where g2: "good start s2 G2" "holds s2 (Interior b n z w) (deref parent s2) A2" "A2 \<subseteq> G2"
    "parent \<in> places (G2 - A2)"
    "\<And>t2 s3. replaced start parent t2 G2 A2 s2 s3 \<Longrightarrow> replaced start parent t2 G1 A1 s1 s3" by blast
  have e: "deref (at_zero (deref parent s2)) s2 = 0 \<and> deref (at_one (deref parent s2)) s2 = 0 \<longleftrightarrow> z = Null \<and> w = Null"
    "z = Null \<and> w = Null \<Longrightarrow> A2 = {deref parent s2}"
    using g2(2) holds_null by auto
  obtain s3 where s3: "drop_empty parent ?p s2 = Some s3"
    "replaced start parent (if z = Null \<and> w = Null then Null else Interior b n z w) G2 A2 s2 s3"
    "\<forall>k. nodes_left k s2 \<longrightarrow> nodes_left k s3"
    using drop_empty_spec [OF g2(1-4) refl _ e] p(1) unfolding r2(2) by auto
  have "take_at parent r s = Some (out0 @ out1, r1, s3)"
    using p s1(1) s2(1) s3(1) by (simp add: take_at.simps [of parent] Let_def)
  moreover have "out = out0 @ out1" "r' = r1" "t' = (if z = Null \<and> w = Null then Null else Interior b n z w)"
    using Interior.prems(6) z w by simp_all
  ultimately show ?case using g1(5) [OF g2(5) [OF s3(2)]] s1(3) s2(3) s3(3) by simp
qed

section \<open>Releasing and printing\<close>

lemma release_tree_at_spec:
  "wf k t \<Longrightarrow> good start s G \<Longrightarrow> holds s t p A \<Longrightarrow> A \<subseteq> G \<Longrightarrow>
   \<exists>s'. release_tree_at p s = Some s' \<and> good start s' (G - A) \<and> keeps (places (G - A)) s s'"
proof (induction t arbitrary: k s G p A)
  case Null
  then show ?case by (simp add: release_tree_at.simps [of 0])
next
  case (Leaf n c0 c1)
  then have p: "p \<noteq> 0" "A = {p}" "p \<in> G" "deref (at_bit_pos p) s = 1" by auto
  obtain s' where "free_node p s = Some s'" "good start s' (G - {p})" "keeps (places (G - {p})) s s'"
    using free_node_good [OF Leaf.prems(2) p(3)] by blast
  then show ?case using p by (simp add: release_tree_at.simps [of p])
next
  case (Interior b n zero one)
  have b: "1 <s b" using wf_interior [OF Interior.prems(1)] .
  obtain j where j: "wf j zero" "wf j one" using Interior.prems(1) by auto
  have p: "p \<noteq> 0" "deref (at_bit_pos p) s = b" using Interior.prems(3) by auto
  obtain Z W where A: "A = insert p (Z \<union> W)" "p \<notin> Z \<union> W" "Z \<inter> W = {}"
    "holds s zero (deref (at_zero p) s) Z" "holds s one (deref (at_one p) s) W"
    using Interior.prems(3) by auto
  have sub: "Z \<subseteq> G" "W \<subseteq> G - Z" "{p} \<subseteq> G - Z" using A(1-3) Interior.prems(4) by auto
  obtain s1 where s1: "release_tree_at (deref (at_zero p) s) s = Some s1" "good start s1 (G - Z)"
    "keeps (places (G - Z)) s s1"
    using Interior.IH(1) [OF j(1) Interior.prems(2) A(4) sub(1)] by blast
  have one: "deref (at_one p) s1 = deref (at_one p) s"
    using keepsD [OF s1(3)] sub(3) by (simp add: fields_places(1))
  have "holds s1 one (deref (at_one p) s1) W"
    unfolding one by (rule holds_keeps [OF A(5) keeps_mono [OF s1(3) fields_in_places [OF sub(2)]]])
  from Interior.IH(2) [OF j(2) s1(2) this sub(2)]
  obtain s2 where s2: "release_tree_at (deref (at_one p) s1) s1 = Some s2" "good start s2 (G - Z - W)"
    "keeps (places (G - Z - W)) s1 s2" by blast
  have "p \<in> G - Z - W" using A(2) sub(3) by simp
  from free_node_good [OF s2(2) this]
  obtain s3 where s3: "free_node p s2 = Some s3" "good start s3 (G - Z - W - {p})"
    "keeps (places (G - Z - W - {p})) s2 s3" by blast
  have "G - Z - W - {p} = G - A" using A(1) by blast
  moreover have "keeps (places (G - A)) s s3"
  proof (rule keeps_trans [OF keeps_trans])
    show "keeps (places (G - A)) s s1" "keeps (places (G - A)) s1 s2" "keeps (places (G - A)) s2 s3"
      by (rule keeps_mono [OF s1(3)] keeps_mono [OF s2(3)] keeps_mono [OF s3(3)], rule fields_mono(2), use A(1) in blast)+
  qed
  moreover have "release_tree_at p s = Some s3"
    using p b s1(1) s2(1) s3(1) by (simp add: release_tree_at.simps [of p])
  ultimately show ?case using s3(2) by simp
qed

lemma print_spec: "wf k t \<Longrightarrow> holds s t p A \<Longrightarrow> \<exists>out. print_radix_tree_values p s = Some out"
proof (induction t arbitrary: k p A)
  case (Interior b n zero one)
  then obtain Z W where h: "holds s zero (deref (at_zero p) s) Z" "holds s one (deref (at_one p) s) W" by auto
  obtain j where "wf j zero" "wf j one" using Interior.prems(1) by auto
  then obtain x y where "print_radix_tree_values (deref (at_zero p) s) s = Some x"
    "print_radix_tree_values (deref (at_one p) s) s = Some y"
    using Interior.IH h by blast
  then show ?case by (simp add: print_radix_tree_values.simps [of p])
qed (auto simp: print_radix_tree_values.simps)

section \<open>The whole program\<close>

definition program_holds :: "cint \<Rightarrow> radix_program \<Rightarrow> tree \<Rightarrow> bool" where
  "program_holds start s t \<longleftrightarrow> tree_ok t \<and> (\<exists>G. good start s G \<and> holds s t (tree_variable s) G)"

lemma replaced_program:
  "replaced start Tree_Variable t' G G s s' \<Longrightarrow> tree_ok t' \<Longrightarrow> program_holds start s' t'"
  by (auto simp: replaced_def program_holds_def)

lemma add_number_at_spec:
  assumes "add_number x t = Some t'" "\<not> bit x 31" "program_holds start s t" "nodes_left (k + 2) s"
    "length (to_list t) + 1 < 2 ^ 32"
  shows "\<exists>s'. add_number_at x s = Some s' \<and> program_holds start s' t' \<and> nodes_left k s' \<and>
    length (to_list t') = length (to_list t) + 1"
proof -
  obtain G where G: "good start s G" "holds s t (deref Tree_Variable s) G" "tree_ok t"
    using assms(3) by (auto simp: program_holds_def)
  have t': "tree_ok t'" "mset (to_list t') = add_mset x (mset (to_list t))"
    using add_number_spec [OF G(3) assms(2)] assms(1) by simp_all
  have "size (mset (to_list t')) = size (mset (to_list t)) + 1" unfolding t'(2) by simp
  moreover obtain s' where "add_loop MAX_BITS x Tree_Variable s = Some s'" "replaced start Tree_Variable t' G G s s'"
    "nodes_left k s'"
    using add_loop_spec [of MAX_BITS x t t' start s G Tree_Variable G k] assms(1,4,5) G(1,2)
    by (auto simp: add_number_def fields_places(3))
  ultimately show ?thesis using replaced_program t'(1) by (auto simp: add_number_at_def)
qed

lemma take_numbers_at_spec:
  assumes "take_numbers t n = (out, t')" "program_holds start s t"
  shows "\<exists>s'. take_numbers_at n s = Some (out, s') \<and> program_holds start s' t' \<and>
    (\<forall>k. nodes_left k s \<longrightarrow> nodes_left k s') \<and> length (to_list t') \<le> length (to_list t)"
proof -
  obtain G where G: "good start s G" "holds s t (deref Tree_Variable s) G" "tree_ok t"
    using assms(2) by (auto simp: program_holds_def)
  obtain r' where t: "take_numbers_2 t n = (out, r', t')"
    using assms(1) by (auto simp: take_numbers_def split: prod.splits)
  have "wf 31 t" using G(3) by (simp add: tree_ok_def)
  from take_at_spec [OF this G(1,2) order_refl fields_places(3) t]
  obtain s' where "take_at Tree_Variable n s = Some (out, r', s')" "replaced start Tree_Variable t' G G s s'"
    "\<forall>k. nodes_left k s \<longrightarrow> nodes_left k s'" by blast
  moreover note take_numbers_spec [OF G(3) assms(1)]
  ultimately show ?thesis using replaced_program by (simp add: take_numbers_at_def)
qed

lemma take_loop_at_spec:
  "take_loop wr t limit = Some (t', out) \<Longrightarrow> program_holds start s t \<Longrightarrow>
   \<exists>s'. take_loop_at wr limit s = Some (out, s') \<and> program_holds start s' t' \<and>
    (\<forall>k. nodes_left k s \<longrightarrow> nodes_left k s') \<and> length (to_list t') \<le> length (to_list t)"
proof (induction "nat limit" arbitrary: t limit t' out s rule: less_induct)
  case less
  show ?case
  proof (cases "0 < limit")
    case False
    then show ?thesis using less.prems by (simp add: take_loop.simps [of wr t] take_loop_at.simps [of wr limit])
  next
    case True
    define n where "n = nat (if limit < 100 then limit else 100)"
    obtain out1 t1 where o: "take_numbers t n = (out1, t1)" by (cases "take_numbers t n")
    obtain s1 where s1: "take_numbers_at n s = Some (out1, s1)" "program_holds start s1 t1"
      "\<forall>k. nodes_left k s \<longrightarrow> nodes_left k s1" "length (to_list t1) \<le> length (to_list t)"
      using take_numbers_at_spec [OF o less.prems(2)] by blast
    have model: "take_loop wr t limit = (case write_loop wr out1 (int (length out1)) of None \<Rightarrow> None
        | Some w \<Rightarrow> if out1 = [] then Some (t1, w)
          else map_option (\<lambda>(t, later). (t, w @ later)) (take_loop wr t1 (limit - int (length out1))))"
      using True o by (simp add: take_loop.simps [of wr t limit] n_def Let_def cong: option.case_cong)
    have code: "take_loop_at wr limit s = Option.bind (write_loop wr out1 (int (length out1)))
        (\<lambda>w. if out1 = [] then Some (w, s1)
          else Option.bind (take_loop_at wr (limit - int (length out1)) s1) (\<lambda>(later, s). Some (w @ later, s)))"
      using True s1(1) by (simp add: take_loop_at.simps [of wr limit] n_def Let_def)
    obtain w where w: "write_loop wr out1 (int (length out1)) = Some w"
      using less.prems(1) unfolding model by (auto split: option.splits)
    show ?thesis
    proof (cases "out1 = []")
      case True
      then show ?thesis using less.prems(1) s1 code w unfolding model by simp
    next
      case False
      then obtain later where l: "take_loop wr t1 (limit - int (length out1)) = Some (t', later)" "out = w @ later"
        using less.prems(1) w unfolding model by auto
      have "nat (limit - int (length out1)) < nat limit" using False True by simp
      from less.hyps [OF this l(1) s1(2)] show ?thesis using code w False l(2) s1(3,4) by auto
    qed
  qed
qed

text \<open>The program has room for \<open>r\<close> more numbers.\<close>

definition ready_for :: "cint \<Rightarrow> nat \<Rightarrow> radix_program \<Rightarrow> tree \<Rightarrow> bool" where
  "ready_for start r s t \<longleftrightarrow> program_holds start s t \<and> nodes_left (2 * r) s \<and> length (to_list t) + r < 2 ^ 32"

lemma process_number_at_spec:
  assumes "process_number wr x (t, file) = Some (t', file')" "ready_for start (Suc r) s t"
  shows "\<exists>s'. process_number_at wr x (s, file) = Some (s', file') \<and> ready_for start r s' t'"
proof (cases "sint x < 0")
  case True
  then obtain out where o: "take_loop wr t (sint (- x)) = Some (t', out)" "file' = file @ out"
    using assms(1) by (auto simp: process_number_def)
  have h: "program_holds start s t" "nodes_left (2 * r) s" "length (to_list t) + r < 2 ^ 32"
    using assms(2) nodes_left_mono [of "2 * Suc r" s "2 * r"] by (simp_all add: ready_for_def)
  from take_loop_at_spec [OF o(1) h(1)]
  obtain s' where "take_loop_at wr (sint (- x)) s = Some (out, s')" "program_holds start s' t'" "nodes_left (2 * r) s'"
    "length (to_list t') \<le> length (to_list t)"
    using h(2) by blast
  then show ?thesis using True h(3) o(2) by (simp add: process_number_at_def ready_for_def)
next
  case False
  then have "add_number x t = Some t'" "file' = file" "\<not> bit x 31"
    using assms(1) negative_iff by (auto simp: process_number_def)
  then show ?thesis
    using False assms(2) add_number_at_spec [of x t t' start s "2 * r"]
    by (auto simp: process_number_at_def ready_for_def)
qed

lemma process_buffer_at_spec:
  "process_buffer wr xs (t, written) = Some (t', written') \<Longrightarrow> ready_for start (length xs + r) s t \<Longrightarrow>
   \<exists>s'. process_buffer_at wr xs (s, written) = Some (s', written') \<and> ready_for start r s' t'"
proof (induction xs arbitrary: t written s)
  case (Cons x xs)
  then obtain t1 done1 where 1: "process_number wr x (t, written) = Some (t1, done1)"
    "process_buffer wr xs (t1, done1) = Some (t', written')"
    by (auto split: bind_splits)
  have "ready_for start (Suc (length xs + r)) s t" using Cons.prems(2) by simp
  from process_number_at_spec [OF 1(1) this]
  obtain s1 where "process_number_at wr x (s, written) = Some (s1, done1)" "ready_for start (length xs + r) s1 t1" by blast
  then show ?case using Cons.IH [OF 1(2)] by simp
qed simp

lemma main_loop_at_spec:
  "main_loop wr bufs (t, written) = Some written' \<Longrightarrow> ready_for start (length (concat bufs)) s t \<Longrightarrow>
   \<exists>s' t'. main_loop_at wr bufs (s, written) = Some (s', written') \<and> program_holds start s' t'"
proof (induction bufs arbitrary: t written s)
  case Nil
  then show ?case by (auto simp: ready_for_def)
next
  case (Cons buf bufs)
  show ?case
  proof (cases "buf = []")
    case True
    then show ?thesis using Cons.prems by (auto simp: ready_for_def)
  next
    case False
    then obtain t1 done1 where 1: "process_buffer wr buf (t, written) = Some (t1, done1)" "main_loop wr bufs (t1, done1) = Some written'"
      using Cons.prems(1) by (auto split: bind_splits)
    have "ready_for start (length buf + length (concat bufs)) s t" using Cons.prems(2) by simp
    from process_buffer_at_spec [OF 1(1) this]
    obtain s1 where "process_buffer_at wr buf (s, written) = Some (s1, done1)" "ready_for start (length (concat bufs)) s1 t1" by blast
    then show ?thesis using Cons.IH [OF 1(2)] False by simp
  qed
qed

lemma start_up_ready: "r \<le> 8000000 \<Longrightarrow> ready_for 0x2000000 r (start_up h) Null"
proof -
  have "reachable_heap 0x2000000 (init_heap 0x2000000 h, Map.empty)"
    by (rule reachable_init) (simp add: SMALL_BLOCK_LIMIT_def)
  moreover have "held {} = Map.empty" by (auto simp: held_def)
  moreover assume "r \<le> 8000000"
  ultimately show ?thesis
    by (simp add: ready_for_def program_holds_def good_def start_up_def tree_ok_def nodes_left_def init_heap_def
        SMALL_BLOCK_LIMIT_def)
qed

text \<open>At the end every block is released.\<close>

lemma radix_main_spec:
  assumes "length argv = 3" "main_loop wr (input (open_file (argv ! 1) ''r'')) (Null, []) = Some file"
    "length (concat (input (open_file (argv ! 1) ''r''))) \<le> 8000000"
  shows "\<exists>text s. radix_main open_file input wr argv (start_up h) = Some (Finished text file s) \<and>
    (text = [] \<longleftrightarrow> 0 \<le> sint (open_file (argv ! 1) ''r'') \<and> 0 \<le> sint (open_file (argv ! 2) ''w'')) \<and>
    reachable_heap 0x2000000 (heap_of s, Map.empty)"
proof -
  obtain s t where s: "main_loop_at wr (input (open_file (argv ! 1) ''r'')) (start_up h, []) = Some (s, file)"
    "program_holds 0x2000000 s t"
    using main_loop_at_spec [OF assms(2) start_up_ready [OF assms(3)]] by blast
  obtain G where G: "good 0x2000000 s G" "holds s t (tree_variable s) G" "wf 31 t"
    using s(2) by (auto simp: program_holds_def tree_ok_def)
  obtain s' where s': "release_tree_at (tree_variable s) s = Some s'" "good 0x2000000 s' {}"
    using release_tree_at_spec [OF G(3,1,2) order_refl] by auto
  moreover have "held {} = Map.empty" by (auto simp: held_def)
  ultimately show ?thesis using assms(1) s(1) by (simp add: radix_main_def Let_def good_def not_less)
qed

section \<open>Properties\<close>

text \<open>
  C6: the program on the memory of the allocator, from its arguments on: if both files can be
  opened and the system call writes what it is given, it prints nothing, the file gets what a
  bag of numbers gives for the input, and when it ends every block it has allocated is released
  again. With up to 8 million numbers the heap cannot run over the end of the address space.
\<close>

theorem radix_program_refines_bag:
  assumes "length argv = 3" and "length (concat (input (open_file (argv ! 1) ''r''))) \<le> 8000000"
  shows "\<exists>text s. radix_main open_file input (\<lambda>n. n) argv (start_up h) = Some (Finished text
      (snd (fold bag_number (concat (takeWhile (\<lambda>b. b \<noteq> []) (input (open_file (argv ! 1) ''r'')))) ({#}, []))) s) \<and>
    (text = [] \<longleftrightarrow> 0 \<le> sint (open_file (argv ! 1) ''r'') \<and> 0 \<le> sint (open_file (argv ! 2) ''w'')) \<and>
    reachable_heap 0x2000000 (heap_of s, Map.empty)"
  using radix_main_spec [of argv "\<lambda>n. n" input open_file _ h] assms main_loop_spec [OF radix.empty(1)] radix.empty(2)
  by simp

theorem radix_program_refines_bag_witness:
  "\<exists>s. radix_main (\<lambda>path flags. 3) (\<lambda>fd. [[5, 3, -1], [9, -5]]) (\<lambda>n. n) [''radix'', ''in'', ''out''] (start_up blank_heap) =
      Some (Finished [] [3, 5, 9] s) \<and>
    reachable_heap 0x2000000 (heap_of s, Map.empty)"
proof -
  have "snd (fold bag_number (concat (takeWhile (\<lambda>b. b \<noteq> []) [[5, 3, -1], [9, -5]])) ({#}, [])) = [3, 5, 9 :: cint]"
    by (simp add: bag_number_def)
  then show ?thesis
    using radix_program_refines_bag [of "[''radix'', ''in'', ''out'']" "\<lambda>fd. [[5, 3, -1], [9, -5]]" "\<lambda>path flags. 3" blank_heap]
    by auto
qed

text \<open>Without two arguments the program prints how to use it and terminates.\<close>

theorem radix_usage:
  "length argv \<noteq> 3 \<Longrightarrow>
   radix_main open_file input wr argv s = Some (Terminated (''Use: radix input-file output-file'' @ [CHR 0x0A]) (- 1))"
  by (simp add: radix_main_def)

text \<open>The debugging output of a tree the program holds always ends.\<close>

theorem print_radix_tree_returns:
  assumes "program_holds start s t"
  shows "\<exists>out. print_radix_tree_values (tree_variable s) s = Some out"
  using assms print_spec by (auto simp: program_holds_def tree_ok_def)

end
