(* ===== verification/Tiny_Programs.thy ===== *)
theory Tiny_Programs
  imports Tiny_Lib
begin

text \<open>
  The small programs for the simulator, \<^verbatim>\<open>A5/resources/tiny_riscv\<close>: \<^verbatim>\<open>echo.c\<close>, \<^verbatim>\<open>fib.c\<close>, \<^verbatim>\<open>erat.c\<close>
  and the first radix sort \<^verbatim>\<open>radix.c\<close>, with the console functions of \<^verbatim>\<open>lib.c\<close> they use. The
  console is the list of characters still to be read and the text printed so far; a
  program that waits for a character that never comes is \<open>None\<close>, and so is one that reads
  past the end of a string, or pointers as counters or the reverse in a union. The size of
  the stack is not modelled, and the memory that \<^verbatim>\<open>allocate\<close> of \<^verbatim>\<open>lib.c\<close> hands out is taken as
  unbounded; a node is a value, not an address.

  The lemmas show that the Fibonacci program prints the number modulo 2^32, the sieve the
  primes below a million, and the sorting program the sorted numbers without their top bit.
\<close>

section \<open>The console\<close>

definition is_eol :: "char \<Rightarrow> bool" where
  "is_eol c \<longleftrightarrow> c = CHR 0x0A \<or> c = CHR 0x0D"

text \<open>\<^verbatim>\<open>read_string(buffer, max_chars)\<close>: the characters stored before the zero, and the input left.\<close>

fun read_string :: "nat \<Rightarrow> string \<Rightarrow> (string \<times> string) option" where
  "read_string max_chars [] = None"
| "read_string max_chars (c # input) =
     (if \<not> is_eol c \<and> 1 < max_chars
      then map_option (\<lambda>(buffer, rest). (c # buffer, rest)) (read_string (max_chars - 1) input)
      else Some ([], input))"

definition print_uns :: "cint \<Rightarrow> string" where
  "print_uns val = c_str (fst (uns_to_str val))"

text \<open>\<^verbatim>\<open>hello.c\<close>: the characters of the array up to the terminating zero.\<close>

definition hello_main :: string where
  "hello_main = c_str (''Hello from RISC-V'' @ [CHR 0x0A, CHR 0x00])"

definition echo_main :: "string \<Rightarrow> string option" where
  "echo_main input = map_option (\<lambda>(buffer, rest).
     ''Hej med dig - skriv noget, saa bliver jeg glad: '' @ ''Du skrev: '' @ c_str buffer) (read_string 128 input)"

section \<open>Fibonacci numbers\<close>

function fib :: "cint \<Rightarrow> cint" where
  "fib arg = (if arg < 2 then arg else fib (arg - 1) + fib (arg - 2))"
  by pat_completeness auto
termination
proof (relation "measure unat")
  fix arg :: cint
  assume "\<not> arg < 2"
  then have "2 \<le> unat arg" by (simp add: word_less_nat_alt)
  then have "unat (arg - 1) < unat arg" "unat (arg - 2) < unat arg"
    by (simp_all add: unat_sub word_le_nat_alt)
  then show "(arg - 1, arg) \<in> measure unat" "(arg - 2, arg) \<in> measure unat" by simp_all
qed simp

declare fib.simps [simp del]

text \<open>The exit status and the text printed.\<close>

definition fib_main :: "string list \<Rightarrow> (int \<times> string) option" where
  "fib_main argv =
     (if length argv < 2 then Some (1, ''fib() missing arguments'' @ [CHR 0x0A])
      else map_option (\<lambda>arg. (0, ''fib('' @ argv ! 1 @ '') = '' @ print_uns (fib arg) @ [CHR 0x0A]))
        (str_to_uns (argv ! 1)))"

section \<open>The sieve\<close>

text \<open>
  \<^verbatim>\<open>for (j = i; j < MAX; j += i) numbers[j] = 0\<close>. The program calls it with \<open>i\<close> from 2; the
  case 0, in which the C loop would not end, only makes the function total.
\<close>

function strike :: "nat \<Rightarrow> nat \<Rightarrow> nat \<Rightarrow> byte list \<Rightarrow> byte list" where
  "strike lim i j numbers = (if j < lim \<and> i \<noteq> 0 then strike lim i (j + i) (numbers[j := 0]) else numbers)"
  by pat_completeness auto
termination by (relation "measure (\<lambda>(lim, i, j, _). lim - j)") auto

declare strike.simps [simp del]

function sieve :: "nat \<Rightarrow> nat \<Rightarrow> byte list \<Rightarrow> string" where
  "sieve lim i numbers =
     (if i < lim
      then if numbers ! i \<noteq> 0 then print_uns (word_of_nat i) @ '' '' @ sieve lim (i + 1) (strike lim i i numbers)
           else sieve lim (i + 1) numbers
      else [])"
  by pat_completeness auto
termination by (relation "measure (\<lambda>(lim, i, _). lim - i)") auto

declare sieve.simps [simp del]

definition erat :: "nat \<Rightarrow> string" where
  "erat lim = ''Primtal: 1 '' @ sieve lim 2 (replicate lim 1) @ [CHR 0x0A]"

definition erat_main :: string where "erat_main = erat 1000000"

section \<open>The radix sort\<close>

text \<open>
  The union of a node holds the member written last. Both members are two words of four
  bytes: two null pointers are read as two counters 0 and the reverse. That is needed, as a
  new node is written as an interior node also at \<^verbatim>\<open>bit_pos\<close> 0, where its counters are read
  next. Any other pointer read as a counter, or counter as a pointer, is \<open>None\<close>.
\<close>

datatype tnode = TNULL | TNode (bit_pos: nat) (members: tunion)
  and tunion = Leaf (count_zero: cint) (count_one: cint) | Interior (zero: tnode) (one: tnode)

definition MAX_BITS :: nat where "MAX_BITS = 30"

definition new_node :: "nat \<Rightarrow> tnode" where
  "new_node b = TNode b (Interior TNULL TNULL)"

definition leaf :: "tunion \<Rightarrow> (cint \<times> cint) option" where
  "leaf u = (case u of Leaf c0 c1 \<Rightarrow> Some (c0, c1)
     | Interior z o1 \<Rightarrow> if z = TNULL \<and> o1 = TNULL then Some (0, 0) else None)"

definition interior :: "tunion \<Rightarrow> (tnode \<times> tnode) option" where
  "interior u = (case u of Interior z o1 \<Rightarrow> Some (z, o1)
     | Leaf c0 c1 \<Rightarrow> if c0 = 0 \<and> c1 = 0 then Some (TNULL, TNULL) else None)"

lemma interior_size: "interior u = Some (z, o1) \<Longrightarrow> size z < Suc (size u) \<and> size o1 < Suc (size u)"
  by (cases u) (auto simp: interior_def split: if_splits)

text \<open>The loop of \<^verbatim>\<open>add_number\<close> from \<open>b\<close> down to 0, on the node \<^verbatim>\<open>*parent\<close>.\<close>

fun add_at :: "nat \<Rightarrow> cint \<Rightarrow> tnode \<Rightarrow> tnode option" where
  "add_at b number nptr =
     (let nptr = (if nptr = TNULL then new_node b else nptr)
      in if b \<noteq> 0
         then Option.bind (interior (members nptr)) (\<lambda>(z, o1).
             if push_bit b 1 AND number \<noteq> 0
             then map_option (\<lambda>p. TNode (bit_pos nptr) (Interior z p)) (add_at (b - 1) number o1)
             else map_option (\<lambda>p. TNode (bit_pos nptr) (Interior p o1)) (add_at (b - 1) number z))
         else Option.bind (leaf (members nptr)) (\<lambda>(c0, c1).
             if number AND 1 \<noteq> 0 then Some (TNode (bit_pos nptr) (Leaf c0 (c1 + 1)))
             else Some (TNode (bit_pos nptr) (Leaf (c0 + 1) c1))))"

declare add_at.simps [simp del]

definition add_number :: "cint \<Rightarrow> tnode \<Rightarrow> tnode option" where
  "add_number number tree = add_at MAX_BITS number tree"

function print_numbers_2 :: "tnode \<Rightarrow> cint \<Rightarrow> string option" where
  "print_numbers_2 TNULL higher_bits = Some []"
| "print_numbers_2 (TNode b u) higher_bits =
     (if b = 0
      then map_option (\<lambda>(c0, c1).
          concat (replicate (nat (sint c0)) (print_uns (push_bit 1 higher_bits) @ '' '')) @
          concat (replicate (nat (sint c1)) (print_uns (push_bit 1 higher_bits OR 1) @ '' ''))) (leaf u)
      else Option.bind (interior u) (\<lambda>(z, o1).
          Option.bind (print_numbers_2 z (push_bit 1 higher_bits)) (\<lambda>s.
          map_option (\<lambda>s'. s @ s') (print_numbers_2 o1 (push_bit 1 higher_bits OR 1)))))"
  by pat_completeness auto
termination by (relation "measure (\<lambda>(t, _). size t)") (auto dest: interior_size)

lemma read_string_shorter: "read_string k input = Some (b, rest) \<Longrightarrow> length rest < length input"
  by (induction k input arbitrary: b rule: read_string.induct) (auto split: if_splits)

text \<open>The loop that reads the numbers; it ends with the tree.\<close>

function read_numbers :: "tnode \<Rightarrow> string \<Rightarrow> tnode option" where
  "read_numbers tree input =
     (case read_string 128 input of None \<Rightarrow> None
      | Some (buffer, input') \<Rightarrow>
          (case str_to_uns (c_str buffer) of None \<Rightarrow> None
           | Some arg \<Rightarrow>
               if arg = 0 then Some tree
               else case add_number arg tree of None \<Rightarrow> None | Some tree \<Rightarrow> read_numbers tree input'))"
  by pat_completeness auto
termination by (relation "measure (\<lambda>(_, input). length input)") (auto simp: read_string_shorter)

declare read_numbers.simps [simp del]

definition prompt :: string where
  "prompt = ''Angiv r'' @ [CHR 0xC3, CHR 0xA6] @ ''kke af tal st'' @ [CHR 0xC3, CHR 0xB8] @
     ''rre end 0, et per linie, afslut med 0'' @ [CHR 0x0A]"

text \<open>The bit positions of the nodes that are released, in order.\<close>

function release_tree :: "tnode \<Rightarrow> nat list option" where
  "release_tree TNULL = Some []"
| "release_tree (TNode b u) =
     map_option (\<lambda>bs. bs @ [b])
       (if b \<noteq> 0
        then Option.bind (interior u) (\<lambda>(z, o1).
            Option.bind (release_tree z) (\<lambda>bs. map_option (\<lambda>bs'. bs @ bs') (release_tree o1)))
        else Some [])"
  by pat_completeness auto
termination by (relation "measure size") (auto dest: interior_size)

definition tiny_radix_main :: "string \<Rightarrow> string option" where
  "tiny_radix_main input =
     (case read_numbers TNULL input of None \<Rightarrow> None
      | Some tree \<Rightarrow> (case print_numbers_2 tree 0 of None \<Rightarrow> None
          | Some s \<Rightarrow> map_option (\<lambda>_. prompt @ ''Sorterer tallene'' @ [CHR 0x0A] @ s @ [CHR 0x0A]) (release_tree tree)))"

section \<open>Decimal text\<close>

lemma digit_plain:
  assumes "d < (10 :: nat)"
  shows "char_of (48 + d) \<noteq> CHR 0x00" and "\<not> is_eol (char_of (48 + d))"
proof -
  have "of_char (char_of (48 + d) :: char) = 48 + d" using assms by simp
  then have "(of_char (char_of (48 + d) :: char) :: nat) \<noteq> of_char (CHR 0x00)"
    "(of_char (char_of (48 + d) :: char) :: nat) \<noteq> of_char (CHR 0x0A)"
    "(of_char (char_of (48 + d) :: char) :: nat) \<noteq> of_char (CHR 0x0D)" by simp_all
  then show "char_of (48 + d) \<noteq> CHR 0x00" "\<not> is_eol (char_of (48 + d))"
    unfolding is_eol_def by metis+
qed

lemma c_str_decimal [simp]: "c_str (decimal n) = decimal n"
  unfolding c_str_def takeWhile_eq_all_conv by (auto dest!: decimal_digit simp: digit_plain)

lemma print_uns_decimal: "print_uns w = decimal (unat w)"
  by (simp add: print_uns_def uns_to_str_decimal)

text \<open>A line is read as it is, without its end.\<close>

lemma read_string_line:
  "\<forall>c \<in> set s. \<not> is_eol c \<Longrightarrow> is_eol e \<Longrightarrow> length s < k \<Longrightarrow> read_string k (s @ e # rest) = Some (s, rest)"
  by (induction s arbitrary: k) auto

lemma read_string_long:
  "\<forall>c \<in> set s. \<not> is_eol c \<Longrightarrow> k \<le> length s \<Longrightarrow> 0 < k \<Longrightarrow>
   read_string k (s @ rest) = Some (take (k - 1) s, drop k (s @ rest))"
proof (induction s arbitrary: k)
  case (Cons c s)
  show ?case
  proof (cases "k = 1")
    case False
    then obtain m where "k = Suc (Suc m)" using Cons.prems(3) by (cases k; cases "k - 1") auto
    then show ?thesis using Cons by simp
  qed simp
qed simp

section \<open>Fibonacci numbers\<close>

lemma fib_fibonacci: "n < 2 ^ 32 \<Longrightarrow> fib (word_of_nat n) = word_of_nat (fibonacci n)"
proof (induction n rule: fibonacci.induct)
  case (3 n)
  have "unat (word_of_nat (Suc (Suc n)) :: cint) = Suc (Suc n)"
    using "3.prems" by (simp only: unat_of_nat) simp
  then have "\<not> (word_of_nat (Suc (Suc n)) :: cint) < 2" unfolding word_less_nat_alt by simp
  moreover have "word_of_nat (Suc (Suc n)) - 1 = (word_of_nat (Suc n) :: cint)"
    "word_of_nat (Suc (Suc n)) - 2 = (word_of_nat n :: cint)" by simp_all
  ultimately show ?case
    using 3 by (subst fib.simps) (simp del: of_nat_Suc)
qed (simp_all add: fib.simps)

section \<open>The sieve\<close>

definition is_prime :: "nat \<Rightarrow> bool" where
  "is_prime n \<longleftrightarrow> 2 \<le> n \<and> (\<forall>d \<in> {2..<n}. \<not> d dvd n)"

lemma strike_nth:
  "0 < i \<Longrightarrow> length numbers = lim \<Longrightarrow> length (strike lim i j numbers) = lim \<and>
   (\<forall>k<lim. strike lim i j numbers ! k = (if j \<le> k \<and> i dvd (k - j) then 0 else numbers ! k))"
proof (induction lim i j numbers rule: strike.induct)
  case (1 lim i j numbers)
  show ?case
  proof (cases "j < lim")
    case True
    have "i dvd (k - j) \<longleftrightarrow> k = j \<or> j + i \<le> k \<and> i dvd (k - (j + i))" if "j \<le> k" for k
    proof (cases "j + i \<le> k")
      case True
      have "k - j = (k - (j + i)) + i" "k \<noteq> j" using True "1.prems"(1) by simp_all
      then show ?thesis using True dvd_add_triv_right_iff [of i "k - (j + i)"] by simp
    next
      case False
      then show ?thesis using that "1.prems"(1) by (auto dest: dvd_imp_le)
    qed
    moreover have "j + i \<le> k \<Longrightarrow> k \<noteq> j" for k using "1.prems"(1) by simp
    ultimately show ?thesis
      using "1.IH" True "1.prems" by (auto simp: strike.simps [of lim i j numbers] nth_list_update)
  next
    case False
    then show ?thesis using "1.prems"(2) by (simp add: strike.simps [of lim i j numbers])
  qed
qed

text \<open>When the outer loop is at \<open>i\<close>, the numbers with a divisor below \<open>i\<close> are struck out.\<close>

definition struck :: "nat \<Rightarrow> nat \<Rightarrow> byte list \<Rightarrow> bool" where
  "struck lim i numbers \<longleftrightarrow> length numbers = lim \<and>
     (\<forall>k. i \<le> k \<longrightarrow> k < lim \<longrightarrow> (numbers ! k \<noteq> 0 \<longleftrightarrow> (\<forall>d \<in> {2..<i}. \<not> d dvd k)))"

lemma struck_next:
  assumes "struck lim i numbers" "2 \<le> i" "i < lim"
  shows "struck lim (i + 1) (if numbers ! i \<noteq> 0 then strike lim i i numbers else numbers)"
proof -
  have len: "length numbers = lim" and at: "\<And>k. i \<le> k \<Longrightarrow> k < lim \<Longrightarrow> numbers ! k \<noteq> 0 \<longleftrightarrow> (\<forall>d \<in> {2..<i}. \<not> d dvd k)"
    using assms(1) by (auto simp: struck_def)
  have ins: "{2..<i + 1} = insert i {2..<i}" using assms(2) by auto
  show ?thesis
  proof (cases "numbers ! i \<noteq> 0")
    case True
    have "strike lim i i numbers ! k = (if i dvd k then 0 else numbers ! k)" if "i < k" "k < lim" for k
    proof -
      have "i dvd (k - i) \<longleftrightarrow> i dvd k" using that by (simp add: dvd_minus_self)
      then show ?thesis using strike_nth [of i numbers lim i] assms(2) len that by simp
    qed
    then show ?thesis
      using True strike_nth [of i numbers lim i] assms(2) len at unfolding struck_def ins by auto
  next
    case False
    then obtain d where d: "d \<in> {2..<i}" "d dvd i" using at [of i] assms(3) by blast
    then have "\<not> i dvd k" if "\<forall>d \<in> {2..<i}. \<not> d dvd k" for k using that dvd_trans by blast
    then show ?thesis using False len at unfolding struck_def ins by auto
  qed
qed

lemma sieve_primes:
  "2 \<le> i \<Longrightarrow> lim \<le> 2 ^ 32 \<Longrightarrow> struck lim i numbers \<Longrightarrow>
   sieve lim i numbers = concat (map (\<lambda>p. decimal p @ '' '') (filter is_prime [i..<lim]))"
proof (induction lim i numbers rule: sieve.induct)
  case (1 lim i numbers)
  show ?case
  proof (cases "i < lim")
    case True
    have "numbers ! i \<noteq> 0 \<longleftrightarrow> is_prime i"
      using "1.prems" True by (simp add: struck_def is_prime_def)
    moreover have "unat (word_of_nat i :: cint) = i" using True "1.prems"(2) by (simp add: unat_of_nat)
    moreover have "[i..<lim] = i # [i + 1..<lim]" using True by (simp add: upt_conv_Cons)
    ultimately show ?thesis
      using 1 True struck_next [OF "1.prems"(3,1) True]
      by (cases "is_prime i") (simp_all add: sieve.simps [of lim i numbers] print_uns_decimal)
  qed (simp add: sieve.simps [of lim i numbers])
qed

lemma struck_init: "struck lim 2 (replicate lim 1)"
  by (simp add: struck_def)

lemma erat_primes:
  "lim \<le> 2 ^ 32 \<Longrightarrow>
   erat lim = ''Primtal: 1 '' @ concat (map (\<lambda>p. decimal p @ '' '') (filter is_prime [2..<lim])) @ [CHR 0x0A]"
  by (simp add: erat_def sieve_primes struck_init)

section \<open>The tree of the radix sort\<close>

text \<open>The shape of a tree below \<^verbatim>\<open>bit_pos\<close> \<open>b\<close>: counters at 0, two subtrees above.\<close>

fun tree_ok :: "nat \<Rightarrow> tnode \<Rightarrow> bool" where
  "tree_ok b TNULL \<longleftrightarrow> True"
| "tree_ok b (TNode bp (Leaf c0 c1)) \<longleftrightarrow> bp = b \<and> b = 0"
| "tree_ok b (TNode bp (Interior z o1)) \<longleftrightarrow> bp = b \<and> b \<noteq> 0 \<and> tree_ok (b - 1) z \<and> tree_ok (b - 1) o1"

text \<open>The numbers of a tree in order; \<open>hb\<close> are the bits above it.\<close>

fun numbers_of :: "nat \<Rightarrow> tnode \<Rightarrow> nat list" where
  "numbers_of hb TNULL = []"
| "numbers_of hb (TNode bp (Leaf c0 c1)) = replicate (unat c0) (2 * hb) @ replicate (unat c1) (2 * hb + 1)"
| "numbers_of hb (TNode bp (Interior z o1)) = numbers_of (2 * hb) z @ numbers_of (2 * hb + 1) o1"

lemma numbers_of_range:
  "tree_ok b t \<Longrightarrow> x \<in> set (numbers_of hb t) \<Longrightarrow> hb * 2 ^ Suc b \<le> x \<and> x < (hb + 1) * 2 ^ Suc b"
proof (induction hb t arbitrary: b rule: numbers_of.induct)
  case (3 hb bp z o1)
  then obtain b' where b: "b = Suc b'" "tree_ok b' z" "tree_ok b' o1" by (cases b) auto
  then consider "x \<in> set (numbers_of (2 * hb) z)" | "x \<in> set (numbers_of (2 * hb + 1) o1)" using 3 by auto
  then show ?case
  proof cases
    case 1
    then show ?thesis using "3.IH"(1) [OF b(2)] b(1) by simp
  next
    case 2
    then show ?thesis using "3.IH"(2) [OF b(3)] b(1) by simp
  qed
qed auto

lemma numbers_of_sorted: "tree_ok b t \<Longrightarrow> sorted (numbers_of hb t)"
proof (induction hb t arbitrary: b rule: numbers_of.induct)
  case (3 hb bp z o1)
  then obtain b' where b: "b = Suc b'" "tree_ok b' z" "tree_ok b' o1" by (cases b) auto
  have "x \<le> y" if "x \<in> set (numbers_of (2 * hb) z)" "y \<in> set (numbers_of (2 * hb + 1) o1)" for x y
    using numbers_of_range [OF b(2) that(1)] numbers_of_range [OF b(3) that(2)] by simp
  then show ?case using "3.IH" b by (simp add: sorted_append)
qed (auto simp: sorted_append)

text \<open>The bits of the number below \<open>b\<close> decide the way.\<close>

definition low_bits_of :: "nat \<Rightarrow> cint \<Rightarrow> nat" where
  "low_bits_of b w = unat w mod 2 ^ Suc b"

lemma bit_test: "b < 32 \<Longrightarrow> push_bit b 1 AND w \<noteq> 0 \<longleftrightarrow> bit w b" for w :: cint
  by (auto simp: word32_eq_iff bit_simps)

lemma bit_unat: "bit w b \<longleftrightarrow> unat w div 2 ^ b mod 2 = 1" for w :: cint
proof -
  have "bit (unat w) b = bit w b" by (simp add: bit_unsigned_iff)
  then show ?thesis by (simp only: bit_iff_odd [of "unat w"] odd_iff_mod_2_eq_one)
qed

lemma low_bits_step:
  assumes "b < 31"
  shows "low_bits_of (Suc b) w = (if bit w (Suc b) then 2 ^ Suc b else 0) + low_bits_of b w"
proof -
  have "unat w mod (2 ^ Suc b * 2) = 2 ^ Suc b * (unat w div 2 ^ Suc b mod 2) + unat w mod 2 ^ Suc b"
    by (rule mod_mult2_eq)
  then show ?thesis by (auto simp: low_bits_of_def bit_unat mult.commute)
qed

text \<open>The node that is used: the one there, or a new one without numbers.\<close>

lemma present_node:
  assumes "tree_ok b t"
  obtains u c0 c1 where "(if t = TNULL then new_node b else t) = TNode b u" "leaf u = Some (c0, c1)" "b = 0"
      "numbers_of hb t = replicate (unat c0) (2 * hb) @ replicate (unat c1) (2 * hb + 1)"
  | z o1 b' where "(if t = TNULL then new_node b else t) = TNode b (Interior z o1)" "b = Suc b'"
      "tree_ok b' z" "tree_ok b' o1" "numbers_of hb t = numbers_of (2 * hb) z @ numbers_of (2 * hb + 1) o1"
proof (cases t)
  case TNULL
  show thesis
    by (cases b) (use that TNULL in \<open>simp_all add: new_node_def leaf_def\<close>)
next
  case (TNode bp u)
  show thesis
    by (cases u; cases b) (use that TNode assms in \<open>auto simp: leaf_def\<close>)
qed

lemma count_up: "length (replicate (unat c) x @ xs) < 2 ^ 31 \<Longrightarrow> unat (c + 1) = Suc (unat c)" for c :: cint
proof -
  assume "length (replicate (unat c) x @ xs) < 2 ^ 31"
  then have "unat c + 1 < 2 ^ 32" by simp
  then show ?thesis by (simp add: unat_word_ariths)
qed

lemma add_at_spec:
  "b < 31 \<Longrightarrow> tree_ok b t \<Longrightarrow> length (numbers_of hb t) < 2 ^ 31 \<Longrightarrow>
   \<exists>t'. add_at b w t = Some t' \<and> tree_ok b t' \<and>
     mset (numbers_of hb t') = add_mset (hb * 2 ^ Suc b + low_bits_of b w) (mset (numbers_of hb t))"
proof (induction b arbitrary: hb t)
  case 0
  obtain u c0 c1 where t: "(if t = TNULL then new_node 0 else t) = TNode 0 u" "leaf u = Some (c0, c1)"
    "numbers_of hb t = replicate (unat c0) (2 * hb) @ replicate (unat c1) (2 * hb + 1)"
    using present_node [OF "0.prems"(2), of hb] by auto
  have w: "w AND 1 \<noteq> 0 \<longleftrightarrow> unat w mod 2 = 1"
    using bit_test [of 0 w] bit_unat [of w 0] by (simp add: and.commute [of w])
  have c: "unat (c0 + 1) = Suc (unat c0)" "unat (c1 + 1) = Suc (unat c1)"
    using "0.prems"(3) t(3) count_up [of c0 0 "replicate (unat c1) 0"] count_up [of c1 0 "replicate (unat c0) 0"] by auto
  show ?case
  proof (cases "w AND 1 \<noteq> 0")
    case True
    then have "add_at 0 w t = Some (TNode 0 (Leaf c0 (c1 + 1)))" by (simp add: add_at.simps [of 0] t(1,2) Let_def)
    then show ?thesis using True w c t(3) by (simp add: low_bits_of_def)
  next
    case False
    then have "add_at 0 w t = Some (TNode 0 (Leaf (c0 + 1) c1))" by (simp add: add_at.simps [of 0] t(1,2) Let_def)
    then show ?thesis using False w c t(3) by (simp add: low_bits_of_def)
  qed
next
  case (Suc b)
  obtain z o1 where t: "(if t = TNULL then new_node (Suc b) else t) = TNode (Suc b) (Interior z o1)"
    "tree_ok b z" "tree_ok b o1" "numbers_of hb t = numbers_of (2 * hb) z @ numbers_of (2 * hb + 1) o1"
    by (rule present_node [OF Suc.prems(2), of hb]) (auto intro: that)
  have test: "push_bit (Suc b) 1 AND w \<noteq> 0 \<longleftrightarrow> bit w (Suc b)" using Suc.prems(1) by (intro bit_test) simp
  note low = low_bits_step [of b w]
  show ?case
  proof (cases "bit w (Suc b)")
    case True
    obtain p where p: "add_at b w o1 = Some p" "tree_ok b p"
      "mset (numbers_of (2 * hb + 1) p) = add_mset ((2 * hb + 1) * 2 ^ Suc b + low_bits_of b w) (mset (numbers_of (2 * hb + 1) o1))"
      using Suc.IH [OF _ t(3), of "2 * hb + 1"] Suc.prems t(4) by auto
    then have "add_at (Suc b) w t = Some (TNode (Suc b) (Interior z p))"
      using True test by (simp add: add_at.simps [of "Suc b"] t(1) Let_def interior_def)
    then show ?thesis using p(2,3) t low True Suc.prems(1) by (simp add: algebra_simps)
  next
    case False
    obtain p where p: "add_at b w z = Some p" "tree_ok b p"
      "mset (numbers_of (2 * hb) p) = add_mset ((2 * hb) * 2 ^ Suc b + low_bits_of b w) (mset (numbers_of (2 * hb) z))"
      using Suc.IH [OF _ t(2), of "2 * hb"] Suc.prems t(4) by auto
    then have "add_at (Suc b) w t = Some (TNode (Suc b) (Interior p o1))"
      using False test by (simp add: add_at.simps [of "Suc b"] t(1) Let_def interior_def)
    then show ?thesis using p(2,3) t low False Suc.prems(1) by (simp add: algebra_simps)
  qed
qed

text \<open>The tree is released as a whole: its unions are read by the right member.\<close>

lemma release_typed: "tree_ok b t \<Longrightarrow> \<exists>bs. release_tree t = Some bs"
proof (induction b arbitrary: t)
  case 0
  then show ?case by (cases t; cases "members t") auto
next
  case (Suc b)
  show ?case
  proof (cases t)
    case (TNode bp u)
    then obtain z o1 where "u = Interior z o1" "bp = Suc b" "tree_ok b z" "tree_ok b o1"
      using Suc.prems by (cases u) auto
    moreover from this obtain bs bs' where "release_tree z = Some bs" "release_tree o1 = Some bs'"
      using Suc.IH by blast
    ultimately show ?thesis using TNode by (simp add: interior_def)
  qed simp
qed

section \<open>Printing the tree\<close>

definition number_line :: "nat list \<Rightarrow> string" where
  "number_line ns = concat (map (\<lambda>n. decimal n @ '' '') ns)"

lemma number_line_append: "number_line (ms @ ns) = number_line ms @ number_line ns"
  by (simp add: number_line_def)

lemma number_line_replicate: "number_line (replicate k n) = concat (replicate k (decimal n @ '' ''))"
  by (simp add: number_line_def)

lemma shift_in:
  "push_bit 1 (word_of_nat hb) = (word_of_nat (2 * hb) :: cint)"
  "push_bit 1 (word_of_nat hb) OR 1 = (word_of_nat (2 * hb + 1) :: cint)"
  by (simp_all add: or_one_eq)

lemma print_numbers_spec:
  "tree_ok b t \<Longrightarrow> b \<le> 30 \<Longrightarrow> hb < 2 ^ (30 - b) \<Longrightarrow> length (numbers_of hb t) < 2 ^ 31 \<Longrightarrow>
   print_numbers_2 t (word_of_nat hb) = Some (number_line (numbers_of hb t))"
proof (induction hb t arbitrary: b rule: numbers_of.induct)
  case (1 hb)
  then show ?case by (simp add: number_line_def)
next
  case (2 hb bp c0 c1)
  have count: "nat (sint c) = unat c" if "unat c < 2 ^ 31" for c :: cint
    using sint_of_nat [OF that] by simp
  have "2 * hb + 1 < 2 ^ 32" using 2 by simp
  then have "unat (word_of_nat (2 * hb) :: cint) = 2 * hb" "unat (word_of_nat (2 * hb + 1) :: cint) = 2 * hb + 1"
    by (simp_all only: unat_of_nat) simp_all
  then have printed: "print_uns (push_bit 1 (word_of_nat hb)) = decimal (2 * hb)"
    "print_uns (push_bit 1 (word_of_nat hb) OR 1) = decimal (2 * hb + 1)"
    by (simp only: shift_in(1) print_uns_decimal, simp only: shift_in(2) print_uns_decimal)
  have "nat (sint c0) = unat c0" "nat (sint c1) = unat c1" using 2(4) by (simp_all add: count)
  then show ?case using 2(1)
    unfolding print_numbers_2.simps numbers_of.simps printed number_line_append number_line_replicate by (simp add: leaf_def)
next
  case (3 hb bp z o1)
  then obtain b' where b: "b = Suc b'" "tree_ok b' z" "tree_ok b' o1" by (cases b) auto
  have "2 * 2 ^ (30 - Suc b') = (2 :: nat) ^ (30 - b')"
    using 3(4) b(1) by (simp flip: power_Suc add: Suc_diff_Suc)
  then have "2 * hb + 1 < 2 ^ (30 - b')" using 3(5) b(1) by simp
  then have halves: "print_numbers_2 z (push_bit 1 (word_of_nat hb)) = Some (number_line (numbers_of (2 * hb) z))"
    "print_numbers_2 o1 (push_bit 1 (word_of_nat hb) OR 1) = Some (number_line (numbers_of (2 * hb + 1) o1))"
    unfolding shift_in(2) unfolding shift_in(1) using "3.IH"(1) [OF b(2)] "3.IH"(2) [OF b(3)] "3.prems" b(1) by simp_all
  show ?case
    unfolding print_numbers_2.simps using "3.prems"(1) b(1)
    by (simp only: interior_def tunion.case bind.bind_lunit prod.case halves) (simp add: number_line_append)
qed

text \<open>One number per line.\<close>

definition number_lines :: "nat list \<Rightarrow> string" where
  "number_lines ns = concat (map (\<lambda>n. decimal n @ [CHR 0x0A]) ns)"

lemma read_decimal: "n < 2 ^ 32 \<Longrightarrow> read_string 128 (decimal n @ CHR 0x0A # rest) = Some (decimal n, rest)"
proof -
  assume "n < 2 ^ 32"
  then have "length (decimal n) \<le> 10" by (intro length_decimal) simp_all
  moreover have "\<forall>c \<in> set (decimal n). \<not> is_eol c" by (auto dest!: decimal_digit simp: digit_plain)
  ultimately show ?thesis by (intro read_string_line) (simp_all add: is_eol_def)
qed

lemma read_numbers_spec:
  "\<forall>n \<in> set ns. 0 < n \<and> n < 2 ^ 32 \<Longrightarrow> tree_ok 30 t \<Longrightarrow> length (numbers_of 0 t) + length ns < 2 ^ 31 \<Longrightarrow>
   \<exists>t'. read_numbers t (number_lines ns @ ''0'' @ CHR 0x0A # rest) = Some t' \<and> tree_ok 30 t' \<and>
     mset (numbers_of 0 t') = mset (numbers_of 0 t) + mset (map (\<lambda>n. n mod 2 ^ 31) ns)"
proof (induction ns arbitrary: t)
  case Nil
  have "read_string 128 (''0'' @ CHR 0x0A # rest) = Some (''0'', rest)"
    using read_decimal [of 0 rest] by (simp add: decimal.simps [of 0] char_of_48)
  moreover have "str_to_uns (c_str ''0'') = Some 0"
    using str_to_uns_decimal [of 0] c_str_decimal [of 0] by (simp add: decimal.simps [of 0] char_of_48)
  ultimately show ?case using Nil by (simp add: number_lines_def read_numbers.simps)
next
  case (Cons n ns)
  have n: "0 < n" "n < 2 ^ 32" using Cons.prems(1) by auto
  have u: "unat (word_of_nat n :: cint) = n" using n(2) by (simp add: unat_of_nat)
  then have "(word_of_nat n :: cint) \<noteq> 0" using n(1) by auto
  moreover obtain t1 where t1: "add_number (word_of_nat n) t = Some t1" "tree_ok 30 t1"
    "mset (numbers_of 0 t1) = add_mset (n mod 2 ^ 31) (mset (numbers_of 0 t))"
    using add_at_spec [of 30 t 0 "word_of_nat n"] Cons.prems u by (auto simp: add_number_def MAX_BITS_def low_bits_of_def)
  moreover have "read_string 128 (number_lines (n # ns) @ ''0'' @ CHR 0x0A # rest) =
      Some (decimal n, number_lines ns @ ''0'' @ CHR 0x0A # rest)"
    using read_decimal [OF n(2), of "number_lines ns @ ''0'' @ CHR 0x0A # rest"] by (simp add: number_lines_def)
  ultimately have step: "read_numbers t (number_lines (n # ns) @ ''0'' @ CHR 0x0A # rest) =
      read_numbers t1 (number_lines ns @ ''0'' @ CHR 0x0A # rest)"
    by (subst read_numbers.simps) (simp add: str_to_uns_decimal)
  have "length (numbers_of 0 t1) = Suc (length (numbers_of 0 t))"
    using arg_cong [OF t1(3), of size] by simp
  then show ?case using Cons.IH [OF _ t1(2)] Cons.prems t1(3) unfolding step by simp
qed

section \<open>Properties\<close>

text \<open>
  C31: the sieve prints exactly the primes below a million, in order, after the number 1.
\<close>

theorem erat_prints_primes:
  "erat_main = ''Primtal: 1 '' @ concat (map (\<lambda>p. decimal p @ '' '') (filter is_prime [2..<1000000])) @ [CHR 0x0A]"
  unfolding erat_main_def by (rule erat_primes) simp

text \<open>
  The Fibonacci program returns for every argument below 2^32 and prints the Fibonacci
  number modulo 2^32.
\<close>

theorem fib_prints_fibonacci:
  assumes "n < 2 ^ 32"
  shows "fib_main [prog, decimal n] =
    Some (0, ''fib('' @ decimal n @ '') = '' @ decimal (fibonacci n mod 2 ^ 32) @ [CHR 0x0A])"
  using fib_fibonacci [OF assms] by (simp add: fib_main_def str_to_uns_decimal print_uns_decimal unat_of_nat)

theorem fib_prints_fibonacci_witness:
  "fib_main [''fib'', decimal 50] =
    Some (0, ''fib('' @ decimal 50 @ '') = '' @ decimal (fibonacci 50 mod 2 ^ 32) @ [CHR 0x0A])"
  by (rule fib_prints_fibonacci) simp

text \<open>
  C32: given lines with numbers from 1 to 2^32 - 1 and a line with 0, the first radix sort prints
  the numbers in ascending order, each without its bit 31 (the tree starts at bit 30), and
  reads no pointer but null as a counter and no counter as a pointer.
\<close>

theorem tiny_radix_sorts:
  assumes "\<forall>n \<in> set ns. 0 < n \<and> n < 2 ^ 32" and "length ns < 2 ^ 31"
  shows "tiny_radix_main (number_lines ns @ ''0'' @ CHR 0x0A # rest) =
    Some (prompt @ ''Sorterer tallene'' @ [CHR 0x0A] @
      concat (map (\<lambda>n. decimal n @ '' '') (sort (map (\<lambda>n. n mod 2 ^ 31) ns))) @ [CHR 0x0A])"
proof -
  obtain t where t: "read_numbers TNULL (number_lines ns @ ''0'' @ CHR 0x0A # rest) = Some t" "tree_ok 30 t"
    "mset (numbers_of 0 t) = mset (map (\<lambda>n. n mod 2 ^ 31) ns)"
    using read_numbers_spec [OF assms(1), of TNULL rest] assms(2) by auto
  have "numbers_of 0 t = sort (map (\<lambda>n. n mod 2 ^ 31) ns)"
    using t(3) numbers_of_sorted [OF t(2)] by (intro properties_for_sort [symmetric]) simp_all
  moreover have "length (numbers_of 0 t) < 2 ^ 31" using arg_cong [OF t(3), of size] assms(2) by simp
  then have "print_numbers_2 t 0 = Some (number_line (numbers_of 0 t))"
    using print_numbers_spec [OF t(2), of 0] by simp
  moreover obtain bs where "release_tree t = Some bs" using release_typed [OF t(2)] by blast
  ultimately show ?thesis using t(1) by (simp add: tiny_radix_main_def number_line_def)
qed

theorem tiny_radix_sorts_witness:
  "tiny_radix_main (number_lines [7, 2147483650, 3] @ ''0'' @ CHR 0x0A # []) =
    Some (prompt @ ''Sorterer tallene'' @ [CHR 0x0A] @
      concat (map (\<lambda>n. decimal n @ '' '') (sort (map (\<lambda>n. n mod 2 ^ 31) [7, 2147483650, 3]))) @ [CHR 0x0A])"
  by (rule tiny_radix_sorts) simp_all

text \<open>
  A line that does not fit into the buffer of \<open>k\<close> bytes is cut, and the character
  behind the cut is lost: \<^verbatim>\<open>read_string\<close> has read it before it tests for room.
\<close>

theorem long_line_loses_character:
  assumes "\<forall>c \<in> set s. \<not> is_eol c" and "k \<le> length s" and "0 < k"
  shows "read_string k (s @ rest) = Some (take (k - 1) s, drop k (s @ rest))"
  using assms by (rule read_string_long)

end
