(* ===== verification/Job_Queue.thy ===== *)
theory Job_Queue
  imports Prelude
begin

text \<open>
  The bounded job queue of \<^verbatim>\<open>A2/job_queue.c\<close>: a ring buffer with a fill count. Each
  operation runs with the queue's mutex held, from the lock (or the return of a
  \<^verbatim>\<open>pthread_cond_wait\<close>) to the unlock (or the next wait); here an operation is one such
  critical section. \<open>Blocked\<close> is the call of \<^verbatim>\<open>pthread_cond_wait\<close>, \<open>Undefined\<close> an access
  outside the array, of a slot never written, of the array after it was freed, or of a
  condition variable after it was destroyed. \<open>jq_mutex\<close> and \<open>jq_conds\<close> say whether the
  mutex and the condition variables can be used: \<^verbatim>\<open>job_queue_destroy\<close> destroys them. Locking
  the destroyed mutex is a step of \<open>Job_Threads\<close>, which composes the critical sections to
  threads.

  The lemmas show that the ring buffer is a first-in first-out queue that blocks exactly
  when it is full or empty.
\<close>

section \<open>State\<close>

record 'a job_queue =
  jq_size :: nat
  jq_head :: nat
  jq_tail :: nat
  jq_array :: "'a option list option"
  jq_filled :: nat
  jq_destroy :: bool
  jq_conds :: bool
  jq_mutex :: bool

datatype 'r outcome = Blocked | Undefined | Return 'r

definition job_queue_init :: "nat \<Rightarrow> 'a job_queue" where
  "job_queue_init capacity =
     \<lparr>jq_size = capacity, jq_head = 0, jq_tail = 0, jq_array = Some (replicate capacity None),
      jq_filled = 0, jq_destroy = False, jq_conds = True, jq_mutex = True\<rparr>"

section \<open>Operations\<close>

definition job_queue_push :: "'a \<Rightarrow> 'a job_queue \<Rightarrow> 'a job_queue outcome" where
  "job_queue_push data q =
     (if \<not> jq_conds q then Undefined
      else if jq_filled q = jq_size q then Blocked
      else case jq_array q of None \<Rightarrow> Undefined
       | Some arr \<Rightarrow>
           if length arr \<le> jq_head q \<or> jq_size q = 0 then Undefined
           else Return (q\<lparr>jq_array := Some (arr[jq_head q := Some data]),
                  jq_head := (jq_head q + 1) mod jq_size q, jq_filled := jq_filled q + 1\<rparr>))"

text \<open>The job and the queue; \<open>None\<close> is the return value -1.\<close>

definition job_queue_pop :: "'a job_queue \<Rightarrow> ('a option \<times> 'a job_queue) outcome" where
  "job_queue_pop q =
     (if jq_filled q = 0 \<and> jq_destroy q then Return (None, q)
      else if \<not> jq_conds q then Undefined
      else if jq_filled q = 0 then Blocked
      else case jq_array q of None \<Rightarrow> Undefined
       | Some arr \<Rightarrow>
           if length arr \<le> jq_tail q \<or> jq_size q = 0 then Undefined
           else case arr ! jq_tail q of None \<Rightarrow> Undefined
            | Some data \<Rightarrow> Return (Some data, q\<lparr>jq_tail := (jq_tail q + 1) mod jq_size q,
                  jq_filled := jq_filled q - 1\<rparr>))"

text \<open>
  \<^verbatim>\<open>job_queue_destroy\<close> in three parts: up to its loop; its loop with the release of the array
  and of the condition variables, at the end of which the mutex is unlocked; and the
  release of the mutex, which comes after the unlock.
\<close>

definition destroy_begin :: "'a job_queue \<Rightarrow> 'a job_queue" where
  "destroy_begin q = q\<lparr>jq_destroy := True\<rparr>"

definition destroy_finish :: "'a job_queue \<Rightarrow> 'a job_queue outcome" where
  "destroy_finish q =
     (if \<not> jq_conds q then Undefined
      else if 0 < jq_filled q then Blocked
      else Return (q\<lparr>jq_array := None, jq_conds := False\<rparr>))"

definition destroy_mutex :: "'a job_queue \<Rightarrow> 'a job_queue" where
  "destroy_mutex q = q\<lparr>jq_mutex := False\<rparr>"

section \<open>The queue as a list\<close>

definition slot_at :: "'a job_queue \<Rightarrow> nat \<Rightarrow> nat" where
  "slot_at q i = (jq_tail q + i) mod jq_size q"

definition jobs :: "'a job_queue \<Rightarrow> 'a list" where
  "jobs q = (case jq_array q of None \<Rightarrow> []
    | Some arr \<Rightarrow> map (\<lambda>i. the (arr ! slot_at q i)) [0..<jq_filled q])"

definition queue_ok :: "'a job_queue \<Rightarrow> bool" where
  "queue_ok q \<longleftrightarrow> (case jq_array q of None \<Rightarrow> False
    | Some arr \<Rightarrow> jq_conds q \<and> 0 < jq_size q \<and> length arr = jq_size q \<and> jq_tail q < jq_size q \<and>
        jq_filled q \<le> jq_size q \<and> jq_head q = slot_at q (jq_filled q) \<and>
        (\<forall>i<jq_filled q. arr ! slot_at q i \<noteq> None))"

lemma slot_at_eq:
  assumes "jq_tail q < jq_size q" "i \<le> jq_size q"
  shows "slot_at q i = (if jq_tail q + i < jq_size q then jq_tail q + i else jq_tail q + i - jq_size q)"
  using assms by (simp add: slot_at_def le_mod_geq)

lemma slot_at_inj:
  assumes "jq_tail q < jq_size q" "i < jq_size q" "j < jq_size q" "slot_at q i = slot_at q j"
  shows "i = j"
  using assms(2-4) slot_at_eq [OF assms(1), of i] slot_at_eq [OF assms(1), of j]
  by (auto split: if_splits)

lemma length_jobs: "queue_ok q \<Longrightarrow> length (jobs q) = jq_filled q"
  by (auto simp: queue_ok_def jobs_def split: option.splits)

lemma queue_ok_conds: "queue_ok q \<Longrightarrow> jq_conds q"
  by (auto simp: queue_ok_def split: option.splits)

lemma job_queue_init_ok: "0 < capacity \<Longrightarrow> queue_ok (job_queue_init capacity) \<and> jobs (job_queue_init capacity) = []"
  by (simp add: queue_ok_def job_queue_init_def jobs_def slot_at_def)

lemma job_queue_push_spec:
  assumes "queue_ok q"
  shows "if length (jobs q) = jq_size q then job_queue_push d q = Blocked
    else \<exists>q'. job_queue_push d q = Return q' \<and> queue_ok q' \<and> jobs q' = jobs q @ [d] \<and>
      jq_size q' = jq_size q \<and> jq_destroy q' = jq_destroy q"
proof (cases "jq_filled q = jq_size q")
  case True
  then show ?thesis using length_jobs [OF assms] queue_ok_conds [OF assms] by (simp add: job_queue_push_def)
next
  case False
  obtain arr where arr: "jq_array q = Some arr" "0 < jq_size q" "length arr = jq_size q"
    "jq_tail q < jq_size q" "jq_filled q < jq_size q" "jq_head q = slot_at q (jq_filled q)"
    "\<forall>i<jq_filled q. arr ! slot_at q i \<noteq> None" "jq_conds q"
    using assms False by (auto simp: queue_ok_def split: option.splits)
  have head: "jq_head q < jq_size q" using arr(2,6) by (simp add: slot_at_def)
  define q' where "q' = q\<lparr>jq_array := Some (arr[jq_head q := Some d]),
    jq_head := (jq_head q + 1) mod jq_size q, jq_filled := jq_filled q + 1\<rparr>"
  have slot: "slot_at q' i = slot_at q i" for i by (simp add: slot_at_def q'_def)
  have other: "slot_at q i \<noteq> jq_head q" if "i < jq_filled q" for i
    using slot_at_inj [of q i "jq_filled q"] that arr(4,5,6) by auto
  have nth: "arr[jq_head q := Some d] ! slot_at q i = (if i = jq_filled q then Some d else arr ! slot_at q i)"
    if "i \<le> jq_filled q" for i
    using other [of i] that head arr(3,6) by (cases "i = jq_filled q") auto
  have "jobs q' = map (\<lambda>i. the (arr[jq_head q := Some d] ! slot_at q i)) [0..<jq_filled q + 1]"
    unfolding jobs_def slot by (simp add: q'_def)
  also have "\<dots> = jobs q @ [d]" using nth arr(1) by (simp add: jobs_def)
  finally have jobs: "jobs q' = jobs q @ [d]" .
  have "queue_ok q'"
    unfolding queue_ok_def slot using arr nth
    by (auto simp: q'_def slot_at_def mod_Suc_eq)
  moreover have "job_queue_push d q = Return q'"
    using False arr head by (simp add: job_queue_push_def q'_def)
  ultimately show ?thesis using jobs False length_jobs [OF assms] by (auto simp: q'_def)
qed

lemma job_queue_pop_spec:
  assumes "queue_ok q"
  shows "case jobs q of
      [] \<Rightarrow> job_queue_pop q = (if jq_destroy q then Return (None, q) else Blocked)
    | d # ds \<Rightarrow> \<exists>q'. job_queue_pop q = Return (Some d, q') \<and> queue_ok q' \<and> jobs q' = ds \<and>
        jq_size q' = jq_size q \<and> jq_destroy q' = jq_destroy q"
proof (cases "jobs q")
  case Nil
  then have "jq_filled q = 0" using length_jobs [OF assms] by simp
  then show ?thesis using Nil queue_ok_conds [OF assms] by (simp add: job_queue_pop_def)
next
  case (Cons d ds)
  then obtain k where k: "jq_filled q = Suc k" using length_jobs [OF assms] by (cases "jq_filled q") auto
  obtain arr where arr: "jq_array q = Some arr" "0 < jq_size q" "length arr = jq_size q"
    "jq_tail q < jq_size q" "jq_filled q \<le> jq_size q" "jq_head q = slot_at q (jq_filled q)"
    "\<forall>i<jq_filled q. arr ! slot_at q i \<noteq> None" "jq_conds q"
    using assms by (auto simp: queue_ok_def split: option.splits)
  have tail: "slot_at q 0 = jq_tail q" using arr(4) by (simp add: slot_at_def)
  define q' where "q' = q\<lparr>jq_tail := (jq_tail q + 1) mod jq_size q, jq_filled := jq_filled q - 1\<rparr>"
  have slot: "slot_at q' i = slot_at q (Suc i)" for i
    by (simp add: slot_at_def q'_def mod_Suc_eq mod_add_left_eq)
  have all: "jobs q = map (\<lambda>i. the (arr ! slot_at q i)) (0 # [Suc 0..<Suc k])"
    using arr(1) k by (simp add: jobs_def upt_conv_Cons del: upt_Suc)
  have "arr ! jq_tail q \<noteq> None" using arr(7) k tail by (metis zero_less_Suc)
  then have "arr ! jq_tail q = Some d" using all Cons tail by auto
  then have pop: "job_queue_pop q = Return (Some d, q')"
    using arr k by (simp add: job_queue_pop_def q'_def)
  have "jobs q' = map (\<lambda>i. the (arr ! slot_at q (Suc i))) [0..<k]"
    unfolding jobs_def slot using arr(1) k by (simp add: q'_def)
  also have "\<dots> = map (\<lambda>i. the (arr ! slot_at q i)) [Suc 0..<Suc k]"
    by (simp add: map_Suc_upt [symmetric] comp_def del: upt_Suc map_Suc_upt)
  finally have "jobs q' = ds" using all Cons by simp
  moreover have "queue_ok q'"
    unfolding queue_ok_def slot using arr k by (auto simp: q'_def)
  ultimately show ?thesis using pop Cons by (auto simp: q'_def)
qed

section \<open>The interface the threads rely on\<close>

text \<open>
  A bounded first-in first-out queue that can be shut down. The lemmas compare sequences
  of calls with the same calls on a list; a call that would block is not made.
\<close>

datatype 'a call = Push 'a | Pop

locale bounded_fifo =
  fixes push :: "'a \<Rightarrow> 'q \<Rightarrow> 'q outcome"
    and pop :: "'q \<Rightarrow> ('a option \<times> 'q) outcome"
    and contents :: "'q \<Rightarrow> 'a list"
    and capacity :: "'q \<Rightarrow> nat"
    and closed :: "'q \<Rightarrow> bool"
    and ok :: "'q \<Rightarrow> bool"
  assumes push_full: "ok q \<Longrightarrow> length (contents q) = capacity q \<Longrightarrow> push d q = Blocked"
    and push_room: "ok q \<Longrightarrow> length (contents q) \<noteq> capacity q \<Longrightarrow>
      \<exists>q'. push d q = Return q' \<and> ok q' \<and> contents q' = contents q @ [d] \<and>
        capacity q' = capacity q \<and> closed q' = closed q"
    and pop_empty: "ok q \<Longrightarrow> contents q = [] \<Longrightarrow>
      pop q = (if closed q then Return (None, q) else Blocked)"
    and pop_first: "ok q \<Longrightarrow> contents q = d # ds \<Longrightarrow>
      \<exists>q'. pop q = Return (Some d, q') \<and> ok q' \<and> contents q' = ds \<and>
        capacity q' = capacity q \<and> closed q' = closed q"
begin

lemma push_cases:
  assumes "ok q"
  obtains (full) "length (contents q) = capacity q" "push d q = Blocked"
  | (room) q' where "length (contents q) \<noteq> capacity q" "push d q = Return q'" "ok q'"
      "contents q' = contents q @ [d]" "capacity q' = capacity q" "closed q' = closed q"
  using push_full [OF assms] push_room [OF assms] by blast

lemma pop_cases:
  assumes "ok q"
  obtains (blocked) "contents q = []" "\<not> closed q" "pop q = Blocked"
  | (closed) "contents q = []" "closed q" "pop q = Return (None, q)"
  | (job) d ds q' where "contents q = d # ds" "pop q = Return (Some d, q')" "ok q'"
      "contents q' = ds" "capacity q' = capacity q" "closed q' = closed q"
  using pop_empty [OF assms] pop_first [OF assms] by (cases "contents q") auto

text \<open>The jobs that a sequence of calls pops; \<open>None\<close> if one of them blocks or fails.\<close>

fun calls :: "'a call list \<Rightarrow> 'q \<Rightarrow> ('a list \<times> 'q) option" where
  "calls [] q = Some ([], q)"
| "calls (Push d # cs) q = (case push d q of Return q' \<Rightarrow> calls cs q' | _ \<Rightarrow> None)"
| "calls (Pop # cs) q = (case pop q of
     Return (Some d, q') \<Rightarrow> map_option (\<lambda>(out, q'). (d # out, q')) (calls cs q')
   | _ \<Rightarrow> None)"

fun pushed :: "'a call list \<Rightarrow> 'a list" where
  "pushed [] = []"
| "pushed (Push d # cs) = d # pushed cs"
| "pushed (Pop # cs) = pushed cs"

text \<open>What was popped and what is left is what was there and what was pushed, in order.\<close>

lemma calls_fifo:
  "ok q \<Longrightarrow> calls cs q = Some (out, q') \<Longrightarrow>
   ok q' \<and> out @ contents q' = contents q @ pushed cs \<and> closed q' = closed q"
proof (induction cs arbitrary: q out)
  case (Cons c cs)
  show ?case
  proof (cases c)
    case (Push d)
    then show ?thesis using Cons by (cases rule: push_cases [OF Cons.prems(1), of d]) auto
  next
    case Pop
    show ?thesis
    proof (cases rule: pop_cases [OF Cons.prems(1), case_names blocked closed job])
      case (job d ds q1)
      then obtain out' where "calls cs q1 = Some (out', q')" "out = d # out'"
        using Cons.prems(2) Pop by auto
      then show ?thesis using Cons.IH [of q1 out'] job Pop by auto
    qed (use Cons.prems(2) Pop in auto)
  qed
qed simp

text \<open>A queue with enough room takes all jobs and returns them in the same order.\<close>

lemma push_then_pop:
  "ok q \<Longrightarrow> contents q = [] \<Longrightarrow> length ds \<le> capacity q \<Longrightarrow>
   \<exists>q'. calls (map Push ds @ replicate (length ds) Pop) q = Some (ds, q') \<and> contents q' = []"
proof -
  have pops: "\<exists>q'. calls (replicate (length ds) Pop) q = Some (ds, q') \<and> contents q' = []"
    if "ok q" "contents q = ds" for q ds
    using that
  proof (induction ds arbitrary: q)
    case (Cons d ds)
    then obtain q1 where "pop q = Return (Some d, q1)" "ok q1" "contents q1 = ds"
      using pop_first by blast
    then show ?case using Cons.IH [of q1] by auto
  qed simp
  have "\<exists>q'. calls (map Push ds @ cs) q = calls cs q' \<and> ok q' \<and> contents q' = contents q @ ds"
    if "ok q" "length (contents q) + length ds \<le> capacity q" for q ds cs
    using that
  proof (induction ds arbitrary: q)
    case (Cons d ds)
    then obtain q1 where "push d q = Return q1" "ok q1" "contents q1 = contents q @ [d]" "capacity q1 = capacity q"
      using push_room [of q d] by auto
    then show ?case using Cons.IH [of q1] Cons.prems by auto
  qed auto
  then show "ok q \<Longrightarrow> contents q = [] \<Longrightarrow> length ds \<le> capacity q \<Longrightarrow>
      \<exists>q'. calls (map Push ds @ replicate (length ds) Pop) q = Some (ds, q') \<and> contents q' = []"
    using pops by (metis add_0 append_Nil list.size(3))
qed

end

interpretation ring: bounded_fifo job_queue_push job_queue_pop jobs jq_size jq_destroy queue_ok
proof
  fix q :: "'a job_queue" and d ds
  assume ok: "queue_ok q"
  show "length (jobs q) = jq_size q \<Longrightarrow> job_queue_push d q = Blocked"
    "length (jobs q) \<noteq> jq_size q \<Longrightarrow> \<exists>q'. job_queue_push d q = Return q' \<and> queue_ok q' \<and>
      jobs q' = jobs q @ [d] \<and> jq_size q' = jq_size q \<and> jq_destroy q' = jq_destroy q"
    using job_queue_push_spec [OF ok, of d] by auto
  show "jobs q = [] \<Longrightarrow> job_queue_pop q = (if jq_destroy q then Return (None, q) else Blocked)"
    "jobs q = d # ds \<Longrightarrow> \<exists>q'. job_queue_pop q = Return (Some d, q') \<and> queue_ok q' \<and> jobs q' = ds \<and>
      jq_size q' = jq_size q \<and> jq_destroy q' = jq_destroy q"
    using job_queue_pop_spec [OF ok] by auto
qed

section \<open>Properties\<close>

text \<open>
  C39: \<^verbatim>\<open>job_queue_push\<close> waits exactly when the queue holds as many jobs as its capacity, and
  otherwise appends the job; \<^verbatim>\<open>job_queue_pop\<close> returns the oldest job, and on an empty queue
  it waits, or returns -1 after \<^verbatim>\<open>job_queue_destroy\<close> was called. No access leaves the array.
  This is what the code does; \<^verbatim>\<open>job_queue.h\<close> says otherwise in two places: that pushing after
  \<^verbatim>\<open>job_queue_destroy\<close> was called is an error (the code appends), and that a pop returns -1
  once it was called (the code returns the jobs that are left first).
\<close>

theorem job_queue_is_fifo:
  assumes "queue_ok q"
  shows "(if length (jobs q) = jq_size q then job_queue_push d q = Blocked
      else \<exists>q'. job_queue_push d q = Return q' \<and> queue_ok q' \<and> jobs q' = jobs q @ [d]) \<and>
    (case jobs q of
       [] \<Rightarrow> job_queue_pop q = (if jq_destroy q then Return (None, q) else Blocked)
     | e # es \<Rightarrow> \<exists>q'. job_queue_pop q = Return (Some e, q') \<and> queue_ok q' \<and> jobs q' = es)"
  using job_queue_push_spec [OF assms, of d] job_queue_pop_spec [OF assms]
  by (auto split: if_splits list.splits)

theorem job_queue_is_fifo_witness:
  "(if length (jobs (job_queue_init 64 :: nat job_queue)) = jq_size (job_queue_init 64 :: nat job_queue)
      then job_queue_push 7 (job_queue_init 64 :: nat job_queue) = Blocked
      else \<exists>q'. job_queue_push 7 (job_queue_init 64 :: nat job_queue) = Return q' \<and> queue_ok q' \<and>
        jobs q' = jobs (job_queue_init 64) @ [7]) \<and>
    (case jobs (job_queue_init 64 :: nat job_queue) of
       [] \<Rightarrow> job_queue_pop (job_queue_init 64 :: nat job_queue) =
         (if jq_destroy (job_queue_init 64 :: nat job_queue) then Return (None, job_queue_init 64) else Blocked)
     | e # es \<Rightarrow> \<exists>q'. job_queue_pop (job_queue_init 64) = Return (Some e, q') \<and> queue_ok q' \<and> jobs q' = es)"
  by (rule job_queue_is_fifo) (simp add: job_queue_init_ok)

text \<open>
  Whatever pushes and pops are made on a queue, the popped jobs followed by those left
  are the jobs that were there followed by the pushed ones: none is lost, doubled or
  overtaken, however often the indices wrap around.
\<close>

theorem job_queue_order:
  assumes "queue_ok q" and "ring.calls cs q = Some (out, q')"
  shows "out @ jobs q' = jobs q @ ring.pushed cs"
  using ring.calls_fifo [OF assms] by blast

theorem job_queue_order_witness:
  "[1, 2] @ jobs \<lparr>jq_size = 2, jq_head = 1, jq_tail = 0, jq_array = Some [Some 3, Some 2], jq_filled = 1,
      jq_destroy = False, jq_conds = True, jq_mutex = True\<rparr> =
    jobs (job_queue_init 2 :: nat job_queue) @ ring.pushed [Push 1, Push 2, Pop, Push 3, Pop]"
  by (rule job_queue_order)
    (simp_all add: job_queue_init_ok, simp add: job_queue_init_def job_queue_push_def job_queue_pop_def
      numeral_2_eq_2)

end
