(* ===== verification/Job_Threads.thy ===== *)
theory Job_Threads
  imports Job_Queue
begin

text \<open>
  The threads that share a job queue in \<^verbatim>\<open>A2/fauxgrep-mt.c\<close>, \<^verbatim>\<open>A2/fhistogram-mt.c\<close> and
  \<^verbatim>\<open>A2/fibs.c\<close>: \<^verbatim>\<open>main\<close> pushes one job after the other, calls \<^verbatim>\<open>job_queue_destroy\<close> and
  joins the workers; every \<^verbatim>\<open>worker\<close> pops jobs and carries them out until a pop fails. The
  mutex of the queue makes each critical section one step; \<^verbatim>\<open>pthread_cond_wait\<close> ends a
  step with the thread waiting, and a broadcast makes all waiting threads test their
  condition again. A run of the program is a sequence of steps, in any interleaving. A
  spurious wake-up is a step of its own (\<open>spurious\<close>), which the safety theorem admits.

  \<^verbatim>\<open>job_queue_destroy\<close> unlocks the mutex and then destroys it, while workers may still have to
  lock it for their last pop. Such a lock is undefined in C: it is the step \<open>lock_destroyed\<close>
  to a \<open>broken\<close> state, after which nothing is said about the run, so that no step leaves it.

  The lemmas show by rule induction that every job is taken exactly once and in order,
  that no wake-up is lost, that every run ends, and that it ends with all jobs done or
  with the use of the destroyed mutex; and from which states either can happen.
\<close>

section \<open>State\<close>

datatype 'a worker = W_Ready | W_Wait | W_Run 'a | W_Done

text \<open>
  \<open>P_Closing\<close> is \<^verbatim>\<open>job_queue_destroy\<close> at the test of its loop, \<open>P_Unlocked\<close> between its unlock
  and the destruction of the mutex, \<open>P_Done\<close> after its return.
\<close>

datatype producer = P_Ready | P_Wait_full | P_Wait_empty | P_Closing | P_Unlocked | P_Done

record 'a sys =
  queue :: "'a job_queue"
  todo :: "'a list"
  prod :: producer
  workers :: "'a worker list"
  popped :: "'a list"
  finished :: "'a list"
  broken :: bool

definition init_sys :: "nat \<Rightarrow> nat \<Rightarrow> 'a list \<Rightarrow> 'a sys" where
  "init_sys capacity num_threads js =
     \<lparr>queue = job_queue_init capacity, todo = js, prod = P_Ready,
      workers = replicate num_threads W_Ready, popped = [], finished = [], broken = False\<rparr>"

section \<open>Broadcasts\<close>

fun wake :: "'a worker \<Rightarrow> 'a worker" where
  "wake W_Wait = W_Ready"
| "wake w = w"

fun wake_full :: "producer \<Rightarrow> producer" where
  "wake_full P_Wait_full = P_Ready"
| "wake_full p = p"

fun wake_empty :: "producer \<Rightarrow> producer" where
  "wake_empty P_Wait_empty = P_Closing"
| "wake_empty p = p"

definition notempty :: "'a sys \<Rightarrow> 'a sys" where
  "notempty s = s\<lparr>workers := map wake (workers s)\<rparr>"

text \<open>The broadcasts at the end of a pop that left the given queue.\<close>

definition popped_broadcast :: "'a job_queue \<Rightarrow> producer \<Rightarrow> producer" where
  "popped_broadcast q p = wake_full (if jq_filled q = 0 then wake_empty p else p)"

section \<open>Steps\<close>

inductive step :: "'a sys \<Rightarrow> 'a sys \<Rightarrow> bool" where
  push_wait: "prod s = P_Ready \<Longrightarrow> todo s = d # ds \<Longrightarrow> job_queue_push d (queue s) = Blocked \<Longrightarrow>
    \<not> broken s \<Longrightarrow> step s (s\<lparr>prod := P_Wait_full\<rparr>)"
| push: "prod s = P_Ready \<Longrightarrow> todo s = d # ds \<Longrightarrow> job_queue_push d (queue s) = Return q \<Longrightarrow>
    \<not> broken s \<Longrightarrow> step s (notempty (s\<lparr>queue := q, todo := ds\<rparr>))"
| destroy_wait: "prod s = P_Ready \<Longrightarrow> todo s = [] \<Longrightarrow> destroy_finish (destroy_begin (queue s)) = Blocked \<Longrightarrow>
    \<not> broken s \<Longrightarrow> step s (notempty (s\<lparr>queue := destroy_begin (queue s), prod := P_Wait_empty\<rparr>))"
| destroy_now: "prod s = P_Ready \<Longrightarrow> todo s = [] \<Longrightarrow> destroy_finish (destroy_begin (queue s)) = Return q \<Longrightarrow>
    \<not> broken s \<Longrightarrow> step s (notempty (s\<lparr>queue := q, prod := P_Unlocked\<rparr>))"
| close_wait: "prod s = P_Closing \<Longrightarrow> destroy_finish (queue s) = Blocked \<Longrightarrow>
    \<not> broken s \<Longrightarrow> step s (s\<lparr>prod := P_Wait_empty\<rparr>)"
| close: "prod s = P_Closing \<Longrightarrow> destroy_finish (queue s) = Return q \<Longrightarrow>
    \<not> broken s \<Longrightarrow> step s (s\<lparr>queue := q, prod := P_Unlocked\<rparr>)"
| release: "prod s = P_Unlocked \<Longrightarrow> \<not> broken s \<Longrightarrow> step s (s\<lparr>queue := destroy_mutex (queue s), prod := P_Done\<rparr>)"
| pop_wait: "i < length (workers s) \<Longrightarrow> workers s ! i = W_Ready \<Longrightarrow> job_queue_pop (queue s) = Blocked \<Longrightarrow>
    jq_mutex (queue s) \<Longrightarrow> \<not> broken s \<Longrightarrow> step s (s\<lparr>workers := (workers s)[i := W_Wait]\<rparr>)"
| pop_fail: "i < length (workers s) \<Longrightarrow> workers s ! i = W_Ready \<Longrightarrow> job_queue_pop (queue s) = Return (None, q) \<Longrightarrow>
    jq_mutex (queue s) \<Longrightarrow> \<not> broken s \<Longrightarrow> step s (s\<lparr>queue := q, workers := (workers s)[i := W_Done]\<rparr>)"
| pop: "i < length (workers s) \<Longrightarrow> workers s ! i = W_Ready \<Longrightarrow> job_queue_pop (queue s) = Return (Some d, q) \<Longrightarrow>
    jq_mutex (queue s) \<Longrightarrow> \<not> broken s \<Longrightarrow>
    step s (s\<lparr>queue := q, workers := (workers s)[i := W_Run d], popped := popped s @ [d],
      prod := popped_broadcast q (prod s)\<rparr>)"
| lock_destroyed: "i < length (workers s) \<Longrightarrow> workers s ! i = W_Ready \<Longrightarrow> \<not> jq_mutex (queue s) \<Longrightarrow>
    \<not> broken s \<Longrightarrow> step s (s\<lparr>broken := True\<rparr>)"
| finish: "i < length (workers s) \<Longrightarrow> workers s ! i = W_Run d \<Longrightarrow>
    \<not> broken s \<Longrightarrow> step s (s\<lparr>workers := (workers s)[i := W_Ready], finished := finished s @ [d]\<rparr>)"

text \<open>A thread that returns from \<^verbatim>\<open>pthread_cond_wait\<close> without a broadcast.\<close>

inductive spurious :: "'a sys \<Rightarrow> 'a sys \<Rightarrow> bool" where
  wake_worker: "i < length (workers s) \<Longrightarrow> workers s ! i = W_Wait \<Longrightarrow>
    \<not> broken s \<Longrightarrow> spurious s (s\<lparr>workers := (workers s)[i := W_Ready]\<rparr>)"
| wake_push: "prod s = P_Wait_full \<Longrightarrow> \<not> broken s \<Longrightarrow> spurious s (s\<lparr>prod := P_Ready\<rparr>)"
| wake_close: "prod s = P_Wait_empty \<Longrightarrow> \<not> broken s \<Longrightarrow> spurious s (s\<lparr>prod := P_Closing\<rparr>)"

inductive reachable :: "nat \<Rightarrow> nat \<Rightarrow> 'a list \<Rightarrow> 'a sys \<Rightarrow> bool" for capacity num_threads js where
  init: "reachable capacity num_threads js (init_sys capacity num_threads js)"
| step: "reachable capacity num_threads js s \<Longrightarrow> step s s' \<Longrightarrow> reachable capacity num_threads js s'"
| spurious: "reachable capacity num_threads js s \<Longrightarrow> spurious s s' \<Longrightarrow> reachable capacity num_threads js s'"

inductive_cases stepE: "step s s'"

section \<open>The invariant\<close>

definition running :: "'a worker list \<Rightarrow> 'a multiset" where
  "running ws = mset (concat (map (\<lambda>w. case w of W_Run d \<Rightarrow> [d] | _ \<Rightarrow> []) ws))"

definition closing :: "producer \<Rightarrow> bool" where
  "closing p \<longleftrightarrow> p = P_Wait_empty \<or> p = P_Closing \<or> p = P_Unlocked \<or> p = P_Done"

definition freed :: "producer \<Rightarrow> bool" where
  "freed p \<longleftrightarrow> p = P_Unlocked \<or> p = P_Done"

lemma closing_simps [simp]:
  "\<not> closing P_Ready" "\<not> closing P_Wait_full" "closing P_Wait_empty" "closing P_Closing" "closing P_Unlocked" "closing P_Done"
  by (simp_all add: closing_def)

lemma freed_simps [simp]:
  "\<not> freed P_Ready" "\<not> freed P_Wait_full" "\<not> freed P_Wait_empty" "\<not> freed P_Closing" "freed P_Unlocked" "freed P_Done"
  by (simp_all add: freed_def)

definition sys_inv :: "nat \<Rightarrow> nat \<Rightarrow> 'a list \<Rightarrow> 'a sys \<Rightarrow> bool" where
  "sys_inv capacity num_threads js s \<longleftrightarrow>
     jq_size (queue s) = capacity \<and> length (workers s) = num_threads \<and>
     (if freed (prod s) then jq_array (queue s) = None \<and> jq_filled (queue s) = 0 else queue_ok (queue s)) \<and>
     (jq_mutex (queue s) \<longleftrightarrow> prod s \<noteq> P_Done) \<and>
     (broken s \<longrightarrow> prod s = P_Done \<and> W_Ready \<in> set (workers s)) \<and>
     (jq_destroy (queue s) \<longleftrightarrow> closing (prod s)) \<and> (closing (prod s) \<longrightarrow> todo s = []) \<and>
     popped s @ jobs (queue s) @ todo s = js \<and>
     mset (popped s) = mset (finished s) + running (workers s) \<and>
     (prod s = P_Wait_full \<longrightarrow> todo s \<noteq> [] \<and> jq_filled (queue s) = capacity) \<and>
     (prod s = P_Wait_empty \<longrightarrow> 0 < jq_filled (queue s)) \<and>
     (W_Wait \<in> set (workers s) \<longrightarrow> jq_filled (queue s) = 0 \<and> \<not> closing (prod s)) \<and>
     (W_Done \<in> set (workers s) \<longrightarrow> jq_filled (queue s) = 0 \<and> closing (prod s))"

lemma running_update:
  "i < length ws \<Longrightarrow>
   running (ws[i := w]) + running [ws ! i] = running ws + running [w]"
proof (induction ws arbitrary: i)
  case (Cons v ws)
  then show ?case by (cases i) (auto simp: running_def ac_simps)
qed simp

lemma running_simps [simp]:
  "running [W_Ready] = {#}" "running [W_Wait] = {#}" "running [W_Done] = {#}" "running [W_Run d] = {#d#}"
  by (simp_all add: running_def)

lemma running_wake [simp]: "running (map wake ws) = running ws"
proof (induction ws)
  case (Cons w ws)
  then show ?case by (cases w) (auto simp: running_def)
qed simp

lemma wake_eq: "W_Wait \<noteq> wake w" "W_Done = wake w \<longleftrightarrow> w = W_Done"
  by (cases w; simp)+

lemma wake_set: "W_Wait \<notin> wake ` A" "W_Done \<in> wake ` A \<longleftrightarrow> W_Done \<in> A"
  by (auto simp: wake_eq image_iff)

lemma set_update_other: "x \<in> set (ws[i := w]) \<Longrightarrow> x \<noteq> w \<Longrightarrow> x \<in> set ws"
  using set_update_subset_insert by fastforce

lemma filled_zero_iff: "queue_ok q \<Longrightarrow> jq_filled q = 0 \<longleftrightarrow> jobs q = []"
  using length_jobs by (metis length_0_conv)

lemma sys_inv_init: "0 < capacity \<Longrightarrow> sys_inv capacity num_threads js (init_sys capacity num_threads js)"
proof -
  have "running (replicate n W_Ready) = {#}" for n
    by (induction n) (auto simp: running_def)
  then show "0 < capacity \<Longrightarrow> sys_inv capacity num_threads js (init_sys capacity num_threads js)"
    using job_queue_init_ok [of capacity]
    by (auto simp: sys_inv_def init_sys_def closing_def freed_def job_queue_init_def)
qed

lemma sys_inv_queue_ok: "sys_inv c n js s \<Longrightarrow> \<not> freed (prod s) \<Longrightarrow> queue_ok (queue s)"
  by (simp add: sys_inv_def)

lemma push_mutex: "job_queue_push d q = Return q' \<Longrightarrow> jq_mutex q' = jq_mutex q"
  by (auto simp: job_queue_push_def split: if_splits option.splits)

lemma pop_mutex: "job_queue_pop q = Return (r, q') \<Longrightarrow> jq_mutex q' = jq_mutex q"
  by (auto simp: job_queue_pop_def split: if_splits option.splits)

lemma destroy_blocked: "jq_conds q \<Longrightarrow> destroy_finish (destroy_begin q) = Blocked \<longleftrightarrow> 0 < jq_filled q"
  by (simp add: destroy_finish_def destroy_begin_def)

lemma sys_inv_push:
  assumes inv: "sys_inv c n js s" and s: "prod s = P_Ready" "todo s = d # ds"
    "job_queue_push d (queue s) = Return q"
  shows "sys_inv c n js (notempty (s\<lparr>queue := q, todo := ds\<rparr>))"
proof -
  have ok: "queue_ok (queue s)" using sys_inv_queue_ok [OF inv] s(1) by simp
  have "queue_ok q \<and> jobs q = jobs (queue s) @ [d] \<and> jq_size q = jq_size (queue s) \<and>
      jq_destroy q = jq_destroy (queue s)"
    using s(3) by (cases rule: ring.push_cases [OF ok, of d]) auto
  then show ?thesis
    using inv s push_mutex [OF s(3)] by (simp add: sys_inv_def notempty_def wake_set)
qed

lemma sys_inv_destroy:
  assumes inv: "sys_inv c n js s" and s: "prod s = P_Ready" "todo s = []"
  shows "destroy_finish (destroy_begin (queue s)) = Blocked \<Longrightarrow>
      sys_inv c n js (notempty (s\<lparr>queue := destroy_begin (queue s), prod := P_Wait_empty\<rparr>))"
    and "destroy_finish (destroy_begin (queue s)) = Return q \<Longrightarrow>
      sys_inv c n js (notempty (s\<lparr>queue := q, prod := P_Unlocked\<rparr>))"
proof -
  have ok: "queue_ok (queue s)" using sys_inv_queue_ok [OF inv] s(1) by simp
  have same: "jobs (destroy_begin (queue s)) = jobs (queue s)" "queue_ok (destroy_begin (queue s))"
    using ok by (simp_all add: destroy_begin_def jobs_def queue_ok_def slot_at_def cong: option.case_cong)
  show "destroy_finish (destroy_begin (queue s)) = Blocked \<Longrightarrow>
      sys_inv c n js (notempty (s\<lparr>queue := destroy_begin (queue s), prod := P_Wait_empty\<rparr>))"
    using inv s same destroy_blocked [OF queue_ok_conds [OF ok]]
    by (simp add: sys_inv_def notempty_def wake_set) (simp add: destroy_begin_def)
  show "destroy_finish (destroy_begin (queue s)) = Return q \<Longrightarrow>
      sys_inv c n js (notempty (s\<lparr>queue := q, prod := P_Unlocked\<rparr>))"
    using inv s filled_zero_iff [OF ok]
    by (auto simp: sys_inv_def notempty_def wake_set destroy_finish_def destroy_begin_def
        jobs_def split: if_splits)
qed

lemma sys_inv_close:
  assumes inv: "sys_inv c n js s" and s: "prod s = P_Closing"
  shows "destroy_finish (queue s) = Blocked \<Longrightarrow> sys_inv c n js (s\<lparr>prod := P_Wait_empty\<rparr>)"
    and "destroy_finish (queue s) = Return q \<Longrightarrow> sys_inv c n js (s\<lparr>queue := q, prod := P_Unlocked\<rparr>)"
proof -
  have ok: "queue_ok (queue s)" using sys_inv_queue_ok [OF inv] s(1) by simp
  show "destroy_finish (queue s) = Blocked \<Longrightarrow> sys_inv c n js (s\<lparr>prod := P_Wait_empty\<rparr>)"
    using inv s by (auto simp: sys_inv_def destroy_finish_def split: if_splits)
  show "destroy_finish (queue s) = Return q \<Longrightarrow> sys_inv c n js (s\<lparr>queue := q, prod := P_Unlocked\<rparr>)"
    using inv s filled_zero_iff [OF ok]
    by (auto simp: sys_inv_def destroy_finish_def jobs_def split: if_splits)
qed

lemma sys_inv_release:
  assumes "sys_inv c n js s" and "prod s = P_Unlocked"
  shows "sys_inv c n js (s\<lparr>queue := destroy_mutex (queue s), prod := P_Done\<rparr>)"
proof -
  have "jobs (queue s) = []" "jobs (destroy_mutex (queue s)) = []"
    using assms by (simp_all add: sys_inv_def destroy_mutex_def jobs_def)
  then show ?thesis using assms by (auto simp: sys_inv_def) (auto simp: destroy_mutex_def)
qed

lemma pop_result:
  assumes inv: "sys_inv c n js s"
  shows "job_queue_pop (queue s) = Blocked \<Longrightarrow> jq_filled (queue s) = 0 \<and> \<not> closing (prod s)"
    and "job_queue_pop (queue s) = Return (None, q) \<Longrightarrow> q = queue s \<and> jq_filled (queue s) = 0 \<and> closing (prod s)"
    and "job_queue_pop (queue s) = Return (Some d, q) \<Longrightarrow> \<not> freed (prod s) \<and> queue_ok (queue s) \<and>
      queue_ok q \<and> jobs (queue s) = d # jobs q \<and> jq_size q = jq_size (queue s) \<and>
      jq_destroy q = jq_destroy (queue s) \<and> 0 < jq_filled (queue s)"
    and "job_queue_pop (queue s) \<noteq> Undefined"
proof -
  show "job_queue_pop (queue s) = Blocked \<Longrightarrow> jq_filled (queue s) = 0 \<and> \<not> closing (prod s)"
    "job_queue_pop (queue s) = Return (None, q) \<Longrightarrow> q = queue s \<and> jq_filled (queue s) = 0 \<and> closing (prod s)"
    using inv by (auto simp: job_queue_pop_def sys_inv_def split: if_splits option.splits)
  show "job_queue_pop (queue s) \<noteq> Undefined"
  proof (cases "freed (prod s)")
    case True
    then show ?thesis using inv by (auto simp: sys_inv_def freed_def job_queue_pop_def)
  next
    case False
    show ?thesis
      by (cases rule: ring.pop_cases [OF sys_inv_queue_ok [OF inv False], case_names blocked closed job])
        simp_all
  qed
  assume r: "job_queue_pop (queue s) = Return (Some d, q)"
  then have f: "0 < jq_filled (queue s)" by (auto simp: job_queue_pop_def split: if_splits)
  then have nd: "\<not> freed (prod s)" using inv by (auto simp: sys_inv_def)
  note ok = sys_inv_queue_ok [OF inv nd]
  show "\<not> freed (prod s) \<and> queue_ok (queue s) \<and> queue_ok q \<and> jobs (queue s) = d # jobs q \<and>
      jq_size q = jq_size (queue s) \<and> jq_destroy q = jq_destroy (queue s) \<and> 0 < jq_filled (queue s)"
    using r nd f ok by (cases rule: ring.pop_cases [OF ok, case_names blocked closed job]) auto
qed

lemma sys_inv_pop_wait:
  assumes "sys_inv c n js s" and i: "i < length (workers s)" "workers s ! i = W_Ready"
    and "job_queue_pop (queue s) = Blocked" "\<not> broken s"
  shows "sys_inv c n js (s\<lparr>workers := (workers s)[i := W_Wait]\<rparr>)"
  using assms(1,5) pop_result(1) [OF assms(1,4)] running_update [OF i(1), of W_Wait] i(2)
  by (auto simp: sys_inv_def dest: set_update_other)

lemma sys_inv_pop_fail:
  assumes "sys_inv c n js s" and i: "i < length (workers s)" "workers s ! i = W_Ready"
    and "job_queue_pop (queue s) = Return (None, q)" "\<not> broken s"
  shows "sys_inv c n js (s\<lparr>queue := q, workers := (workers s)[i := W_Done]\<rparr>)"
  using assms(1,5) pop_result(2) [OF assms(1,4)] running_update [OF i(1), of W_Done] i(2)
  by (auto simp: sys_inv_def dest: set_update_other)

lemma sys_inv_finish:
  assumes "sys_inv c n js s" and i: "i < length (workers s)" "workers s ! i = W_Run d" and "\<not> broken s"
  shows "sys_inv c n js (s\<lparr>workers := (workers s)[i := W_Ready], finished := finished s @ [d]\<rparr>)"
  using assms(1,4) running_update [OF i(1), of W_Ready] i(2)
  by (auto simp: sys_inv_def dest: set_update_other)

lemma sys_inv_lock_destroyed:
  assumes "sys_inv c n js s" and i: "i < length (workers s)" "workers s ! i = W_Ready" and "\<not> jq_mutex (queue s)"
  shows "sys_inv c n js (s\<lparr>broken := True\<rparr>)"
proof -
  have "prod s = P_Done" "W_Ready \<in> set (workers s)"
    using assms(1,4) nth_mem [OF i(1)] i(2) by (simp_all add: sys_inv_def)
  then show ?thesis using assms(1) by (auto simp: sys_inv_def)
qed

lemma broadcast_closing: "closing (popped_broadcast q p) = closing p" "freed (popped_broadcast q p) = freed p"
  "popped_broadcast q p = P_Done \<longleftrightarrow> p = P_Done"
  "popped_broadcast q p \<noteq> P_Wait_full" "popped_broadcast q p = P_Wait_empty \<Longrightarrow> jq_filled q \<noteq> 0"
  by (cases p; cases "jq_filled q = 0"; simp add: popped_broadcast_def)+

lemma sys_inv_pop:
  assumes inv: "sys_inv c n js s" and i: "i < length (workers s)" "workers s ! i = W_Ready"
    and pop: "job_queue_pop (queue s) = Return (Some d, q)" and "\<not> broken s"
  shows "sys_inv c n js (s\<lparr>queue := q, workers := (workers s)[i := W_Run d], popped := popped s @ [d],
      prod := popped_broadcast q (prod s)\<rparr>)"
proof -
  note r = pop_result(3) [OF inv pop]
  have "W_Wait \<notin> set (workers s)" "W_Done \<notin> set (workers s)" using inv r by (auto simp: sys_inv_def)
  then have w: "W_Wait \<notin> set ((workers s)[i := W_Run d])" "W_Done \<notin> set ((workers s)[i := W_Run d])"
    by (auto dest: set_update_other)
  have run: "running ((workers s)[i := W_Run d]) = running (workers s) + {#d#}"
    using running_update [OF i(1), of "W_Run d"] i(2) by simp
  show ?thesis
    using inv r w assms(5) broadcast_closing [of q "prod s"] pop_mutex [OF pop] by (simp add: sys_inv_def run)
qed

lemma sys_inv_step:
  assumes "sys_inv c n js s" and "step s s'"
  shows "sys_inv c n js s'"
  using assms(2)
proof (cases rule: step.cases)
  case (push_wait d ds)
  have "queue_ok (queue s)" using sys_inv_queue_ok [OF assms(1)] push_wait by simp
  then show ?thesis
    using assms(1) push_wait by (auto simp: sys_inv_def job_queue_push_def split: if_splits option.splits)
qed (use assms(1) in \<open>auto intro: sys_inv_push sys_inv_destroy sys_inv_close sys_inv_release sys_inv_pop_wait
    sys_inv_pop_fail sys_inv_pop sys_inv_lock_destroyed sys_inv_finish\<close>)

lemma sys_inv_spurious:
  assumes "sys_inv c n js s" and "spurious s s'"
  shows "sys_inv c n js s'"
  using assms(2)
proof (cases rule: spurious.cases)
  case (wake_worker i)
  then show ?thesis using assms(1) running_update [of i "workers s" W_Ready]
    by (auto simp: sys_inv_def dest: set_update_other)
qed (use assms(1) in \<open>auto simp: sys_inv_def\<close>)

lemma sys_inv_reachable:
  assumes "reachable c n js s" and "0 < c"
  shows "sys_inv c n js s"
  using assms by (induction rule: reachable.induct) (auto intro: sys_inv_init sys_inv_step sys_inv_spurious)

section \<open>Progress\<close>

text \<open>A state from which no step is possible, given that there is at least one worker, is final.\<close>

definition all_done :: "'a sys \<Rightarrow> bool" where
  "all_done s \<longleftrightarrow> prod s = P_Done \<and> (\<forall>w \<in> set (workers s). w = W_Done)"

text \<open>A step that leaves the mutex in place.\<close>

definition safe_step :: "'a sys \<Rightarrow> 'a sys \<Rightarrow> bool" where
  "safe_step s s' \<longleftrightarrow> step s s' \<and> prod s' \<noteq> P_Done"

lemma broken_done: "sys_inv c n js s \<Longrightarrow> broken s \<Longrightarrow> prod s = P_Done"
  by (simp add: sys_inv_def)

lemma worker_steps:
  assumes inv: "sys_inv c n js s" and i: "i < length (workers s)" and w: "workers s ! i = W_Ready \<or> workers s ! i = W_Run d"
    and p: "prod s \<noteq> P_Done"
  shows "\<exists>s'. safe_step s s'"
  using w
proof
  have nb: "\<not> broken s" using broken_done [OF inv] p by blast
  assume ready: "workers s ! i = W_Ready"
  have m: "jq_mutex (queue s)" using inv p by (simp add: sys_inv_def)
  show ?thesis
  proof (cases "job_queue_pop (queue s)")
    case Blocked
    then show ?thesis using step.pop_wait [OF i ready _ m nb] p by (fastforce simp: safe_step_def)
  next
    case Undefined
    then show ?thesis using pop_result(4) [OF inv] by simp
  next
    case (Return r)
    obtain r' q where r: "r = (r', q)" by (cases r)
    show ?thesis
    proof (cases r')
      case None
      show ?thesis using step.pop_fail [OF i ready _ m nb, of q] Return r None p by (fastforce simp: safe_step_def)
    next
      case (Some d)
      show ?thesis
        using step.pop [OF i ready _ m nb, of d q] Return r Some p by (fastforce simp: safe_step_def broadcast_closing)
    qed
  qed
next
  have nb: "\<not> broken s" using broken_done [OF inv] p by blast
  assume "workers s ! i = W_Run d"
  then show ?thesis using step.finish [OF i _ nb] p by (fastforce simp: safe_step_def)
qed

lemma destroy_outcome:
  assumes "jq_conds q"
  obtains "destroy_finish q = Blocked" | q' where "destroy_finish q = Return q'"
  using assms by (cases "0 < jq_filled q") (simp_all add: destroy_finish_def)

lemma producer_steps:
  assumes inv: "sys_inv c n js s" and p: "prod s = P_Ready \<or> prod s = P_Closing"
  shows "\<exists>s'. safe_step s s'"
proof -
  have ok: "queue_ok (queue s)" using sys_inv_queue_ok [OF inv] p by auto
  have nb: "\<not> broken s" using broken_done [OF inv] p by auto
  have live: "jq_conds (queue s)" "jq_conds (destroy_begin (queue s))"
    using queue_ok_conds [OF ok] by (simp_all add: destroy_begin_def)
  from p show ?thesis
  proof
    assume p: "prod s = P_Ready"
    show ?thesis
    proof (cases "todo s")
      case Nil
      show ?thesis
        using step.destroy_wait [OF p Nil _ nb] step.destroy_now [OF p Nil _ nb]
        by (cases rule: destroy_outcome [OF live(2), case_names wait now]) (fastforce simp: safe_step_def notempty_def)+
    next
      case (Cons d ds)
      show ?thesis
        using step.push_wait [OF p Cons _ nb] step.push [OF p Cons _ nb] p
        by (cases rule: ring.push_cases [OF ok, of d, case_names full room]) (fastforce simp: safe_step_def notempty_def)+
    qed
  next
    assume p: "prod s = P_Closing"
    show ?thesis
      using step.close_wait [OF p _ nb] step.close [OF p _ nb]
      by (cases rule: destroy_outcome [OF live(1), case_names wait now]) (fastforce simp: safe_step_def)+
  qed
qed

text \<open>
  As long as the mutex is in place there is a step that leaves it there, unless all workers
  have ended and only the mutex is left to destroy.
\<close>

lemma progress:
  assumes inv: "sys_inv c n js s" and "0 < c" "0 < n" and p: "prod s \<noteq> P_Done"
  shows "(\<exists>s'. safe_step s s') \<or> prod s = P_Unlocked \<and> (\<forall>w \<in> set (workers s). w = W_Done)"
proof (cases "\<exists>s'. safe_step s s'")
  case False
  have w: "w = W_Wait \<or> w = W_Done" if mem: "w \<in> set (workers s)" for w
  proof -
    obtain i where i: "i < length (workers s)" "workers s ! i = w"
      using mem by (auto simp: in_set_conv_nth)
    show ?thesis using worker_steps [OF inv i(1) _ p] i(2) False by (cases w) blast+
  qed
  have r: "prod s \<noteq> P_Ready" "prod s \<noteq> P_Closing" using producer_steps [OF inv] False by blast+
  have "length (workers s) = n" using inv by (simp add: sys_inv_def)
  then obtain v where v: "v \<in> set (workers s)" using assms(3) by (cases "workers s") auto
  have "prod s = P_Unlocked"
  proof (cases "prod s")
    case P_Wait_full
    then have "W_Wait \<notin> set (workers s)" "W_Done \<notin> set (workers s)" using inv assms(2) by (auto simp: sys_inv_def)
    then show ?thesis using w v by blast
  next
    case P_Wait_empty
    then have "W_Wait \<notin> set (workers s)" "W_Done \<notin> set (workers s)" using inv by (auto simp: sys_inv_def)
    then show ?thesis using w v by blast
  qed (use p r in simp_all)
  moreover from this have "W_Wait \<notin> set (workers s)" using inv by (auto simp: sys_inv_def)
  ultimately show ?thesis using w by blast
qed simp

lemma release_done:
  assumes "sys_inv c n js s" and "prod s = P_Unlocked" and "\<forall>w \<in> set (workers s). w = W_Done"
  shows "\<exists>s'. step s s' \<and> all_done s'"
  using step.release [OF assms(2)] broken_done [OF assms(1)] assms(2,3) by (fastforce simp: all_done_def)

text \<open>A state without a next step is final, or it is the use of the destroyed mutex.\<close>

lemma stuck_ends:
  assumes inv: "sys_inv c n js s" and "0 < c" "0 < n" and stuck: "\<nexists>s'. step s s'"
  shows "all_done s \<or> broken s"
proof (cases "prod s = P_Done")
  case True
  show ?thesis
  proof (rule ccontr)
    assume no: "\<not> (all_done s \<or> broken s)"
    then obtain w where w: "w \<in> set (workers s)" "w \<noteq> W_Done" using True by (auto simp: all_done_def)
    then obtain i where i: "i < length (workers s)" "workers s ! i = w" by (auto simp: in_set_conv_nth)
    have "W_Wait \<notin> set (workers s)" "\<not> jq_mutex (queue s)" using inv True by (auto simp: sys_inv_def)
    then show False
      using step.lock_destroyed [OF i(1)] step.finish [OF i(1)] i w no stuck by (cases w) auto
  qed
next
  case False
  then show ?thesis using progress [OF inv assms(2,3)] release_done [OF inv] stuck by (auto simp: safe_step_def)
qed

text \<open>Once the mutex is destroyed, a worker that has not ended can no longer end.\<close>

lemma too_late:
  assumes "step s s'" and "sys_inv c n js s" and "prod s = P_Done" and "\<exists>w \<in> set (workers s). w \<noteq> W_Done"
  shows "prod s' = P_Done \<and> (\<exists>w \<in> set (workers s'). w \<noteq> W_Done)"
  using assms(1)
proof (cases rule: step.cases)
  case (finish i d)
  then show ?thesis using assms(3) set_update_memI by fastforce
qed (use assms(2-4) in \<open>auto simp: sys_inv_def\<close>)

lemma all_done_finished:
  assumes "sys_inv c n js s" and "all_done s"
  shows "popped s = js" and "mset (finished s) = mset js"
proof -
  have "running ws = {#}" if "\<forall>w \<in> set ws. w = W_Done" for ws :: "'a worker list"
    using that by (induction ws) (auto simp: running_def)
  then have "running (workers s) = {#}" using assms(2) by (simp add: all_done_def)
  moreover show "popped s = js"
    using assms by (auto simp: sys_inv_def all_done_def jobs_def)
  ultimately show "mset (finished s) = mset js" using assms(1) by (simp add: sys_inv_def)
qed

section \<open>Every run ends\<close>

fun worker_weight :: "'a worker \<Rightarrow> nat" where
  "worker_weight W_Done = 0"
| "worker_weight W_Wait = 1"
| "worker_weight W_Ready = 2"
| "worker_weight (W_Run d) = 3"

fun producer_weight :: "nat \<Rightarrow> producer \<Rightarrow> nat" where
  "producer_weight n P_Ready = n + 3"
| "producer_weight n P_Wait_full = n + 2"
| "producer_weight n P_Closing = 2"
| "producer_weight n P_Wait_empty = 1"
| "producer_weight n P_Unlocked = 1"
| "producer_weight n P_Done = 0"

text \<open>
  A measure that every step decreases: waking all workers costs at most their number,
  which is paid for by the job pushed or by the call of \<^verbatim>\<open>job_queue_destroy\<close>.
\<close>

definition weight :: "'a sys \<Rightarrow> nat" where
  "weight s = (length (workers s) + 5) * length (todo s) + 4 * jq_filled (queue s) +
     sum_list (map worker_weight (workers s)) + producer_weight (length (workers s)) (prod s) +
     (if broken s then 0 else 1)"

lemma weight_wake: "sum_list (map worker_weight (map wake ws)) \<le> sum_list (map worker_weight ws) + length ws"
proof (induction ws)
  case (Cons w ws)
  then show ?case by (cases w) simp_all
qed simp

lemma weight_update:
  "i < length ws \<Longrightarrow> sum_list (map worker_weight (ws[i := w])) + worker_weight (ws ! i) =
   sum_list (map worker_weight ws) + worker_weight w"
proof (induction ws arbitrary: i)
  case (Cons v ws)
  then show ?case by (cases i) auto
qed simp

lemma weight_broadcast: "producer_weight n (popped_broadcast q p) \<le> producer_weight n p + 1"
  by (cases p) (simp_all add: popped_broadcast_def)

lemma push_filled: "job_queue_push d q = Return q' \<Longrightarrow> jq_filled q' = jq_filled q + 1"
  by (auto simp: job_queue_push_def split: if_splits option.splits)

lemma pop_filled: "job_queue_pop q = Return (Some d, q') \<Longrightarrow> jq_filled q = jq_filled q' + 1"
  by (auto simp: job_queue_pop_def split: if_splits option.splits)

lemma pop_fail_same: "job_queue_pop q = Return (None, q') \<Longrightarrow> q' = q"
  by (auto simp: job_queue_pop_def split: if_splits option.splits)

lemma destroy_filled: "destroy_finish q = Return q' \<Longrightarrow> jq_filled q' = jq_filled q"
  "jq_filled (destroy_begin q) = jq_filled q"
  by (auto simp: destroy_finish_def destroy_begin_def split: if_splits)

lemma step_weight: "step s s' \<Longrightarrow> weight s' < weight s"
proof (induction rule: step.induct)
  case (push s d ds q)
  then show ?case using weight_wake [of "workers s"] push_filled [of d "queue s" q]
    by (simp add: weight_def notempty_def)
next
  case (destroy_wait s)
  then show ?case using weight_wake [of "workers s"] by (simp add: weight_def notempty_def destroy_filled)
next
  case (destroy_now s q)
  then show ?case using weight_wake [of "workers s"] destroy_filled(1) [of "destroy_begin (queue s)" q]
    by (simp add: weight_def notempty_def destroy_filled)
next
  case (pop_wait i s)
  then show ?case using weight_update [of i "workers s" W_Wait] by (simp add: weight_def)
next
  case (pop_fail i s q)
  then show ?case using weight_update [of i "workers s" W_Done] pop_fail_same by (fastforce simp: weight_def)
next
  case (pop i s d q)
  then show ?case using weight_update [of i "workers s" "W_Run d"] pop_filled [of "queue s" d q]
      weight_broadcast [of "length (workers s)" q "prod s"] by (simp add: weight_def)
next
  case (finish i s d)
  then show ?case using weight_update [of i "workers s" W_Ready] by (simp add: weight_def)
qed (auto simp: weight_def destroy_filled destroy_mutex_def)

text \<open>So from every state some finite run leads to one without a next step.\<close>

lemma run_to_end: "\<exists>s'. step\<^sup>*\<^sup>* s s' \<and> (\<nexists>s''. step s' s'')"
proof (induction "weight s" arbitrary: s rule: less_induct)
  case less
  show ?case
  proof (cases "\<exists>t. step s t")
    case True
    then obtain t where t: "step s t" by blast
    from less [OF step_weight [OF t]] show ?thesis using t by (meson converse_rtranclp_into_rtranclp)
  qed blast
qed

lemma sys_inv_run: "step\<^sup>*\<^sup>* s s' \<Longrightarrow> sys_inv c n js s \<Longrightarrow> sys_inv c n js s'"
  by (induction rule: rtranclp_induct) (auto intro: sys_inv_step)

text \<open>A good end can be reached exactly while the mutex is in place.\<close>

lemma safe_end:
  assumes "sys_inv c n js s" and "0 < c" "0 < n" and "prod s \<noteq> P_Done"
  shows "\<exists>s'. step\<^sup>*\<^sup>* s s' \<and> all_done s'"
  using assms(1,4)
proof (induction "weight s" arbitrary: s rule: less_induct)
  case less
  from progress [OF less.prems(1) assms(2,3) less.prems(2)] show ?case
  proof
    assume "\<exists>s'. safe_step s s'"
    then obtain t where t: "step s t" "prod t \<noteq> P_Done" by (auto simp: safe_step_def)
    from less.hyps [OF step_weight [OF t(1)] sys_inv_step [OF less.prems(1) t(1)] t(2)] show ?thesis
      using t(1) by (meson converse_rtranclp_into_rtranclp)
  next
    assume "prod s = P_Unlocked \<and> (\<forall>w \<in> set (workers s). w = W_Done)"
    then show ?thesis using release_done [OF less.prems(1)] by blast
  qed
qed

lemma too_late_run:
  assumes "step\<^sup>*\<^sup>* s s'" and "sys_inv c n js s" and "prod s = P_Done" and "\<not> all_done s"
  shows "\<not> all_done s'"
proof -
  have "sys_inv c n js s' \<and> prod s' = P_Done \<and> (\<exists>w \<in> set (workers s'). w \<noteq> W_Done)"
    using assms
  proof (induction rule: rtranclp_induct)
    case (step t u)
    then show ?case using too_late [OF step.hyps(2)] sys_inv_step [OF _ step.hyps(2)] by blast
  qed (simp add: all_done_def)
  then show ?thesis by (auto simp: all_done_def)
qed

section \<open>Properties\<close>

text \<open>A thread waits only while the condition it waits for does not hold.\<close>

definition waits_rightly :: "'a sys \<Rightarrow> bool" where
  "waits_rightly s \<longleftrightarrow>
     (W_Wait \<in> set (workers s) \<longrightarrow> jq_filled (queue s) = 0 \<and> \<not> jq_destroy (queue s)) \<and>
     (prod s = P_Wait_full \<longrightarrow> jq_filled (queue s) = jq_size (queue s)) \<and>
     (prod s = P_Wait_empty \<longrightarrow> 0 < jq_filled (queue s))"

text \<open>
  C3: in every reachable state, under any interleaving and any spurious wake-ups, the jobs
  popped so far, those in the queue and those still to be pushed are the given jobs in the
  given order; each popped job is finished or being carried out by one worker, no waiting
  thread has missed a wake-up (a worker waits only on an empty open queue, \<^verbatim>\<open>main\<close> only
  on a full or, closing, on a nonempty one), and no operation leaves the array or uses it
  or a condition variable after it was released. (Whether the mutex is there to be locked
  is another matter, C4.)
\<close>

theorem jobs_taken_once_in_order:
  assumes "reachable capacity num_threads js s" and "0 < capacity"
  shows "popped s @ jobs (queue s) @ todo s = js \<and>
    mset (popped s) = mset (finished s) + running (workers s) \<and>
    waits_rightly s \<and> job_queue_pop (queue s) \<noteq> Undefined"
  using sys_inv_reachable [OF assms] pop_result(4) [OF sys_inv_reachable [OF assms]]
  by (auto simp: sys_inv_def waits_rightly_def)

text \<open>The state after the first push to a queue of capacity 1: the second push waits.\<close>

theorem jobs_taken_once_in_order_witness:
  "\<exists>s. prod s = P_Wait_full \<and> todo s = [2 :: nat] \<and>
    popped s @ jobs (queue s) @ todo s = [1, 2] \<and>
    mset (popped s) = mset (finished s) + running (workers s) \<and>
    waits_rightly s \<and> job_queue_pop (queue s) \<noteq> Undefined"
proof -
  let ?s = "init_sys 1 1 [1, 2 :: nat]"
  have "\<exists>q. job_queue_push 1 (queue ?s) = Return q \<and> jq_filled q = 1 \<and> jq_size q = 1 \<and> jq_conds q"
    by (simp add: init_sys_def job_queue_init_def job_queue_push_def)
  then obtain q where q: "job_queue_push 1 (queue ?s) = Return q" "jq_filled q = 1" "jq_size q = 1" "jq_conds q" by blast
  let ?t = "notempty (?s\<lparr>queue := q, todo := [2]\<rparr>)"
  have "reachable 1 1 [1, 2] ?t"
    by (rule reachable.step [OF reachable.init step.push [OF _ _ q(1)]]) (simp_all add: init_sys_def)
  moreover have "step ?t (?t\<lparr>prod := P_Wait_full\<rparr>)"
    by (rule step.push_wait [where d = 2 and ds = "[]"])
      (simp_all add: notempty_def init_sys_def job_queue_push_def q)
  ultimately have r: "reachable 1 1 [1, 2] (?t\<lparr>prod := P_Wait_full\<rparr>)" by (rule reachable.step)
  show ?thesis
    by (rule exI [of _ "?t\<lparr>prod := P_Wait_full\<rparr>"])
      (use jobs_taken_once_in_order [OF r] in \<open>simp add: notempty_def\<close>)
qed

text \<open>
  C4: there is no deadlock and no endless run, as long as there is a worker and room in the
  queue: every step decreases the weight, and in a state without a next step all jobs were
  popped, in order, and either \<^verbatim>\<open>main\<close> and all workers have returned and every job was carried
  out exactly once, or a worker has locked the mutex that \<^verbatim>\<open>job_queue_destroy\<close> destroyed, which
  is undefined. A good end can be reached from a state exactly if the mutex is still in
  place or all workers have already ended.
\<close>

theorem every_run_ends:
  assumes "0 < capacity" and "0 < num_threads"
  shows "(\<forall>s s'. step s s' \<longrightarrow> weight s' < weight s) \<and>
    (\<forall>s. reachable capacity num_threads js s \<and> (\<nexists>s'. step s s') \<longrightarrow>
      popped s = js \<and> prod s = P_Done \<and>
      (if broken s then W_Ready \<in> set (workers s) else all_done s \<and> mset (finished s) = mset js)) \<and>
    (\<forall>s. reachable capacity num_threads js s \<longrightarrow>
      ((\<exists>s'. step\<^sup>*\<^sup>* s s' \<and> all_done s') \<longleftrightarrow> (prod s = P_Done \<longrightarrow> all_done s)))"
proof (intro conjI allI impI)
  fix s assume r: "reachable capacity num_threads js s \<and> (\<nexists>s'. step s s')"
  then have inv: "sys_inv capacity num_threads js s" using sys_inv_reachable assms(1) by blast
  have e: "all_done s \<or> broken s" using stuck_ends [OF inv assms] r by blast
  then show p: "prod s = P_Done" using broken_done [OF inv] by (auto simp: all_done_def)
  show "popped s = js" using inv p by (auto simp: sys_inv_def jobs_def)
  show "if broken s then W_Ready \<in> set (workers s) else all_done s \<and> mset (finished s) = mset js"
    using e all_done_finished [OF inv] inv by (auto simp: sys_inv_def)
next
  fix s assume "reachable capacity num_threads js s"
  then have inv: "sys_inv capacity num_threads js s" using sys_inv_reachable assms(1) by blast
  then show "(\<exists>s'. step\<^sup>*\<^sup>* s s' \<and> all_done s') \<longleftrightarrow> (prod s = P_Done \<longrightarrow> all_done s)"
    using safe_end [OF inv assms] too_late_run [OF _ inv] by blast
qed (rule step_weight)

theorem every_run_ends_witness:
  "\<exists>s'. step\<^sup>*\<^sup>* (init_sys 64 3 [1, 2, 3 :: nat]) s' \<and> all_done s'"
proof -
  have "prod (init_sys 64 3 [1, 2, 3 :: nat]) \<noteq> P_Done" by (simp add: init_sys_def)
  moreover have "reachable 64 3 [1, 2, 3] (init_sys 64 3 [1, 2, 3 :: nat])" by (rule reachable.init)
  ultimately show ?thesis
    using every_run_ends [of 64 3 "[1, 2, 3 :: nat]", OF zero_less_numeral zero_less_numeral] by blast
qed

text \<open>
  The undefined end can be reached with any number of workers: \<^verbatim>\<open>main\<close> destroys the mutex
  before a worker has locked it for its pop.
\<close>

theorem destroyed_while_in_use:
  assumes "0 < num_threads"
  shows "\<exists>s. reachable capacity num_threads [] s \<and> broken s"
proof -
  let ?i = "init_sys capacity num_threads [] :: 'a sys"
  let ?q = "(destroy_begin (queue ?i))\<lparr>jq_array := None, jq_conds := False\<rparr>"
  let ?u = "notempty (?i\<lparr>queue := ?q, prod := P_Unlocked\<rparr>)"
  let ?d = "?u\<lparr>queue := destroy_mutex (queue ?u), prod := P_Done\<rparr>"
  have "destroy_finish (destroy_begin (queue ?i)) = Return ?q"
    by (simp add: destroy_finish_def destroy_begin_def init_sys_def job_queue_init_def)
  then have "step ?i ?u" by (intro step.destroy_now) (simp_all add: init_sys_def)
  moreover have "step ?u ?d" by (rule step.release) (simp_all add: init_sys_def notempty_def)
  moreover have "step ?d (?d\<lparr>broken := True\<rparr>)"
    using assms by (intro step.lock_destroyed [of 0]) (simp_all add: init_sys_def notempty_def destroy_mutex_def)
  ultimately have "reachable capacity num_threads [] (?d\<lparr>broken := True\<rparr>)"
    using reachable.init reachable.step by blast
  then show ?thesis by (intro exI [of _ "?d\<lparr>broken := True\<rparr>"]) simp
qed

theorem destroyed_while_in_use_witness: "\<exists>s :: nat sys. reachable 64 1 [] s \<and> broken s"
  by (rule destroyed_while_in_use) simp

end
