(* ===== verification/Job_Activities.thy ===== *)
theory Job_Activities
  imports Job_Threads
begin

text \<open>
  What the workers of \<^verbatim>\<open>Job_Threads\<close> do with a job, step by step: \<open>start_job\<close> is the activity a job
  begins with, \<open>next_act\<close> one step of an activity on the state that all threads share, and an
  \<open>idle\<close> activity has ended. The programs of \<^verbatim>\<open>A2\<close> are instances: threads that print lines in
  \<open>Job_Programs\<close>, threads that count bits in \<open>Histogram_Threads\<close>.

  The lemmas relate the runs to those of \<open>Job_Threads\<close> and show, in the locale
  \<open>shrinking_activity\<close>, where each step makes the activity smaller, that there is no endless
  run, that a run ends with all threads ended or the destroyed mutex of the queue used, and
  that a good end can be reached while the mutex is in place.
\<close>

type_synonym ('a, 'c, 'g) work = "'a sys \<times> 'c list \<times> 'g"

inductive work_step :: "('a \<Rightarrow> 'c) \<Rightarrow> ('g \<Rightarrow> 'c \<Rightarrow> 'g \<times> 'c) \<Rightarrow> ('c \<Rightarrow> bool) \<Rightarrow> ('a, 'c, 'g) work \<Rightarrow> ('a, 'c, 'g) work \<Rightarrow> bool"
  for start_job next_act idle where
  other: "step s s' \<Longrightarrow> popped s' = popped s \<Longrightarrow> finished s' = finished s \<Longrightarrow>
    work_step start_job next_act idle (s, acts, g) (s', acts, g)"
| start: "i < length (workers s) \<Longrightarrow> workers s ! i = W_Ready \<Longrightarrow> job_queue_pop (queue s) = Return (Some d, q) \<Longrightarrow>
    jq_mutex (queue s) \<Longrightarrow> \<not> broken s \<Longrightarrow> work_step start_job next_act idle (s, acts, g)
      (s\<lparr>queue := q, workers := (workers s)[i := W_Run d], popped := popped s @ [d],
        prod := popped_broadcast q (prod s)\<rparr>, acts[i := start_job d], g)"
| act: "i < length (workers s) \<Longrightarrow> workers s ! i = W_Run d \<Longrightarrow> \<not> idle (acts ! i) \<Longrightarrow> next_act g (acts ! i) = (g', a) \<Longrightarrow>
    \<not> broken s \<Longrightarrow> work_step start_job next_act idle (s, acts, g) (s, acts[i := a], g')"
| finish: "i < length (workers s) \<Longrightarrow> workers s ! i = W_Run d \<Longrightarrow> idle (acts ! i) \<Longrightarrow>
    \<not> broken s \<Longrightarrow> work_step start_job next_act idle (s, acts, g)
      (s\<lparr>workers := (workers s)[i := W_Ready], finished := finished s @ [d]\<rparr>, acts, g)"

inductive working :: "('a \<Rightarrow> 'c) \<Rightarrow> ('g \<Rightarrow> 'c \<Rightarrow> 'g \<times> 'c) \<Rightarrow> ('c \<Rightarrow> bool) \<Rightarrow> 'c \<Rightarrow> 'g \<Rightarrow>
    nat \<Rightarrow> nat \<Rightarrow> 'a list \<Rightarrow> ('a, 'c, 'g) work \<Rightarrow> bool"
  for start_job next_act idle c0 g0 capacity num_threads js where
  init: "working start_job next_act idle c0 g0 capacity num_threads js
    (init_sys capacity num_threads js, replicate num_threads c0, g0)"
| step: "working start_job next_act idle c0 g0 capacity num_threads js w \<Longrightarrow> work_step start_job next_act idle w w' \<Longrightarrow>
    working start_job next_act idle c0 g0 capacity num_threads js w'"
| spurious: "working start_job next_act idle c0 g0 capacity num_threads js (s, acts, g) \<Longrightarrow> spurious s s' \<Longrightarrow>
    working start_job next_act idle c0 g0 capacity num_threads js (s', acts, g)"

section \<open>The threads underneath\<close>

lemma working_reachable:
  "working start_job next_act idle c0 g0 c n js w \<Longrightarrow> reachable c n js (fst w)"
proof (induction rule: working.induct)
  case (step w w')
  from step.hyps(2) have "fst w' = fst w \<or> Job_Threads.step (fst w) (fst w')"
    by (cases rule: work_step.cases) (auto intro: Job_Threads.step.pop Job_Threads.step.finish)
  then show ?case using step.IH reachable.step by metis
qed (auto intro: reachable.intros)

text \<open>A step that takes or ends no job leaves the workers at their jobs.\<close>

definition job_of :: "'a worker \<Rightarrow> 'a option" where
  "job_of w = (case w of W_Run d \<Rightarrow> Some d | _ \<Rightarrow> None)"

lemma job_of_simps [simp]:
  "job_of W_Ready = None" "job_of W_Wait = None" "job_of W_Done = None" "job_of (W_Run d) = Some d"
  "job_of (wake w) = job_of w"
  by (cases w; simp add: job_of_def)+

lemma jobs_update: "job_of w = job_of (ws ! i) \<Longrightarrow> map job_of (ws[i := w]) = map job_of ws"
  by (cases "i < length ws") (simp_all add: map_update list_update_same_conv list_update_beyond not_less)

lemma jobs_step:
  "step s s' \<Longrightarrow> popped s' = popped s \<Longrightarrow> finished s' = finished s \<Longrightarrow>
   map job_of (workers s') = map job_of (workers s)"
  by (cases rule: step.cases) (auto simp: notempty_def comp_def intro!: jobs_update)

lemma jobs_spurious:
  "spurious s s' \<Longrightarrow> map job_of (workers s') = map job_of (workers s) \<and> popped s' = popped s"
  by (cases rule: spurious.cases) (auto intro!: jobs_update)

section \<open>Invariants of the work\<close>

text \<open>
  \<open>P acts g ds\<close> relates the activities and the shared state to the jobs taken; it carries over
  to runs if starting a job on an idle place and the steps of an activity keep it.
\<close>

definition work_inv :: "('c \<Rightarrow> bool) \<Rightarrow> ('c list \<Rightarrow> 'g \<Rightarrow> 'a list \<Rightarrow> bool) \<Rightarrow> ('a, 'c, 'g) work \<Rightarrow> bool" where
  "work_inv idle P = (\<lambda>(s, acts, g).
     length acts = length (workers s) \<and>
     (\<forall>i < length acts. map job_of (workers s) ! i = None \<longrightarrow> idle (acts ! i)) \<and> P acts g (popped s))"

lemma work_inv_step:
  assumes "work_inv idle P w" and "work_step start_job next_act idle w w'"
    and start: "\<And>acts g ds d i. P acts g ds \<Longrightarrow> i < length acts \<Longrightarrow> idle (acts ! i) \<Longrightarrow> P (acts[i := start_job d]) g (ds @ [d])"
    and act: "\<And>acts g ds i g' a. P acts g ds \<Longrightarrow> i < length acts \<Longrightarrow> \<not> idle (acts ! i) \<Longrightarrow>
      next_act g (acts ! i) = (g', a) \<Longrightarrow> P (acts[i := a]) g' ds"
  shows "work_inv idle P w'"
  using assms(2)
proof (cases rule: work_step.cases)
  case (other s s' acts g)
  then have "map job_of (workers s') = map job_of (workers s)" "length (workers s') = length (workers s)"
    using jobs_step [OF other(3-5)] map_eq_imp_length_eq by blast+
  then show ?thesis using assms(1) other by (simp add: work_inv_def)
next
  case (start i s d q acts g)
  then have "i < length acts" "idle (acts ! i)" using assms(1) by (auto simp: work_inv_def)
  then show ?thesis
    using assms(1) start assms(3) [of acts g "popped s" i d] by (auto simp: work_inv_def nth_list_update)
next
  case (act i s d acts g g' a)
  then show ?thesis
    using assms(1) assms(4) [of acts g "popped s" i g' a] by (auto simp: work_inv_def nth_list_update)
next
  case (finish i s d acts g)
  then show ?thesis using assms(1) by (auto simp: work_inv_def nth_list_update)
qed

lemma work_inv_working:
  assumes "working start_job next_act idle c0 g0 c n js w" and "idle c0" and "P (replicate n c0) g0 []"
    and "\<And>acts g ds d i. P acts g ds \<Longrightarrow> i < length acts \<Longrightarrow> idle (acts ! i) \<Longrightarrow> P (acts[i := start_job d]) g (ds @ [d])"
    and "\<And>acts g ds i g' a. P acts g ds \<Longrightarrow> i < length acts \<Longrightarrow> \<not> idle (acts ! i) \<Longrightarrow>
      next_act g (acts ! i) = (g', a) \<Longrightarrow> P (acts[i := a]) g' ds"
  shows "work_inv idle P w"
  using assms(1)
proof (induction rule: working.induct)
  case init
  then show ?case using assms(2,3) by (simp add: work_inv_def init_sys_def)
next
  case (step w w')
  then show ?case using work_inv_step [OF step.IH step.hyps(2)] assms(4,5) by blast
next
  case (spurious s acts g s')
  note j = jobs_spurious [OF spurious.hyps(2)]
  then have "length (workers s') = length (workers s)" using map_eq_imp_length_eq by blast
  then show ?case using spurious.IH j by (simp add: work_inv_def)
qed

lemma working_length:
  "working start_job next_act idle c0 g0 c n js (s, acts, g) \<Longrightarrow> idle c0 \<Longrightarrow> length acts = length (workers s)"
  using work_inv_working [where P = "\<lambda>_ _ _. True"] by (fastforce simp: work_inv_def)

text \<open>When all threads have ended, all jobs are taken and all activities idle.\<close>

lemma work_done:
  assumes "work_inv idle P (s, acts, g)" and "working start_job next_act idle c0 g0 c n js (s, acts, g)"
    and "0 < c" and "all_done s"
  shows "P acts g js" and "list_all idle acts"
proof -
  have "popped s = js"
    using all_done_finished sys_inv_reachable [OF working_reachable [OF assms(2)] assms(3)] assms(4) by simp
  then show "P acts g js" using assms(1) by (simp add: work_inv_def)
  show "list_all idle acts"
    using assms(1,4) nth_mem by (fastforce simp: work_inv_def all_done_def list_all_length)
qed

section \<open>Every run ends\<close>

lemma work_step_possible:
  assumes "step s s'"
  shows "\<exists>s1 acts1 g1. work_step start_job next_act idle (s, acts, g) (s1, acts1, g1) \<and> (s1 = s \<or> prod s1 = prod s')"
  using assms
proof (cases rule: step.cases)
  case (pop i d q)
  show ?thesis
    using work_step.start [where start_job = start_job and next_act = next_act and idle = idle, OF pop(2-6), of acts g] pop(1)
    by fastforce
next
  case (finish i d)
  obtain g' a where a: "next_act g (acts ! i) = (g', a)" by fastforce
  show ?thesis
  proof (cases "idle (acts ! i)")
    case True
    show ?thesis
      using work_step.finish [where start_job = start_job and next_act = next_act and idle = idle and g = g, OF finish(2,3) True finish(4)] finish(1)
      by fastforce
  next
    case False
    show ?thesis
      using work_step.act [where start_job = start_job and idle = idle and next_act = next_act, OF finish(2,3) False a finish(4)] by blast
  qed
qed (use assms in \<open>auto intro!: exI work_step.other simp: notempty_def\<close>)

lemma work_stuck:
  assumes "working start_job next_act idle c0 g0 c n js (s, acts, g)" and "0 < c" "0 < n"
    and "\<nexists>w. work_step start_job next_act idle (s, acts, g) w"
  shows "all_done s \<or> broken s"
proof -
  have "sys_inv c n js s" using sys_inv_reachable working_reachable [OF assms(1)] assms(2) by fastforce
  moreover have "\<nexists>s'. step s s'" using work_step_possible assms(4) by metis
  ultimately show ?thesis using stuck_ends assms(2,3) by blast
qed

text \<open>While the mutex is in place there is a step that leaves it there or ends the run well.\<close>

lemma work_progress:
  assumes "sys_inv c n js s" and "0 < c" "0 < n" and "prod s \<noteq> P_Done"
  shows "\<exists>s1 acts1 g1. work_step start_job next_act idle (s, acts, g) (s1, acts1, g1) \<and>
    (prod s1 \<noteq> P_Done \<or> all_done s1)"
  using progress [OF assms]
proof
  assume "\<exists>s'. safe_step s s'"
  then obtain s' where s': "step s s'" "prod s' \<noteq> P_Done" by (auto simp: safe_step_def)
  obtain s1 acts1 g1 where "work_step start_job next_act idle (s, acts, g) (s1, acts1, g1)" "s1 = s \<or> prod s1 = prod s'"
    using work_step_possible [OF s'(1), where start_job = start_job and next_act = next_act and idle = idle and acts = acts and g = g] by blast
  then show ?thesis using s'(2) assms(4) by metis
next
  assume p: "prod s = P_Unlocked \<and> (\<forall>w \<in> set (workers s). w = W_Done)"
  have "\<not> broken s" using broken_done [OF assms(1)] assms(4) by blast
  then have "step s (s\<lparr>queue := destroy_mutex (queue s), prod := P_Done\<rparr>)" using p step.release by blast
  from work_step.other [where start_job = start_job and next_act = next_act and idle = idle, OF this, of acts g]
  have "work_step start_job next_act idle (s, acts, g) (s\<lparr>queue := destroy_mutex (queue s), prod := P_Done\<rparr>, acts, g)" by simp
  moreover have "all_done (s\<lparr>queue := destroy_mutex (queue s), prod := P_Done\<rparr>)" using p by (simp add: all_done_def)
  ultimately show ?thesis by blast
qed

locale shrinking_activity =
  fixes next_act :: "'g \<Rightarrow> 'c \<Rightarrow> 'g \<times> 'c"
    and idle :: "'c \<Rightarrow> bool"
    and act_size :: "'c \<Rightarrow> nat"
  assumes smaller: "\<not> idle a \<Longrightarrow> next_act g a = (g', a') \<Longrightarrow> act_size a' < act_size a"
begin

lemma work_step_smaller:
  assumes "work_step start_job next_act idle (s, acts, g) (s', acts', g')" and "length acts = length (workers s)"
  shows "weight s' < weight s \<or> s' = s \<and> sum_list (map act_size acts') < sum_list (map act_size acts)"
  using assms(1)
proof (cases rule: work_step.cases)
  case (act i d a)
  then have "i < length acts" "act_size a < act_size (acts ! i)" using assms(2) smaller by auto
  then have "sum_list (map act_size (acts[i := a])) + act_size (acts ! i) = sum_list (map act_size acts) + act_size a"
    using elem_le_sum_list [of i "map act_size acts"] by (simp add: map_update sum_list_update)
  then show ?thesis using act \<open>act_size a < act_size (acts ! i)\<close> by simp
qed (auto intro: step_weight Job_Threads.step.pop Job_Threads.step.finish)

lemma working_ends:
  assumes "working start_job next_act idle c0 g0 c n js (s, acts, g)" and "idle c0" "0 < c" "0 < n"
    and "prod s \<noteq> P_Done"
  shows "\<exists>s' acts' g'. (work_step start_job next_act idle)\<^sup>*\<^sup>* (s, acts, g) (s', acts', g') \<and>
    working start_job next_act idle c0 g0 c n js (s', acts', g') \<and> all_done s'"
  using assms(1,5)
proof (induction "(weight s, sum_list (map act_size acts))" arbitrary: s acts g
    rule: wf_induct_rule [OF wf_lex_prod [OF wf_less wf_less]])
  case (1 s acts g)
  have "sys_inv c n js s" using sys_inv_reachable working_reachable [OF "1.prems"(1)] assms(3) by fastforce
  from work_progress [where start_job = start_job and next_act = next_act and idle = idle, OF this assms(3,4) "1.prems"(2)]
  obtain s1 acts1 g1 where st: "work_step start_job next_act idle (s, acts, g) (s1, acts1, g1)"
      "prod s1 \<noteq> P_Done \<or> all_done s1" by blast
  note w1 = working.step [OF "1.prems"(1) st(1)]
  have "((weight s1, sum_list (map act_size acts1)), (weight s, sum_list (map act_size acts))) \<in>
      {(x, y). x < y} <*lex*> {(x, y). x < y}"
    using work_step_smaller [OF st(1) working_length [OF "1.prems"(1) assms(2)]] by auto
  note IH = "1.hyps" [OF this w1]
  show ?case
  proof (cases "all_done s1")
    case True
    then show ?thesis using st(1) w1 by blast
  next
    case False
    then obtain s' acts' g' where e: "(work_step start_job next_act idle)\<^sup>*\<^sup>* (s1, acts1, g1) (s', acts', g')"
        "working start_job next_act idle c0 g0 c n js (s', acts', g')" "all_done s'"
      using IH st(2) by blast
    from converse_rtranclp_into_rtranclp [OF st(1) e(1)] e(2,3) show ?thesis by blast
  qed
qed

text \<open>There is no endless run.\<close>

lemma working_terminates:
  assumes "idle c0"
  shows "wf {(w', w). working start_job next_act idle c0 g0 c n js w \<and> work_step start_job next_act idle w w'}"
proof (rule wf_subset)
  let ?m = "\<lambda>(s, acts, g). (weight s, sum_list (map act_size acts))"
  show "wf (inv_image ({(x, y). x < y} <*lex*> {(x, y). x < y}) ?m)"
    by (intro wf_inv_image wf_lex_prod wf_less)
  show "{(w', w). working start_job next_act idle c0 g0 c n js w \<and> work_step start_job next_act idle w w'} \<subseteq>
      inv_image ({(x, y). x < y} <*lex*> {(x, y). x < y}) ?m"
  proof (rule subsetI)
    fix x :: "('a, 'c, 'g) work \<times> ('a, 'c, 'g) work"
    obtain s' acts' g' s acts g where x: "x = ((s', acts', g'), (s, acts, g))"
      by (metis surj_pair)
    assume "x \<in> {(w', w). working start_job next_act idle c0 g0 c n js w \<and> work_step start_job next_act idle w w'}"
    then have w: "working start_job next_act idle c0 g0 c n js (s, acts, g)"
        and st: "work_step start_job next_act idle (s, acts, g) (s', acts', g')"
      by (simp_all add: x)
    show "x \<in> inv_image ({(x, y). x < y} <*lex*> {(x, y). x < y}) ?m"
      using work_step_smaller [OF st working_length [OF w assms]] x by auto
  qed
qed

end

end
