(* ===== verification/Histogram.thy ===== *)
theory Histogram
  imports Prelude "HOL-Library.Signed_Division"
begin

text \<open>
  The bit histograms of \<^verbatim>\<open>A2/histogram.h\<close>, \<^verbatim>\<open>A2/fhistogram.c\<close> and \<^verbatim>\<open>A2/fhistogram-mt.c\<close>. A
  histogram is the list of its eight counters; a file is the list of its bytes, \<open>None\<close> if
  it cannot be opened. The two programs differ in the number of bytes after which the
  local histogram is merged into the global one (\<open>period\<close>) and in that the threads of
  \<^verbatim>\<open>fhistogram-mt\<close> merge without holding the mutex: the loop of \<^verbatim>\<open>merge_histogram\<close> is also
  given as a step relation in which each addition is a load and a store.

  The lemmas show that the sequential program counts the bits of all files, whatever the
  period, that a merge alone is the sequential one, and that merges at the same time can
  lose all the counts of a thread.
\<close>

section \<open>Operations\<close>

text \<open>\<^verbatim>\<open>byte & (1<<i)\<close>\<close>

definition bit_set :: "byte \<Rightarrow> nat \<Rightarrow> bool" where
  "bit_set b i \<longleftrightarrow> ucast b AND push_bit i (1 :: cint) \<noteq> 0"

definition update_histogram :: "cint list \<Rightarrow> byte \<Rightarrow> cint list" where
  "update_histogram histogram b =
     fold (\<lambda>i h. if bit_set b i then h[i := h ! i + 1] else h) [0..<8] histogram"

definition merge_histogram :: "cint list \<Rightarrow> cint list \<Rightarrow> cint list \<times> cint list" where
  "merge_histogram from to =
     fold (\<lambda>i (from, to). (from[i := 0], to[i := to ! i + from ! i])) [0..<8] (from, to)"

text \<open>The loop of \<^verbatim>\<open>fhistogram\<close> with its counter \<^verbatim>\<open>i\<close>, the local and the global histogram.\<close>

fun file_loop :: "int \<Rightarrow> byte list \<Rightarrow> cint \<Rightarrow> cint list \<times> cint list \<Rightarrow> cint list \<times> cint list" where
  "file_loop period [] i hs = hs"
| "file_loop period (c # cs) i (local, global) =
     (let i = i + 1; local = update_histogram local c
      in file_loop period cs i
           (if sint i smod period = 0 then merge_histogram local global else (local, global)))"

definition fhistogram :: "int \<Rightarrow> byte list option \<Rightarrow> cint list \<Rightarrow> int \<times> cint list" where
  "fhistogram period file global =
     (case file of
        None \<Rightarrow> (- 1, global)
      | Some cs \<Rightarrow>
          (case file_loop period cs 0 (replicate 8 0, global) of
             (local, global) \<Rightarrow> (0, snd (merge_histogram local global))))"

text \<open>\<^verbatim>\<open>main\<close> of \<^verbatim>\<open>fhistogram.c\<close> over the files of the walk.\<close>

definition fhistogram_main :: "byte list option list \<Rightarrow> cint list" where
  "fhistogram_main files = fold (\<lambda>f g. snd (fhistogram 100000 f g)) files (replicate 8 0)"

section \<open>Counting\<close>

lemma bit_set_iff: "i < 8 \<Longrightarrow> bit_set b i \<longleftrightarrow> bit b i"
proof -
  assume i: "i < 8"
  have "ucast b AND push_bit i (1 :: cint) = (if bit b i then push_bit i 1 else 0)"
    by (rule word32_eqI) (use i in \<open>auto simp: bit_simps bit_1_iff\<close>)
  moreover have "push_bit i (1 :: cint) \<noteq> 0"
    using i by (auto simp: bit_eq_iff bit_simps intro!: exI [of _ i])
  ultimately show ?thesis by (simp add: bit_set_def)
qed

lemma fold_update_nth:
  "length (fold (\<lambda>i h. h[i := f i (h ! i)]) [0..<n] h) = length h \<and>
   (\<forall>k<length h. fold (\<lambda>i h. h[i := f i (h ! i)]) [0..<n] h ! k = (if k < n then f k (h ! k) else h ! k))"
  by (induction n) (auto simp: nth_list_update less_Suc_eq)

lemma fold_update_beyond: "n \<le> k \<Longrightarrow> fold (\<lambda>i h. h[i := f i (h ! i)]) [0..<n] h ! k = h ! k"
  by (induction n) auto

lemma update_histogram_spec:
  assumes "length h = 8"
  shows "length (update_histogram h b) = 8"
    and "k < 8 \<Longrightarrow> update_histogram h b ! k = h ! k + of_bool (bit b k)"
proof -
  have eq: "update_histogram h b = fold (\<lambda>i h. h[i := (if bit_set b i then h ! i + 1 else h ! i)]) [0..<8] h"
    unfolding update_histogram_def by (rule fold_cong) auto
  show "length (update_histogram h b) = 8"
    and "k < 8 \<Longrightarrow> update_histogram h b ! k = h ! k + of_bool (bit b k)"
    using fold_update_nth [of "\<lambda>i x. if bit_set b i then x + 1 else x" 8 h] assms
    by (simp_all add: eq bit_set_iff)
qed

lemma merge_fold:
  "length from = length to \<Longrightarrow>
   fold (\<lambda>i (from, to). (from[i := 0], to[i := to ! i + from ! i])) [0..<n] (from, to) =
   (fold (\<lambda>i h. h[i := 0]) [0..<n] from, fold (\<lambda>i h. h[i := h ! i + from ! i]) [0..<n] to)"
proof (induction n)
  case (Suc n)
  have "fold (\<lambda>i h. h[i := 0]) [0..<n] from ! n = from ! n"
    using fold_update_beyond [of n n "\<lambda>_ _. 0"] by simp
  then show ?case using Suc by simp
qed simp

lemma fold_zero: "length h = 8 \<Longrightarrow> fold (\<lambda>i h. h[i := 0]) [0..<8] h = replicate 8 (0 :: cint)"
  by (rule nth_equalityI) (use fold_update_nth [of "\<lambda>_ _. 0" 8 h] in auto)

lemma fold_add:
  "length h = 8 \<Longrightarrow> length from = 8 \<Longrightarrow>
   fold (\<lambda>i h. h[i := h ! i + from ! i]) [0..<8] h = map2 (+) h (from :: cint list)"
  by (rule nth_equalityI) (use fold_update_nth [of "\<lambda>i x. x + from ! i" 8 h] in auto)

lemma merge_histogram_spec:
  assumes "length from = 8" and "length to = 8"
  shows "merge_histogram from to = (replicate 8 0, map2 (+) to from)"
  unfolding merge_histogram_def using assms by (simp only: merge_fold fold_zero fold_add)

text \<open>How many bytes have bit \<open>k\<close> set, as the counters see it.\<close>

definition bit_count :: "nat \<Rightarrow> byte list \<Rightarrow> cint" where
  "bit_count k cs = of_nat (length (filter (\<lambda>c. bit c k) cs))"

lemma bit_count_simps [simp]:
  "bit_count k [] = 0" "bit_count k (c # cs) = of_bool (bit c k) + bit_count k cs"
  "bit_count k (cs @ ds) = bit_count k cs + bit_count k ds"
  by (simp_all add: bit_count_def)

lemma file_loop_counts:
  "length local = 8 \<Longrightarrow> length global = 8 \<Longrightarrow>
   (case file_loop period cs i (local, global) of (local', global') \<Rightarrow>
      length local' = 8 \<and> length global' = 8 \<and>
      (\<forall>k<8. local' ! k + global' ! k = local ! k + global ! k + bit_count k cs))"
proof (induction cs arbitrary: i local global)
  case (Cons c cs)
  let ?l = "update_histogram local c"
  have l: "length ?l = 8" "\<And>k. k < 8 \<Longrightarrow> ?l ! k = local ! k + of_bool (bit c k)"
    using update_histogram_spec Cons.prems(1) by auto
  have m: "merge_histogram ?l global = (replicate 8 0, map2 (+) global ?l)"
    by (rule merge_histogram_spec) (use l Cons.prems in auto)
  show ?case
    using Cons.IH [of ?l global "i + 1"] Cons.IH [of "replicate 8 0" "map2 (+) global ?l" "i + 1"] l Cons.prems
    by (auto simp: Let_def m algebra_simps split: prod.splits)
qed simp

lemma fhistogram_counts:
  assumes "length global = 8"
  shows "length (snd (fhistogram period fl global)) = 8"
    and "k < 8 \<Longrightarrow> snd (fhistogram period fl global) ! k =
      global ! k + (case fl of None \<Rightarrow> 0 | Some cs \<Rightarrow> bit_count k cs)"
proof -
  have r: "length (replicate 8 (0 :: cint)) = 8" by simp
  note loop = file_loop_counts [OF r assms]
  show "length (snd (fhistogram period fl global)) = 8"
  proof (cases fl)
    case (Some cs)
    obtain l g where lg: "file_loop period cs 0 (replicate 8 0, global) = (l, g)" by force
    then have "length l = 8" "length g = 8" using loop [where period = period and cs = cs and i = 0] by auto
    then show ?thesis using Some by (simp add: fhistogram_def lg merge_histogram_spec)
  qed (simp add: fhistogram_def assms)
  show "snd (fhistogram period fl global) ! k =
      global ! k + (case fl of None \<Rightarrow> 0 | Some cs \<Rightarrow> bit_count k cs)" if "k < 8"
  proof (cases fl)
    case (Some cs)
    obtain l g where lg: "file_loop period cs 0 (replicate 8 0, global) = (l, g)" by force
    then have "length l = 8" "length g = 8" "l ! k + g ! k = global ! k + bit_count k cs"
      using loop [where period = period and cs = cs and i = 0] that by auto
    then show ?thesis
      using that Some by (simp add: fhistogram_def lg merge_histogram_spec add.commute)
  qed (simp add: fhistogram_def)
qed

text \<open>All bytes of the files that can be opened.\<close>

definition contents :: "byte list option list \<Rightarrow> byte list" where
  "contents files = concat (map (\<lambda>f. case f of None \<Rightarrow> [] | Some cs \<Rightarrow> cs) files)"

lemma fold_fhistogram:
  "length g = 8 \<Longrightarrow> length (fold (\<lambda>f g. snd (fhistogram p f g)) files g) = 8 \<and>
   (\<forall>k<8. fold (\<lambda>f g. snd (fhistogram p f g)) files g ! k = g ! k + bit_count k (contents files))"
proof (induction files arbitrary: g)
  case (Cons f files)
  show ?case
    using Cons.IH [of "snd (fhistogram p f g)"] fhistogram_counts [OF Cons.prems, where period = p and fl = f]
    by (auto simp: contents_def split: option.splits)
qed (simp add: contents_def)

lemma fhistogram_main_eq: "fhistogram_main files = map (\<lambda>k. bit_count k (contents files)) [0..<8]"
  by (rule nth_equalityI)
    (use fold_fhistogram [of "replicate 8 0" 100000 files] in \<open>auto simp: fhistogram_main_def\<close>)

section \<open>Merging without the mutex\<close>

text \<open>
  A thread in the loop of \<^verbatim>\<open>merge_histogram\<close>: before its addition for bucket \<open>i\<close>, or between
  the load of \<^verbatim>\<open>to[i]\<close> and the store of the sum.
\<close>

datatype merging = At nat | Loaded nat cint

record merge_state =
  to_hist :: "cint list"
  froms :: "cint list list"
  threads :: "merging list"

inductive merge_step :: "merge_state \<Rightarrow> merge_state \<Rightarrow> bool" where
  load: "t < length (threads s) \<Longrightarrow> threads s ! t = At i \<Longrightarrow> i < 8 \<Longrightarrow>
    merge_step s (s\<lparr>threads := (threads s)[t := Loaded i (to_hist s ! i)]\<rparr>)"
| store: "t < length (threads s) \<Longrightarrow> threads s ! t = Loaded i v \<Longrightarrow>
    merge_step s (s\<lparr>to_hist := (to_hist s)[i := v + froms s ! t ! i],
      froms := (froms s)[t := (froms s ! t)[i := 0]], threads := (threads s)[t := At (i + 1)]\<rparr>)"

definition two_merges :: "cint list \<Rightarrow> cint list \<Rightarrow> cint list \<Rightarrow> nat \<Rightarrow> merge_state" where
  "two_merges to a b i = \<lparr>to_hist = to, froms = [a, b], threads = [At i, At i]\<rparr>"

text \<open>Both threads load a bucket, then both store it: the sum of the second thread is lost.\<close>

lemma lost_bucket:
  assumes "i < 8"
  shows "merge_step\<^sup>*\<^sup>* (two_merges to a b i)
    (two_merges (to[i := to ! i + a ! i]) (a[i := 0]) (b[i := 0]) (i + 1))"
proof -
  let ?s = "\<lambda>h a b t. \<lparr>to_hist = h, froms = [a, b], threads = t\<rparr>"
  have "merge_step (?s to a b [At i, At i]) (?s to a b [Loaded i (to ! i), At i])"
    using merge_step.load [of 0 "?s to a b [At i, At i]" i] assms by simp
  moreover have "merge_step (?s to a b [Loaded i (to ! i), At i]) (?s to a b [Loaded i (to ! i), Loaded i (to ! i)])"
    using merge_step.load [of 1 "?s to a b [Loaded i (to ! i), At i]" i] assms by simp
  moreover have "merge_step (?s to a b [Loaded i (to ! i), Loaded i (to ! i)])
      (?s (to[i := to ! i + b ! i]) a (b[i := 0]) [Loaded i (to ! i), At (i + 1)])"
    using merge_step.store [of 1 "?s to a b [Loaded i (to ! i), Loaded i (to ! i)]" i] by simp
  moreover have "merge_step (?s (to[i := to ! i + b ! i]) a (b[i := 0]) [Loaded i (to ! i), At (i + 1)])
      (?s (to[i := to ! i + a ! i]) (a[i := 0]) (b[i := 0]) [At (i + 1), At (i + 1)])"
    using merge_step.store [of 0 "?s (to[i := to ! i + b ! i]) a (b[i := 0]) [Loaded i (to ! i), At (i + 1)]" i]
    by simp
  ultimately show ?thesis unfolding two_merges_def by (meson converse_rtranclp_into_rtranclp rtranclp.rtrancl_refl)
qed

lemma lost_merge:
  "n \<le> 8 \<Longrightarrow> merge_step\<^sup>*\<^sup>* (two_merges to a b 0)
    (two_merges (fold (\<lambda>i h. h[i := h ! i + a ! i]) [0..<n] to)
      (fold (\<lambda>i h. h[i := 0]) [0..<n] a) (fold (\<lambda>i h. h[i := 0]) [0..<n] b) n)"
proof (induction n)
  case (Suc n)
  let ?to = "fold (\<lambda>i h. h[i := h ! i + a ! i]) [0..<n] to"
  let ?a = "fold (\<lambda>i h. h[i := 0]) [0..<n] a"
  let ?b = "fold (\<lambda>i h. h[i := 0]) [0..<n] b"
  have "?a ! n = a ! n" using fold_update_beyond [of n n "\<lambda>_ _. 0"] by simp
  then have "merge_step\<^sup>*\<^sup>* (two_merges ?to ?a ?b n)
      (two_merges (?to[n := ?to ! n + a ! n]) (?a[n := 0]) (?b[n := 0]) (Suc n))"
    using lost_bucket [of n ?to ?a ?b] Suc.prems by simp
  from rtranclp_trans [OF _ this] Suc show ?case by simp
qed simp

section \<open>Properties\<close>

text \<open>
  C27: the sequential program counts, for each bit, the bytes of all readable files that
  have it set (modulo 2^32), whatever the merge period: each counter of the global
  histogram is exact.
\<close>

theorem histogram_counts_bits:
  "fhistogram_main files = map (\<lambda>k. bit_count k (contents files)) [0..<8]"
  by (rule fhistogram_main_eq)

text \<open>
  C29: of two threads of \<^verbatim>\<open>fhistogram-mt\<close> that merge at the same time, one can lose all its
  counts: both local histograms end as zero, but the global one holds only the first
  thread's counts, whereas one merge after the other adds both.
\<close>

theorem unlocked_merge_loses_counts:
  assumes "length a = 8" and "length b = 8" and "length to = 8"
  shows "merge_step\<^sup>*\<^sup>* (two_merges to a b 0) (two_merges (map2 (+) to a) (replicate 8 0) (replicate 8 0) 8) \<and>
    snd (merge_histogram b (snd (merge_histogram a to))) = map2 (+) (map2 (+) to a) b"
  using lost_merge [of 8 to a b] assms by (simp only: fold_zero fold_add) (simp add: merge_histogram_spec)

theorem unlocked_merge_loses_counts_witness:
  "merge_step\<^sup>*\<^sup>* (two_merges (replicate 8 0) (replicate 8 1) (replicate 8 2) 0)
      (two_merges (map2 (+) (replicate 8 0) (replicate 8 1)) (replicate 8 0) (replicate 8 0) 8) \<and>
    snd (merge_histogram (replicate 8 2) (snd (merge_histogram (replicate 8 1) (replicate 8 0)))) =
      map2 (+) (map2 (+) (replicate 8 0) (replicate 8 1)) (replicate 8 2)"
  by (rule unlocked_merge_loses_counts) simp_all

end
