(* ===== verification/Records.thy ===== *)
theory Records
  imports Prelude
begin

text \<open>
  Reading place records, \<^verbatim>\<open>A1/record.c\<close>. A file is its text; \<^verbatim>\<open>getline\<close> takes one line of
  it with the newline, \<^verbatim>\<open>atol\<close> and \<^verbatim>\<open>atoi\<close> are written out with the saturation of
  \<^verbatim>\<open>strtol\<close>. Floating-point numbers are of a type \<open>'d\<close> and \<^verbatim>\<open>atof\<close> is a parameter. A field
  that a line does not set keeps what the allocated memory held: \<open>read_record\<close> updates a
  given record. As the fields are set in order, the number of those that were set says
  which ones hold a value: \<open>set_columns\<close>, which is not a field of the code, records it, so
  that the programs that use the records can tell the use of a field that was never set.

  The lemmas show which column each field takes, that a file gives one record per line
  after the header, and that the array that grows by doubling is never left as long as
  its capacity fits into an \<^verbatim>\<open>int\<close>.
\<close>

section \<open>The parts of the C library that are used\<close>

abbreviation tab :: char where "tab \<equiv> CHR 0x09"
abbreviation nl :: char where "nl \<equiv> CHR 0x0A"

text \<open>\<^verbatim>\<open>getline\<close>: the line, with its newline if it has one, and the rest of the file.\<close>

fun split_line :: "string \<Rightarrow> string \<times> string" where
  "split_line [] = ([], [])"
| "split_line (c # cs) =
     (if c = nl then ([c], cs) else (case split_line cs of (l, r) \<Rightarrow> (c # l, r)))"

definition getline :: "string \<Rightarrow> (string \<times> string) option" where
  "getline f = (if f = [] then None else Some (split_line f))"

lemma split_line_length: "length (fst (split_line cs)) + length (snd (split_line cs)) = length cs"
  by (induction cs rule: split_line.induct) (auto split: prod.splits)

lemma getline_shorter: "getline f = Some (l, r) \<Longrightarrow> length r < length f"
  using split_line_length [of f] by (cases f) (auto simp: getline_def split: if_splits prod.splits)

definition is_space :: "char \<Rightarrow> bool" where
  "is_space c \<longleftrightarrow> code c = 32 \<or> (9 \<le> code c \<and> code c \<le> 13)"

definition is_digit :: "char \<Rightarrow> bool" where
  "is_digit c \<longleftrightarrow> 48 \<le> code c \<and> code c \<le> 57"

definition strtol :: "string \<Rightarrow> int" where
  "strtol s =
     (let s = dropWhile is_space s;
          neg = (s \<noteq> [] \<and> hd s = CHR ''-'');
          s = (if s \<noteq> [] \<and> (hd s = CHR ''-'' \<or> hd s = CHR ''+'') then tl s else s);
          v = foldl (\<lambda>v c. v * 10 + (code c - 48)) 0 (takeWhile is_digit s);
          v = (if neg then - v else v)
      in max (- (2 ^ 63)) (min (2 ^ 63 - 1) v))"

definition atol :: "string \<Rightarrow> 64 word" where "atol s = word_of_int (strtol s)"

definition atoi :: "string \<Rightarrow> cint" where "atoi s = word_of_int (strtol s)"

section \<open>Records\<close>

record 'd place =
  name :: string
  alternative_names :: string
  osm_type :: string
  osm_id :: "64 word"
  p_class :: string
  p_type :: string
  lon :: 'd
  lat :: 'd
  place_rank :: cint
  importance :: 'd
  street :: string
  city :: string
  county :: string
  state :: string
  country :: string
  country_code :: string
  display_name :: string
  west :: 'd
  south :: 'd
  east :: 'd
  north :: 'd
  wikidata :: string
  wikipedia :: string
  housenumbers :: string
  p_line :: string
  set_columns :: nat

text \<open>Whether the identifier was set, whether the longitude was, and whether name and coordinates were.\<close>

definition has_id :: "'d place \<Rightarrow> bool" where
  "has_id r \<longleftrightarrow> 4 \<le> set_columns r"

definition has_lon :: "'d place \<Rightarrow> bool" where
  "has_lon r \<longleftrightarrow> 7 \<le> set_columns r"

definition has_coords :: "'d place \<Rightarrow> bool" where
  "has_coords r \<longleftrightarrow> 8 \<le> set_columns r"

definition header :: string where
  "header = concat (map (\<lambda>s. s @ [tab])
     [''name'', ''alternative_names'', ''osm_type'', ''osm_id'', ''class'', ''type'', ''lon'', ''lat'',
      ''place_rank'', ''importance'', ''street'', ''city'', ''county'', ''state'', ''country'',
      ''country_code'', ''display_name'', ''west'', ''south'', ''east'', ''north'', ''wikidata'',
      ''wikipedia'']) @ ''housenumbers'' @ [nl]"

text \<open>The result of \<^verbatim>\<open>input_looks_ok\<close> and the file after the line it read.\<close>

definition input_looks_ok :: "string \<Rightarrow> int \<times> string" where
  "input_looks_ok f =
     (case getline f of None \<Rightarrow> (- 1, f)
      | Some (line, f) \<Rightarrow> (if line = header then 1 else 0, f))"

text \<open>
  One of the 24 conditionals of \<^verbatim>\<open>read_record\<close>: if \<^verbatim>\<open>strstr\<close> finds a tab before the end of the C
  string, the field is set and \<^verbatim>\<open>start\<close> moves behind it. The tab is overwritten by a zero only
  after the field was set: a text ends there, but \<^verbatim>\<open>atol\<close>, \<^verbatim>\<open>atoi\<close> and \<^verbatim>\<open>atof\<close> are given the whole
  rest of the line.
\<close>

fun split_tab :: "string \<Rightarrow> (string \<times> string) option" where
  "split_tab [] = None"
| "split_tab (c # cs) =
     (if c = CHR 0x00 then None
      else if c = tab then Some ([], cs)
      else map_option (\<lambda>(t, r). (c # t, r)) (split_tab cs))"

definition field :: "(string \<Rightarrow> string \<Rightarrow> 'd place \<Rightarrow> 'd place) \<Rightarrow> 'd place \<times> string \<Rightarrow> 'd place \<times> string" where
  "field store = (\<lambda>(r, start).
     (case split_tab start of None \<Rightarrow> (r, start)
      | Some (t, rest) \<Rightarrow> ((store t (c_str start) r)\<lparr>set_columns := set_columns r + 1\<rparr>, rest)))"

definition stores :: "(string \<Rightarrow> 'd) \<Rightarrow> (string \<Rightarrow> string \<Rightarrow> 'd place \<Rightarrow> 'd place) list" where
  "stores atof =
     [\<lambda>t s r. r\<lparr>name := t\<rparr>, \<lambda>t s r. r\<lparr>alternative_names := t\<rparr>, \<lambda>t s r. r\<lparr>osm_type := t\<rparr>,
      \<lambda>t s r. r\<lparr>osm_id := atol s\<rparr>, \<lambda>t s r. r\<lparr>p_class := t\<rparr>, \<lambda>t s r. r\<lparr>p_type := t\<rparr>,
      \<lambda>t s r. r\<lparr>lon := atof s\<rparr>, \<lambda>t s r. r\<lparr>lat := atof s\<rparr>, \<lambda>t s r. r\<lparr>place_rank := atoi s\<rparr>,
      \<lambda>t s r. r\<lparr>importance := atof s\<rparr>, \<lambda>t s r. r\<lparr>street := t\<rparr>, \<lambda>t s r. r\<lparr>city := t\<rparr>,
      \<lambda>t s r. r\<lparr>county := t\<rparr>, \<lambda>t s r. r\<lparr>state := t\<rparr>, \<lambda>t s r. r\<lparr>country := t\<rparr>,
      \<lambda>t s r. r\<lparr>country_code := t\<rparr>, \<lambda>t s r. r\<lparr>display_name := t\<rparr>, \<lambda>t s r. r\<lparr>west := atof s\<rparr>,
      \<lambda>t s r. r\<lparr>west := atof s\<rparr>, \<lambda>t s r. r\<lparr>east := atof s\<rparr>, \<lambda>t s r. r\<lparr>north := atof s\<rparr>,
      \<lambda>t s r. r\<lparr>wikidata := t\<rparr>, \<lambda>t s r. r\<lparr>wikipedia := t\<rparr>, \<lambda>t s r. r\<lparr>housenumbers := t\<rparr>]"

definition read_record :: "(string \<Rightarrow> 'd) \<Rightarrow> 'd place \<Rightarrow> string \<Rightarrow> ('d place \<times> string) option" where
  "read_record atof r f =
     (case getline f of None \<Rightarrow> None
      | Some (line, f) \<Rightarrow>
          Some (fst (fold field (stores atof) (r\<lparr>p_line := line, set_columns := 0\<rparr>, line)), f))"

section \<open>Reading a file\<close>

text \<open>
  The loop of \<^verbatim>\<open>read_records\<close>. The array is the list of its \<open>capacity\<close> elements; \<open>garbage\<close>
  is what fresh memory holds. \<open>None\<close> is an access outside the array, or the overflow of the
  \<^verbatim>\<open>int\<close> that holds the capacity (\<^verbatim>\<open>i\<close> is at most the capacity).
\<close>

function read_loop :: "(string \<Rightarrow> 'd) \<Rightarrow> 'd place \<Rightarrow> string \<Rightarrow> 'd place list \<Rightarrow> nat \<Rightarrow> ('d place list \<times> nat) option" where
  "read_loop atof garbage f rs i =
     (if length rs \<le> i then None
      else case read_record atof (rs ! i) f of
        None \<Rightarrow> Some (rs, i)
      | Some (r, f') \<Rightarrow>
          let rs = rs[i := r]; i = i + 1
          in if i = length rs
             then if length rs * 2 < 2 ^ 31 then read_loop atof garbage f' (rs @ replicate (length rs) garbage) i else None
             else read_loop atof garbage f' rs i)"
  by pat_completeness auto
termination
  by (relation "measure (\<lambda>(_, _, f, _, _). length f)")
    (auto simp: read_record_def getline_shorter split: option.splits)

declare read_loop.simps [simp del]

datatype 'a loaded = Null_pointer | Out_of_bounds | Array 'a nat

text \<open>\<open>Out_of_bounds\<close> is undefined behaviour. In fresh memory no field is set.\<close>

definition read_records :: "(string \<Rightarrow> 'd) \<Rightarrow> 'd place \<Rightarrow> string option \<Rightarrow> 'd place list loaded" where
  "read_records atof garbage file =
     (case file of None \<Rightarrow> Null_pointer
      | Some f \<Rightarrow>
          (case input_looks_ok f of (ok, f) \<Rightarrow>
             if ok = 0 then Null_pointer
             else case read_loop atof (garbage\<lparr>set_columns := 0\<rparr>) f (replicate 100 (garbage\<lparr>set_columns := 0\<rparr>)) 0 of
                    None \<Rightarrow> Out_of_bounds | Some (rs, n) \<Rightarrow> Array rs n))"

section \<open>A line of columns\<close>

definition column_ok :: "string \<Rightarrow> bool" where
  "column_ok s \<longleftrightarrow> tab \<notin> set s \<and> nl \<notin> set s \<and> CHR 0x00 \<notin> set s"

lemma split_tab_column: "tab \<notin> set t \<Longrightarrow> CHR 0x00 \<notin> set t \<Longrightarrow> split_tab (t @ tab # rest) = Some (t, rest)"
  by (induction t) auto

lemma split_tab_None: "tab \<notin> set t \<Longrightarrow> split_tab t = None"
  by (induction t) auto

lemma field_column: "column_ok t \<Longrightarrow> field store (r, t @ tab # rest) =
    ((store t (c_str (t @ tab # rest)) r)\<lparr>set_columns := set_columns r + 1\<rparr>, rest)"
  by (simp add: field_def split_tab_column column_ok_def)

lemma field_last: "tab \<notin> set t \<Longrightarrow> field store (r, t) = (r, t)"
  by (simp add: field_def split_tab_None)

lemma fold_field_last: "tab \<notin> set t \<Longrightarrow> fold field gs (r, t) = (r, t)"
  by (induction gs) (simp_all add: field_last)

lemma c_str_all: "CHR 0x00 \<notin> set s \<Longrightarrow> c_str s = s"
  by (auto simp: c_str_def takeWhile_eq_all_conv)

text \<open>The columns of the format, the last one ended by the newline.\<close>

definition row :: "string list \<Rightarrow> string \<Rightarrow> string" where
  "row ts t = concat (map (\<lambda>t. t @ [tab]) ts) @ t"

lemma row_simps [simp]: "row [] t0 = t0" "row (t # ts) t0 = t @ tab # row ts t0"
  by (simp_all add: row_def)

lemma row_nul: "\<forall>t \<in> set (t0 # ts). CHR 0x00 \<notin> set t \<Longrightarrow> CHR 0x00 \<notin> set (row ts t0)"
  by (auto simp: row_def)

text \<open>What the conditionals do with columns that are followed by a tab.\<close>

fun fill :: "(string \<Rightarrow> string \<Rightarrow> 'd place \<Rightarrow> 'd place) list \<Rightarrow> string list \<Rightarrow> string \<Rightarrow> 'd place \<Rightarrow> 'd place" where
  "fill (f # fs) (t # ts) t0 r = fill fs ts t0 ((f t (row (t # ts) t0) r)\<lparr>set_columns := set_columns r + 1\<rparr>)"
| "fill fs ts t0 r = r"

lemma fold_fields:
  "length ts = length fs \<Longrightarrow> \<forall>t \<in> set ts. column_ok t \<Longrightarrow> CHR 0x00 \<notin> set t0 \<Longrightarrow>
   fold field (fs @ gs) (r, row ts t0) = fold field gs (fill fs ts t0 r, t0)"
proof (induction ts arbitrary: fs r)
  case (Cons t ts)
  then obtain f fs' where f: "fs = f # fs'" by (cases fs) auto
  have "CHR 0x00 \<notin> set (row (t # ts) t0)" using Cons.prems by (intro row_nul) (auto simp: column_ok_def)
  then show ?case using Cons by (simp add: f field_column c_str_all)
qed simp

lemma split_line_line: "nl \<notin> set l \<Longrightarrow> split_line (l @ nl # rest) = (l @ [nl], rest)"
  by (induction l) auto

lemma read_record_row:
  assumes "length ts = 23" and "\<forall>t \<in> set (t0 # ts). column_ok t"
  shows "read_record atof r (row ts t0 @ nl # f) =
    Some (fill (take 23 (stores atof)) ts (t0 @ [nl]) (r\<lparr>p_line := row ts t0 @ [nl], set_columns := 0\<rparr>), f)"
proof -
  let ?r = "r\<lparr>p_line := row ts t0 @ [nl], set_columns := 0\<rparr>"
  have "nl \<notin> set (row ts t0)" using assms(2) by (auto simp: row_def column_ok_def)
  then have g: "getline (row ts t0 @ nl # f) = Some (row ts t0 @ [nl], f)"
    by (simp add: getline_def split_line_line)
  have st: "stores atof = take 23 (stores atof) @ drop 23 (stores atof)" by simp
  have "length (take 23 (stores atof)) = 23" by (simp add: stores_def)
  then have "fold field (take 23 (stores atof) @ drop 23 (stores atof)) (?r, row ts (t0 @ [nl])) =
    fold field (drop 23 (stores atof)) (fill (take 23 (stores atof)) ts (t0 @ [nl]) ?r, t0 @ [nl])"
    using assms by (intro fold_fields) (auto simp: column_ok_def)
  also have "\<dots> = (fill (take 23 (stores atof)) ts (t0 @ [nl]) ?r, t0 @ [nl])"
    using assms(2) by (intro fold_field_last) (simp add: column_ok_def)
  finally have "fst (fold field (stores atof) (?r, row ts (t0 @ [nl]))) = fill (take 23 (stores atof)) ts (t0 @ [nl]) ?r"
    by (simp only: append_take_drop_id fst_conv)
  moreover have "row ts (t0 @ [nl]) = row ts t0 @ [nl]" by (simp add: row_def)
  ultimately show ?thesis unfolding read_record_def g by simp
qed

text \<open>
  A number is read up to the tab, if there is anything but white space before it;
  otherwise the reading goes on in the next column, because the tab is white space too.
\<close>

definition blank_column :: "string \<Rightarrow> bool" where
  "blank_column t \<longleftrightarrow> list_all is_space t"

lemma strtol_column:
  assumes "\<not> blank_column t"
  shows "strtol (t @ tab # u) = strtol t"
proof -
  let ?d = "dropWhile is_space t"
  have d: "dropWhile is_space (t @ tab # u) = ?d @ tab # u" "?d \<noteq> []"
    using assms by (auto simp: blank_column_def list_all_iff dropWhile_append)
  have digits: "takeWhile is_digit (v @ tab # u) = takeWhile is_digit v" for v
    by (induction v) (simp_all add: is_digit_def)
  show ?thesis using d(2) by (cases ?d) (auto simp: strtol_def d(1) digits Let_def simp flip: append_Cons)
qed

lemma strtol_blank_column:
  assumes "blank_column t"
  shows "strtol (t @ tab # u) = strtol u"
proof -
  have "dropWhile is_space (t @ tab # u) = dropWhile is_space u"
    using assms by (simp add: blank_column_def list_all_iff dropWhile_append is_space_def)
  then show ?thesis by (simp add: strtol_def)
qed

section \<open>All lines of a file\<close>

function lines :: "string \<Rightarrow> string list" where
  "lines f = (case getline f of None \<Rightarrow> [] | Some (l, f) \<Rightarrow> l # lines f)"
  by pat_completeness auto
termination by (relation "measure length") (auto simp: getline_shorter)

declare lines.simps [simp del]

definition parse :: "(string \<Rightarrow> 'd) \<Rightarrow> 'd place \<Rightarrow> string \<Rightarrow> 'd place" where
  "parse atof garbage line = fst (fold field (stores atof) (garbage\<lparr>p_line := line, set_columns := 0\<rparr>, line))"

text \<open>
  The capacity is 100 doubled up to 24 times; doubling it once more would overflow. So
  1677721600 lines are one too many.
\<close>

lemma read_loop_spec:
  assumes "i < length rs" and "\<forall>j<length rs. i \<le> j \<longrightarrow> rs ! j = garbage" and "length rs = 100 * 2 ^ k" and "k \<le> 24"
  shows "if i + length (lines f) < 1677721600
    then \<exists>rs'. read_loop atof garbage f rs i = Some (rs', i + length (lines f)) \<and>
      i + length (lines f) < length rs' \<and> (\<forall>j<length rs'. i + length (lines f) \<le> j \<longrightarrow> rs' ! j = garbage) \<and>
      take (i + length (lines f)) rs' = take i rs @ map (parse atof garbage) (lines f)
    else read_loop atof garbage f rs i = None"
  using assms
proof (induction f arbitrary: rs i k rule: lines.induct)
  case (1 f)
  have "(2 :: nat) ^ k \<le> 2 ^ 24" using "1.prems"(4) by (intro power_increasing) simp_all
  then have small: "length rs \<le> 1677721600" using "1.prems"(3) by simp
  show ?case
  proof (cases "getline f")
    case None
    then show ?thesis using "1.prems"(1,2) small
      by (simp add: read_loop.simps [of _ _ f rs i] lines.simps [of f] read_record_def)
  next
    case (Some p)
    obtain l f' where p: "getline f = Some (l, f')" using Some by (cases p) auto
    let ?r = "parse atof garbage l"
    have r: "read_record atof (rs ! i) f = Some (?r, f')"
      using "1.prems" by (simp add: read_record_def p parse_def)
    have ls: "lines f = l # lines f'" by (simp add: lines.simps [of f] p)
    note unfold = read_loop.simps [of atof garbage f rs i]
    have pre: "take (i + 1) (rs[i := ?r]) = take i rs @ [?r]"
      using "1.prems"(1) by (simp add: take_Suc_conv_app_nth)
    show ?thesis
    proof (cases "i + 1 = length rs")
      case False
      have step: "read_loop atof garbage f rs i = read_loop atof garbage f' (rs[i := ?r]) (i + 1)"
        using "1.prems"(1) r False by (simp add: unfold Let_def)
      have "i + 1 < length (rs[i := ?r])" "\<forall>j<length (rs[i := ?r]). i + 1 \<le> j \<longrightarrow> rs[i := ?r] ! j = garbage"
        "length (rs[i := ?r]) = 100 * 2 ^ k"
        using "1.prems" False by auto
      from "1.IH" [OF p refl this "1.prems"(4)] show ?thesis using pre by (auto simp: step ls)
    next
      case full: True
      let ?rs = "rs[i := ?r] @ replicate (length rs) garbage"
      show ?thesis
      proof (cases "k = 24")
        case True
        then have "length rs = 1677721600" using "1.prems"(3) by simp
        then have "\<not> length rs * 2 < 2 ^ 31" "\<not> i + length (lines f) < 1677721600" using full ls by simp_all
        moreover from this(1) have "read_loop atof garbage f rs i = None"
          using "1.prems"(1) r full unfolding unfold Let_def by simp
        ultimately show ?thesis by simp
      next
        case False
        then have k: "k + 1 \<le> 24" using "1.prems"(4) by simp
        then have "(2 :: nat) ^ (k + 1) \<le> 2 ^ 24" by (intro power_increasing) simp_all
        then have "length rs * 2 < 2 ^ 31" using "1.prems"(3) by simp
        then have step: "read_loop atof garbage f rs i = read_loop atof garbage f' ?rs (i + 1)"
          using "1.prems"(1) r full by (simp add: unfold Let_def)
        have "i + 1 < length ?rs" "\<forall>j<length ?rs. i + 1 \<le> j \<longrightarrow> ?rs ! j = garbage" "length ?rs = 100 * 2 ^ (k + 1)"
          using "1.prems" full by (auto simp: nth_append)
        moreover have "take (i + 1) ?rs = take i rs @ [?r]"
          using pre "1.prems"(1) by (simp only: take_append length_list_update) simp
        ultimately show ?thesis using "1.IH" [OF p refl _ _ _ k, of "i + 1" ?rs] by (auto simp: step ls)
      qed
    qed
  qed
qed

text \<open>The array that is returned has at least one element behind the records.\<close>

lemma read_records_array:
  fixes garbage :: "'d place"
  assumes "f = [] \<or> fst (split_line f) = header" and "length (lines (snd (split_line f))) < 1677721600"
  defines "ls \<equiv> lines (snd (split_line f))" and "g \<equiv> garbage\<lparr>set_columns := 0\<rparr>"
  shows "\<exists>rs. read_records atof garbage (Some f) = Array rs (length ls) \<and> take (length ls) rs = map (parse atof garbage) ls \<and>
    length ls < length rs \<and> rs ! length ls = g"
proof -
  have "parse atof g = parse atof garbage" by (rule ext) (simp add: parse_def g_def)
  then have loop: "\<exists>rs. read_loop atof g f' (replicate 100 g) 0 = Some (rs, length (lines f')) \<and>
      take (length (lines f')) rs = map (parse atof garbage) (lines f') \<and>
      length (lines f') < length rs \<and> rs ! length (lines f') = g" if "length (lines f') < 1677721600" for f'
    using read_loop_spec [of 0 "replicate 100 g" g 0 f' atof] that by auto
  have "lines [] = []" by (simp add: lines.simps getline_def)
  then show ?thesis
    using assms(1) loop [of "[]"] loop [OF assms(2)] unfolding ls_def g_def
    by (cases "f = []") (auto simp: read_records_def input_looks_ok_def getline_def split: prod.splits)
qed

lemma read_records_overflow:
  assumes "fst (split_line f) = header" and "\<not> length (lines (snd (split_line f))) < 1677721600"
  shows "read_records atof garbage (Some f) = Out_of_bounds"
proof -
  let ?g = "garbage\<lparr>set_columns := 0\<rparr>"
  have "f \<noteq> []" using assms(1) by (auto simp: header_def)
  moreover have "read_loop atof ?g (snd (split_line f)) (replicate 100 ?g) 0 = None"
    using read_loop_spec [of 0 "replicate 100 ?g" ?g 0 "snd (split_line f)" atof] assms(2) by auto
  ultimately show ?thesis
    using assms(1) by (cases "split_line f") (simp add: read_records_def input_looks_ok_def getline_def)
qed

section \<open>Properties\<close>

text \<open>
  C20: a row of 24 columns fills the record as follows. Every text column goes to its field.
  The numbers are read by \<^verbatim>\<open>atol\<close>, \<^verbatim>\<open>atoi\<close> and \<^verbatim>\<open>atof\<close> from the line at the start of their column on, the
  tab not yet being overwritten; for the identifier and the rank this is the number in the
  column unless the column is blank (then it is what follows). The column \<^verbatim>\<open>south\<close> overwrites
  the field \<^verbatim>\<open>west\<close>, and the field \<^verbatim>\<open>south\<close> and, for want of a tab at the end of the line, the
  field \<^verbatim>\<open>housenumbers\<close> are never set.
\<close>

theorem record_columns:
  assumes "length ts = 23" and "\<forall>t \<in> set (t0 # ts). column_ok t"
  shows "\<exists>r'. read_record atof r (row ts t0 @ nl # f) = Some (r', f) \<and> p_line r' = row ts t0 @ [nl] \<and>
    name r' = ts ! 0 \<and> alternative_names r' = ts ! 1 \<and> osm_type r' = ts ! 2 \<and>
    osm_id r' = atol (row (drop 3 ts) (t0 @ [nl])) \<and> (\<not> blank_column (ts ! 3) \<longrightarrow> osm_id r' = atol (ts ! 3)) \<and>
    p_class r' = ts ! 4 \<and> p_type r' = ts ! 5 \<and>
    lon r' = atof (row (drop 6 ts) (t0 @ [nl])) \<and> lat r' = atof (row (drop 7 ts) (t0 @ [nl])) \<and>
    place_rank r' = atoi (row (drop 8 ts) (t0 @ [nl])) \<and> (\<not> blank_column (ts ! 8) \<longrightarrow> place_rank r' = atoi (ts ! 8)) \<and>
    importance r' = atof (row (drop 9 ts) (t0 @ [nl])) \<and>
    street r' = ts ! 10 \<and> city r' = ts ! 11 \<and> county r' = ts ! 12 \<and> state r' = ts ! 13 \<and>
    country r' = ts ! 14 \<and> country_code r' = ts ! 15 \<and> display_name r' = ts ! 16 \<and>
    west r' = atof (row (drop 18 ts) (t0 @ [nl])) \<and> south r' = south r \<and>
    east r' = atof (row (drop 19 ts) (t0 @ [nl])) \<and> north r' = atof (row (drop 20 ts) (t0 @ [nl])) \<and>
    wikidata r' = ts ! 21 \<and> wikipedia r' = ts ! 22 \<and> housenumbers r' = housenumbers r \<and> set_columns r' = 23"
proof -
  obtain a0 a1 a2 a3 a4 a5 a6 a7 a8 a9 a10 a11 a12 a13 a14 a15 a16 a17 a18 a19 a20 a21 a22 where
    ts: "ts = [a0, a1, a2, a3, a4, a5, a6, a7, a8, a9, a10, a11, a12, a13, a14, a15, a16, a17, a18, a19, a20, a21, a22]"
    using assms(1) by (auto simp: numeral_eq_Suc length_Suc_conv)
  show ?thesis
    unfolding read_record_row [OF assms, of atof r f] option.inject prod.inject
    by (rule exI, rule conjI, rule conjI, rule refl, rule refl)
      (simp add: ts stores_def atol_def atoi_def strtol_column)
qed

text \<open>An empty record, with a parameter that counts the digits of a number.\<close>

definition blank_place :: "nat place" where
  "blank_place = \<lparr>name = [], alternative_names = [], osm_type = [], osm_id = 0, p_class = [], p_type = [],
     lon = 0, lat = 0, place_rank = 0, importance = 0, street = [], city = [], county = [], state = [],
     country = [], country_code = [], display_name = [], west = 0, south = 77, east = 0, north = 0,
     wikidata = [], wikipedia = [], housenumbers = [], p_line = [], set_columns = 0\<rparr>"

definition digits :: "string \<Rightarrow> nat" where
  "digits s = length (takeWhile is_digit s)"

text \<open>The columns hold the numbers 0 to 22.\<close>

abbreviation numbered :: "string list" where
  "numbered \<equiv> [''0'', ''1'', ''2'', ''3'', ''4'', ''5'', ''6'', ''7'', ''8'', ''9'', ''10'', ''11'',
     ''12'', ''13'', ''14'', ''15'', ''16'', ''17'', ''18'', ''19'', ''20'', ''21'', ''22'']"

theorem record_columns_witness:
  "\<exists>r'. read_record digits blank_place (row numbered ''23'' @ nl # []) = Some (r', []) \<and>
    name r' = ''0'' \<and> osm_id r' = 3 \<and> lon r' = 1 \<and> place_rank r' = 8 \<and> street r' = ''10'' \<and> city r' = ''11'' \<and>
    country_code r' = ''15'' \<and> west r' = 2 \<and> south r' = 77 \<and> wikidata r' = ''21'' \<and> housenumbers r' = []"
proof -
  have "length numbered = 23" "\<forall>t \<in> set (''23'' # numbered). column_ok t" by (simp_all add: column_ok_def)
  from record_columns [OF this, of digits blank_place "[]"] obtain r' where
    r: "read_record digits blank_place (row numbered ''23'' @ nl # []) = Some (r', [])"
    "name r' = numbered ! 0" "\<not> blank_column (numbered ! 3) \<longrightarrow> osm_id r' = atol (numbered ! 3)"
    "lon r' = digits (row (drop 6 numbered) (''23'' @ [nl]))"
    "\<not> blank_column (numbered ! 8) \<longrightarrow> place_rank r' = atoi (numbered ! 8)"
    "street r' = numbered ! 10" "city r' = numbered ! 11" "country_code r' = numbered ! 15"
    "west r' = digits (row (drop 18 numbered) (''23'' @ [nl]))" "south r' = south blank_place"
    "wikidata r' = numbered ! 21" "housenumbers r' = housenumbers blank_place"
    by blast
  have "osm_id r' = 3" "place_rank r' = 8"
    using r(3,5) by (simp_all add: blank_column_def is_space_def atol_def atoi_def strtol_def is_digit_def)
  moreover have "lon r' = 1" "west r' = 2" using r(4,9) by (simp_all add: digits_def is_digit_def)
  moreover have "south r' = 77" "housenumbers r' = []" using r(10,12) by (simp_all add: blank_place_def)
  ultimately show ?thesis using r(1,2,6,7,8,11) by (intro exI [of _ r']) simp
qed

text \<open>
  C21: \<^verbatim>\<open>read_records\<close> returns one record per line after the header, in order, and never
  writes outside the growing array, for every file of fewer than 1677721600 such lines;
  with that many the \<^verbatim>\<open>int\<close> that holds the capacity overflows. A file with another first line
  gives the null pointer, but an empty file is accepted with no records.
\<close>

theorem read_records_all_lines:
  "if f \<noteq> [] \<and> fst (split_line f) \<noteq> header then read_records atof garbage (Some f) = Null_pointer
   else if length (lines (snd (split_line f))) < 1677721600
   then \<exists>rs. read_records atof garbage (Some f) = Array rs (length (lines (snd (split_line f)))) \<and>
     take (length (lines (snd (split_line f)))) rs = map (parse atof garbage) (lines (snd (split_line f)))
   else read_records atof garbage (Some f) = Out_of_bounds"
proof -
  have "lines [] = []" by (simp add: lines.simps getline_def)
  then show ?thesis
    using read_records_array [of f atof garbage] read_records_overflow [of f atof garbage]
    by (cases "f = []") (auto simp: read_records_def input_looks_ok_def getline_def split: prod.splits)
qed

end
