(* ===== verification/Job_Programs.thy ===== *)
theory Job_Programs
  imports Job_Activities Histogram Records Tiny_Lib
begin

text \<open>
  What the programs of \<^verbatim>\<open>A2\<close> do around the job queue: \<^verbatim>\<open>fauxgrep.c\<close> and \<^verbatim>\<open>fauxgrep-mt.c\<close>, which
  print the lines of files in which a text occurs, \<^verbatim>\<open>fibs.c\<close>, which prints a Fibonacci number
  for each line, and \<^verbatim>\<open>fhistogram-mt.c\<close>. The walk through the directories is the list of its
  entries, the files are a map from paths to contents; \<open>None\<close> is the end of the program with
  an error message. The activity of a worker (\<open>Job_Activities\<close>) is the list of the lines it has
  still to print for its job, the shared state is the output of the program.

  The lemmas show that the output of a finished run is that of the sequential program up to
  the order of the lines, and for which numbers the Fibonacci function overflows.
\<close>

section \<open>Options and the walk\<close>

datatype fts_entry = FTS_D string | FTS_F string | FTS_other string

text \<open>The loop over \<^verbatim>\<open>fts_read\<close>: the files it meets.\<close>

primrec walk :: "fts_entry list \<Rightarrow> string list" where
  "walk [] = []"
| "walk (p # ps) = (case p of FTS_F path \<Rightarrow> path # walk ps | _ \<Rightarrow> walk ps)"

text \<open>\<^verbatim>\<open>atoi\<close> of the thread count, and the checks of it.\<close>

definition thread_count :: "string \<Rightarrow> nat option" where
  "thread_count arg = (let n = sint (atoi arg) in if n < 1 then None else Some (nat n))"

definition fauxgrep_mt_args :: "string list \<Rightarrow> (nat \<times> string \<times> string list) option" where
  "fauxgrep_mt_args argv =
     (if length argv < 2 then None
      else if 3 < length argv \<and> argv ! 1 = ''-n''
      then map_option (\<lambda>n. (n, argv ! 3, drop 4 argv)) (thread_count (argv ! 2))
      else Some (1, argv ! 1, drop 2 argv))"

definition fhistogram_mt_args :: "string list \<Rightarrow> (nat \<times> string list) option" where
  "fhistogram_mt_args argv =
     (if length argv < 2 then None
      else if 3 < length argv \<and> argv ! 1 = ''-n''
      then map_option (\<lambda>n. (n, drop 3 argv)) (thread_count (argv ! 2))
      else Some (1, drop 1 argv))"

definition fibs_args :: "string list \<Rightarrow> nat option" where
  "fibs_args argv = (if length argv = 3 \<and> argv ! 1 = ''-n'' then thread_count (argv ! 2) else Some 1)"

section \<open>Searching a file\<close>

text \<open>Whether \<^verbatim>\<open>strstr(s, needle)\<close> finds something.\<close>

fun strstr :: "string \<Rightarrow> string \<Rightarrow> bool" where
  "strstr [] needle \<longleftrightarrow> needle = []"
| "strstr (c # cs) needle \<longleftrightarrow> take (length needle) (c # cs) = needle \<or> strstr cs needle"

function grep_lines :: "string \<Rightarrow> string \<Rightarrow> cint \<Rightarrow> string \<Rightarrow> string list" where
  "grep_lines needle path lineno f =
     (case getline f of None \<Rightarrow> []
      | Some (line, f) \<Rightarrow>
          (if strstr (c_str line) needle then [path @ '':'' @ print_int lineno @ '': '' @ c_str line] else []) @
          grep_lines needle path (lineno + 1) f)"
  by pat_completeness auto
termination by (relation "measure (\<lambda>(_, _, _, f). length f)") (auto simp: getline_shorter)

declare grep_lines.simps [simp del]

definition fauxgrep_file :: "(string \<rightharpoonup> string) \<Rightarrow> string \<Rightarrow> string \<Rightarrow> int \<times> string list" where
  "fauxgrep_file files needle path =
     (case files path of None \<Rightarrow> (- 1, []) | Some f \<Rightarrow> (0, grep_lines needle path 1 f))"

text \<open>\<^verbatim>\<open>main\<close> of \<^verbatim>\<open>fauxgrep.c\<close>; \<open>fts_open\<close> gives the entries below the paths.\<close>

definition fauxgrep_main ::
    "(string list \<Rightarrow> fts_entry list option) \<Rightarrow> (string \<rightharpoonup> string) \<Rightarrow> string list \<Rightarrow> string list option" where
  "fauxgrep_main fts_open files argv =
     (if length argv < 2 then None
      else map_option (\<lambda>ps. concat (map (\<lambda>path. snd (fauxgrep_file files (argv ! 1) path)) (walk ps)))
        (fts_open (drop 2 argv)))"

section \<open>Fibonacci numbers and histograms\<close>

text \<open>The sum of two \<^verbatim>\<open>int\<close>s is undefined if it overflows.\<close>

function fib :: "int \<Rightarrow> int option" where
  "fib n =
     (if n < 2 then Some 1
      else Option.bind (fib (n - 1)) (\<lambda>a. Option.bind (fib (n - 2)) (\<lambda>b.
        if a + b < 2 ^ 31 then Some (a + b) else None)))"
  by pat_completeness auto
termination by (relation "measure nat") auto

declare fib.simps [simp del]

definition fib_line :: "string \<Rightarrow> string option" where
  "fib_line line =
     (let n = atoi line
      in map_option (\<lambda>fibn. ''fib('' @ print_int n @ '') = '' @ print_int (word_of_int fibn) @ [nl]) (fib (sint n)))"

text \<open>The jobs of \<^verbatim>\<open>fibs\<close>: a copy of every line of the standard input.\<close>

definition fibs_jobs :: "string \<Rightarrow> string list" where
  "fibs_jobs input = map c_str (lines input)"

text \<open>\<^verbatim>\<open>fhistogram\<close> of \<^verbatim>\<open>fhistogram-mt.c\<close> when no two threads are in it at the same time.\<close>

definition fhistogram_mt :: "byte list option \<Rightarrow> cint list \<Rightarrow> int \<times> cint list" where
  "fhistogram_mt file global = fhistogram 200000 file global"

section \<open>Threads that print\<close>

text \<open>
  \<open>prints\<close> are the lines of a job; \<^verbatim>\<open>printf\<close> locks its stream, so each is printed at once.
\<close>

definition print_line :: "string list \<Rightarrow> string list \<Rightarrow> string list \<times> string list" where
  "print_line log ls = (log @ [hd ls], tl ls)"

type_synonym 'a printer = "('a, string list, string list) work"

definition print_step :: "('a \<Rightarrow> string list) \<Rightarrow> 'a printer \<Rightarrow> 'a printer \<Rightarrow> bool" where
  "print_step prints = work_step prints print_line (\<lambda>ls. ls = [])"

definition printing :: "('a \<Rightarrow> string list) \<Rightarrow> nat \<Rightarrow> nat \<Rightarrow> 'a list \<Rightarrow> 'a printer \<Rightarrow> bool" where
  "printing prints = working prints print_line (\<lambda>ls. ls = []) [] []"

lemma printing_init: "printing prints c n js (init_sys c n js, replicate n [], [])"
  unfolding printing_def by (rule working.init)

interpretation line_by_line: shrinking_activity print_line "\<lambda>ls. ls = []" length
  by unfold_locales (auto simp: print_line_def)

lemma printing_ends:
  assumes "printing prints c n js (s, pend, log)" and "0 < c" "0 < n" and "prod s \<noteq> P_Done"
  shows "\<exists>s' pend' log'. (print_step prints)\<^sup>*\<^sup>* (s, pend, log) (s', pend', log') \<and>
    printing prints c n js (s', pend', log') \<and> all_done s'"
  using line_by_line.working_ends [OF assms(1) [unfolded printing_def] refl assms(2-4)]
  by (simp add: print_step_def printing_def)

lemma printing_stuck:
  assumes "printing prints c n js (s, pend, log)" and "0 < c" "0 < n" and "\<nexists>w. print_step prints (s, pend, log) w"
  shows "all_done s \<or> broken s"
  using work_stuck [OF assms(1) [unfolded printing_def] assms(2,3)] assms(4) by (simp add: print_step_def)

text \<open>No line is lost: the output and what is still to be printed are the lines of the jobs taken.\<close>

lemma mset_concat_update:
  "i < length pend \<Longrightarrow> mset (concat (pend[i := ls])) + mset (pend ! i) = mset (concat pend) + mset ls"
proof (induction pend arbitrary: i)
  case (Cons p pend)
  then show ?case by (cases i) (auto simp: ac_simps)
qed simp

lemma lines_inv_printing:
  assumes "printing prints c n js w"
  shows "work_inv (\<lambda>ls. ls = []) (\<lambda>pend log ds. mset log + mset (concat pend) = mset (concat (map prints ds))) w"
  using assms unfolding printing_def
proof (rule work_inv_working)
  have "concat (replicate n []) = ([] :: string list)" by (induction n) simp_all
  then show "mset [] + mset (concat (replicate n [])) = mset (concat (map prints []))" by simp
next
  fix pend log ds d i
  assume "mset log + mset (concat pend) = mset (concat (map prints ds))" "i < length pend" "pend ! i = ([] :: string list)"
  then show "mset log + mset (concat (pend[i := prints d])) = mset (concat (map prints (ds @ [d])))"
    using mset_concat_update [of i pend "prints d"] by (simp add: ac_simps)
next
  fix pend log ds i log' ls
  assume a: "mset log + mset (concat pend) = mset (concat (map prints ds))" "i < length pend" "pend ! i \<noteq> []"
    "print_line log (pend ! i) = (log', ls)"
  then have p: "log' = log @ [hd (pend ! i)]" "mset (pend ! i) = add_mset (hd (pend ! i)) (mset ls)"
    by (auto simp: print_line_def simp flip: mset.simps(2))
  have "mset log' + mset (concat (pend[i := ls])) = mset log + mset (concat pend)"
    using mset_concat_update [OF a(2), of ls] p by simp
  then show "mset log' + mset (concat (pend[i := ls])) = mset (concat (map prints ds))" using a(1) by simp
qed simp

lemma all_done_output:
  assumes "printing prints c n js (s, pend, log)" and "0 < c" and "all_done s"
  shows "mset log = mset (concat (map prints js))"
proof -
  note d = work_done [OF lines_inv_printing [OF assms(1)] assms(1) [unfolded printing_def] assms(2,3)]
  have e: "concat pend = []" using d(2) by (simp add: list_all_iff)
  show ?thesis using d(1) unfolding e by simp
qed

text \<open>Whatever was printed before is a part of it.\<close>

lemma printed_lines:
  assumes "printing prints c n js (s, pend, log)" and "0 < c"
  shows "mset log \<subseteq># mset (concat (map prints js))"
proof -
  have "popped s @ jobs (queue s) @ todo s = js"
    using sys_inv_reachable [OF working_reachable [OF assms(1) [unfolded printing_def]] assms(2)] by (simp add: sys_inv_def)
  then have "mset (concat (map prints (popped s))) \<subseteq># mset (concat (map prints js))" by auto
  moreover have "mset log \<subseteq># mset (concat (map prints (popped s)))"
    using lines_inv_printing [OF assms(1)] by (auto simp: work_inv_def dest: sym)
  ultimately show ?thesis by (rule subset_mset.order_trans [rotated])
qed

section \<open>Overflow of the Fibonacci function\<close>

lemma fibonacci_pair_jump: "fibonacci_pair n = (a, b) \<Longrightarrow> fibonacci_pair (n + 5) = (3 * a + 5 * b, 5 * a + 8 * b)"
  by (simp add: numeral_eq_Suc)

lemma fibonacci_46: "fibonacci 45 = 1134903170" "fibonacci 46 = 1836311903"
proof -
  note j = fibonacci_pair_jump
  have "fibonacci_pair 25 = (75025, 121393)"
    using j [OF j [OF j [OF j [OF j [OF fibonacci_pair.simps(1)]]]]] by simp
  from j [OF j [OF j [OF j [OF this]]]] have "fibonacci_pair 45 = (1134903170, 1836311903)" by simp
  then show "fibonacci 45 = 1134903170" "fibonacci 46 = 1836311903" by (simp_all add: fibonacci_pair)
qed

lemma fib_value: "n \<le> 45 \<Longrightarrow> fib (int n) = Some (int (fibonacci (Suc n)))"
proof (induction n rule: fibonacci.induct)
  case (3 n)
  have "fibonacci (Suc (Suc (Suc n))) \<le> fibonacci 46" using "3.prems" by (intro fibonacci_mono) simp
  then have "fibonacci (Suc (Suc n)) + fibonacci (Suc n) < 2 ^ 31" by (simp add: fibonacci_46)
  then have "int (fibonacci (Suc (Suc n)) + fibonacci (Suc n)) < int (2 ^ 31)" by (rule of_nat_less_iff [THEN iffD2])
  then have "int (fibonacci (Suc (Suc n))) + int (fibonacci (Suc n)) < 2 ^ 31" by simp
  moreover have "int (Suc (Suc n)) - 1 = int (Suc n)" "int (Suc (Suc n)) - 2 = int n" by simp_all
  moreover have "fib (int (Suc n)) = Some (int (fibonacci (Suc (Suc n))))" "fib (int n) = Some (int (fibonacci (Suc n)))"
    using 3 by simp_all
  moreover have "\<not> int (Suc (Suc n)) < 2" by simp
  ultimately show ?case
    unfolding fib.simps [of "int (Suc (Suc n))"] by (simp only: if_False if_True bind.bind_lunit) simp
qed (simp_all add: fib.simps)

lemma fib_overflow: "46 \<le> n \<Longrightarrow> fib (int n) = None"
proof (induction n rule: nat_induct_at_least)
  case base
  have "fib 45 = Some (int (fibonacci (Suc 45)))" "fib 44 = Some (int (fibonacci (Suc 44)))"
    using fib_value [of 45] fib_value [of 44] by simp_all
  then show ?case using fibonacci_46 by (subst fib.simps) simp
next
  case (Suc n)
  then show ?case by (subst fib.simps) simp
qed

section \<open>Properties\<close>

text \<open>
  C5: \<^verbatim>\<open>fauxgrep-mt\<close> prints what \<^verbatim>\<open>fauxgrep\<close> prints: for every accepted command line, in every
  interleaving and with spurious wake-ups, what is printed so far is a part of the output of
  the sequential program for the same text and paths, and the output of a run in which all
  threads ended is a permutation of it. A run only stops when all threads have ended or a
  worker locked the mutex that \<^verbatim>\<open>job_queue_destroy\<close> destroyed, which is undefined (\<open>broken\<close>); as
  long as this mutex is in place a run can still end well.
\<close>

theorem fauxgrep_mt_prints_as_fauxgrep:
  assumes "fauxgrep_mt_args argv = Some (num_threads, needle, paths)"
    and "fts_open paths = Some entries"
    and "printing (\<lambda>path. snd (fauxgrep_file files needle path)) 64 num_threads (walk entries) (s, pend, log)"
  shows "(\<exists>ls. fauxgrep_main fts_open files (prog # needle # paths) = Some ls \<and> mset log \<subseteq># mset ls \<and>
      (all_done s \<longrightarrow> mset log = mset ls)) \<and>
    ((\<nexists>w. print_step (\<lambda>path. snd (fauxgrep_file files needle path)) (s, pend, log) w) \<longrightarrow> all_done s \<or> broken s) \<and>
    (prod s \<noteq> P_Done \<longrightarrow> (\<exists>s' pend' log'.
      (print_step (\<lambda>path. snd (fauxgrep_file files needle path)))\<^sup>*\<^sup>* (s, pend, log) (s', pend', log') \<and> all_done s'))"
proof -
  have n: "0 < num_threads"
    using assms(1) by (auto simp: fauxgrep_mt_args_def thread_count_def Let_def split: if_splits)
  have main: "fauxgrep_main fts_open files (prog # needle # paths) =
      Some (concat (map (\<lambda>path. snd (fauxgrep_file files needle path)) (walk entries)))"
    using assms(2) by (simp add: fauxgrep_main_def)
  show ?thesis
    using all_done_output [OF assms(3)] printed_lines [OF assms(3)] main
      printing_stuck [OF assms(3) _ n] printing_ends [OF assms(3) _ n] by auto
qed

text \<open>Two files, one of which cannot be read, and three threads.\<close>

theorem fauxgrep_mt_prints_as_fauxgrep_witness:
  "\<exists>s pend log. all_done (s :: string sys) \<and>
    printing (\<lambda>path. snd (fauxgrep_file [''a'' \<mapsto> ''xay'' @ [nl] @ ''b'' @ [nl] @ ''ax''] ''a'' path)) 64 3
      (walk [FTS_D ''d'', FTS_F ''a'', FTS_F ''b'']) (s, pend, log) \<and>
    mset log = {#''a:1: xay'' @ [nl], ''a:3: ax''#}"
proof -
  let ?prints = "\<lambda>path. snd (fauxgrep_file [''a'' \<mapsto> ''xay'' @ [nl] @ ''b'' @ [nl] @ ''ax''] ''a'' path)"
  let ?es = "[FTS_D ''d'', FTS_F ''a'', FTS_F ''b'']"
  have args: "fauxgrep_mt_args [''fauxgrep-mt'', ''-n'', ''3'', ''a'', ''d''] = Some (3, ''a'', [''d''])"
    by (simp add: fauxgrep_mt_args_def thread_count_def atoi_def strtol_def is_space_def is_digit_def Let_def)
  have main: "fauxgrep_main (\<lambda>_. Some ?es) [''a'' \<mapsto> ''xay'' @ [nl] @ ''b'' @ [nl] @ ''ax''] (''fauxgrep'' # ''a'' # [''d'']) =
      Some [''a:1: xay'' @ [nl], ''a:3: ax'']"
    by (simp add: fauxgrep_main_def fauxgrep_file_def grep_lines.simps getline_def c_str_def print_int_def print_signed_def
        decimal.simps char_of_def bit_0)
  obtain s pend log where run: "printing ?prints 64 3 (walk ?es) (s, pend, log)" "all_done s"
    using printing_ends [OF printing_init, of 64 3 "walk ?es" ?prints] by (auto simp: init_sys_def)
  have "\<exists>ls. fauxgrep_main (\<lambda>_. Some ?es) [''a'' \<mapsto> ''xay'' @ [nl] @ ''b'' @ [nl] @ ''ax''] (''fauxgrep'' # ''a'' # [''d'']) =
      Some ls \<and> mset log = mset ls"
    using fauxgrep_mt_prints_as_fauxgrep [OF args _ run(1), of "\<lambda>_. Some ?es" "''fauxgrep''"] run(2) by blast
  then have "mset log = mset [''a:1: xay'' @ [nl], ''a:3: ax'']" unfolding main by auto
  then show ?thesis using run by (intro exI conjI) simp_all
qed

text \<open>
  C28: \<^verbatim>\<open>fib\<close> of \<^verbatim>\<open>fibs.c\<close> returns the Fibonacci number, counted from 1, of every number up to 45,
  and overflows the \<^verbatim>\<open>int\<close> for every number above.
\<close>

theorem fibs_overflow:
  "fib (int n) = (if n \<le> 45 then Some (int (fibonacci (n + 1))) else None)"
  using fib_value [of n] fib_overflow [of n] by simp

text \<open>The order in which files are counted, and how often counts are merged, makes no difference.\<close>

lemma histogram_any_order:
  assumes "mset fs = mset files"
  shows "fold (\<lambda>f g. snd (fhistogram_mt f g)) fs (replicate 8 0) = fhistogram_main files"
proof -
  have "mset (contents fs) = mset (contents files)"
    using arg_cong [OF assms, of "\<lambda>M. \<Sum>\<^sub># (image_mset (\<lambda>f. mset (case f of None \<Rightarrow> [] | Some cs \<Rightarrow> cs)) M)"]
    by (simp add: contents_def mset_concat image_mset.compositionality comp_def flip: mset_map sum_mset_sum_list)
  then have "bit_count k (contents fs) = bit_count k (contents files)" for k
    unfolding bit_count_def by (metis mset_filter size_mset)
  then show ?thesis
    using fold_fhistogram [of "replicate 8 0" 200000 fs] fold_fhistogram [of "replicate 8 0" 100000 files]
    by (intro nth_equalityI) (auto simp: fhistogram_mt_def fhistogram_main_def)
qed

end
