(* ===== verification/Histogram_Threads.thy ===== *)
theory Histogram_Threads
  imports Complex_Main Job_Programs
begin

text \<open>
  The programs of the bit histograms as a whole: \<^verbatim>\<open>main\<close> of \<^verbatim>\<open>A2/fhistogram.c\<close>, what
  \<^verbatim>\<open>print_histogram\<close> prints, and the threads of \<^verbatim>\<open>A2/fhistogram-mt.c\<close>. The activity of a
  worker (\<open>Job_Activities\<close>) is its place in \<^verbatim>\<open>fhistogram\<close>, with the local histogram and the bytes it
  has still to read; the shared state is the global histogram. A step of \<^verbatim>\<open>merge_histogram\<close> is a
  load or a store of a global counter, as in \<open>Histogram\<close>. What the threads print on the way is
  not part of the state: it reads the global histogram only.

  The lemmas show by an invariant that the counters never exceed the sequential ones in
  whatever interleaving, that they are equal with one thread, and how a run can end.
\<close>

section \<open>Printing\<close>

definition escape :: char where "escape = CHR 0x1B"

definition move_lines :: "int \<Rightarrow> string" where
  "move_lines n = (if n < 0 then escape # ''['' @ print_signed (- n) @ ''A'' else escape # ''['' @ print_signed n @ ''B'')"

definition clear_line :: string where "clear_line = escape # ''[K''"

text \<open>
  The loop that prints the stars: \<open>below i\<close> is the value of \<^verbatim>\<open>i < 60*proportion\<close>. \<open>None\<close> is an
  overflow of \<^verbatim>\<open>i\<close>.
\<close>

function stars :: "(nat \<Rightarrow> bool) \<Rightarrow> nat \<Rightarrow> string option" where
  "stars below i =
     (if \<not> below i then Some []
      else if i + 1 < 2 ^ 31 then map_option (\<lambda>s. CHR ''*'' # s) (stars below (i + 1)) else None)"
  by pat_completeness auto
termination by (relation "measure (\<lambda>(below, i). 2 ^ 31 - i)") auto

declare stars.simps [simp del]

text \<open>\<open>proportion h seen\<close> is \<^verbatim>\<open>h / (double)seen\<close>, \<open>below i p\<close> is \<^verbatim>\<open>i < 60*p\<close>.\<close>

primrec print_bars :: "(cint \<Rightarrow> 64 word \<Rightarrow> 'd) \<Rightarrow> (nat \<Rightarrow> 'd \<Rightarrow> bool) \<Rightarrow> 64 word \<Rightarrow> cint list \<Rightarrow> nat list \<Rightarrow> string option" where
  "print_bars proportion below bits_seen histogram [] = Some []"
| "print_bars proportion below bits_seen histogram (i # is) =
     Option.bind (stars (\<lambda>j. below j (proportion (histogram ! i) bits_seen)) 0) (\<lambda>bar.
     Option.bind (print_bars proportion below bits_seen histogram is) (\<lambda>bars.
     Some (clear_line @ ''Bit '' @ print_signed (int i) @ '': '' @ bar @ [nl] @ bars)))"

definition print_histogram :: "(cint \<Rightarrow> 64 word \<Rightarrow> 'd) \<Rightarrow> (nat \<Rightarrow> 'd \<Rightarrow> bool) \<Rightarrow> cint list \<Rightarrow> string option" where
  "print_histogram proportion below histogram =
     (let bits_seen = fold (\<lambda>i n. n + scast (histogram ! i)) [0..<8] 0
      in map_option (\<lambda>bars. bars @ clear_line @ print_signed (sint bits_seen) @ '' bits processed.'' @ [nl] @ move_lines (- 9))
        (print_bars proportion below bits_seen histogram [0..<8]))"

section \<open>The programs\<close>

text \<open>The histogram at the end of \<^verbatim>\<open>main\<close> of \<^verbatim>\<open>fhistogram.c\<close>; \<open>None\<close> is the end with an error message.\<close>

definition fhistogram_program ::
    "(string list \<Rightarrow> fts_entry list option) \<Rightarrow> (string \<rightharpoonup> byte list) \<Rightarrow> string list \<Rightarrow> cint list option" where
  "fhistogram_program fts_open files argv =
     (if length argv < 2 then None
      else map_option (\<lambda>ps. fhistogram_main (map files (walk ps))) (fts_open (drop 1 argv)))"

text \<open>
  A worker outside \<^verbatim>\<open>fhistogram\<close>, in its loop (\<open>Count\<close>: the bytes left, \<^verbatim>\<open>i\<close> and the local histogram),
  or in a merge, which may be the last one.
\<close>

datatype activity = Outside | Count "byte list" cint "cint list" | Merge "byte list" cint "cint list" merging bool

definition begin_file :: "(string \<rightharpoonup> byte list) \<Rightarrow> string \<Rightarrow> activity" where
  "begin_file files path = (case files path of None \<Rightarrow> Outside | Some cs \<Rightarrow> Count cs 0 (replicate 8 0))"

fun count_act :: "cint list \<Rightarrow> activity \<Rightarrow> cint list \<times> activity" where
  "count_act global Outside = (global, Outside)"
| "count_act global (Count [] i local) = (global, Merge [] i local (At 0) True)"
| "count_act global (Count (c # cs) i local) =
     (let i = i + 1; local = update_histogram local c
      in (global, if sint i smod 200000 = 0 then Merge cs i local (At 0) False else Count cs i local))"
| "count_act global (Merge cs i local (At k) final) =
     (global, if k < 8 then Merge cs i local (Loaded k (global ! k)) final else if final then Outside else Count cs i local)"
| "count_act global (Merge cs i local (Loaded k v) final) =
     (global[k := v + local ! k], Merge cs i (local[k := 0]) (At (k + 1)) final)"

type_synonym counter = "(string, activity, cint list) work"

definition count_step :: "(string \<rightharpoonup> byte list) \<Rightarrow> counter \<Rightarrow> counter \<Rightarrow> bool" where
  "count_step files = work_step (begin_file files) count_act (\<lambda>a. a = Outside)"

definition counting :: "(string \<rightharpoonup> byte list) \<Rightarrow> nat \<Rightarrow> nat \<Rightarrow> string list \<Rightarrow> counter \<Rightarrow> bool" where
  "counting files = working (begin_file files) count_act (\<lambda>a. a = Outside) Outside (replicate 8 0)"

section \<open>Every run ends\<close>

fun merge_left :: "merging \<Rightarrow> nat" where
  "merge_left (At k) = 1 + 2 * (8 - k)"
| "merge_left (Loaded k v) = 2 + 2 * (7 - k)"

fun act_left :: "activity \<Rightarrow> nat" where
  "act_left Outside = 0"
| "act_left (Count cs i local) = 40 * length cs + 20"
| "act_left (Merge cs i local m final) = 40 * length cs + (if final then 0 else 20) + merge_left m"

interpretation byte_by_byte: shrinking_activity count_act "\<lambda>a. a = Outside" act_left
proof
  fix a g g' a'
  assume "a \<noteq> Outside" "count_act g a = (g', a')"
  then show "act_left a' < act_left a"
    by (cases "(g, a)" rule: count_act.cases) (auto simp: Let_def split: if_splits)
qed

lemma counting_ends:
  assumes "counting files c n js (s, acts, g)" and "0 < c" "0 < n" and "prod s \<noteq> P_Done"
  shows "\<exists>s' acts' g'. (count_step files)\<^sup>*\<^sup>* (s, acts, g) (s', acts', g') \<and>
    counting files c n js (s', acts', g') \<and> all_done s'"
  using byte_by_byte.working_ends [OF assms(1) [unfolded counting_def] refl assms(2-4)]
  by (simp add: count_step_def counting_def)

lemma counting_stuck:
  assumes "counting files c n js (s, acts, g)" and "0 < c" "0 < n" and "\<nexists>w. count_step files (s, acts, g) w"
  shows "all_done s \<or> broken s"
  using work_stuck [OF assms(1) [unfolded counting_def] assms(2,3)] assms(4) by (simp add: count_step_def)

lemma counting_init: "counting files c n js (init_sys c n js, replicate n Outside, replicate 8 0)"
  unfolding counting_def by (rule working.init)

section \<open>Counts\<close>

text \<open>How many bytes have bit \<open>k\<close> set, in a list, in the files of some jobs, and as a worker has them.\<close>

definition ones :: "nat \<Rightarrow> byte list \<Rightarrow> nat" where
  "ones k cs = length (filter (\<lambda>c. bit c k) cs)"

lemma ones_simps [simp]: "ones k [] = 0" "ones k (c # cs) = of_bool (bit c k) + ones k cs" "ones k (cs @ ds) = ones k cs + ones k ds"
  by (simp_all add: ones_def)

definition file_total :: "(string \<rightharpoonup> byte list) \<Rightarrow> nat \<Rightarrow> string list \<Rightarrow> nat" where
  "file_total files k ds = ones k (contents (map files ds))"

fun held :: "nat \<Rightarrow> activity \<Rightarrow> nat" where
  "held k Outside = 0"
| "held k (Count cs i local) = unat (local ! k) + ones k cs"
| "held k (Merge cs i local m final) = unat (local ! k) + ones k cs"

fun loaded :: "nat \<Rightarrow> activity \<Rightarrow> cint option" where
  "loaded k (Merge cs i local (Loaded j v) final) = (if j = k then Some v else None)"
| "loaded k a = None"

text \<open>The merge has cleared the counters before its place, and the last one comes at the end of the file.\<close>

fun act_ok :: "activity \<Rightarrow> bool" where
  "act_ok Outside \<longleftrightarrow> True"
| "act_ok (Count cs i local) \<longleftrightarrow> length local = 8"
| "act_ok (Merge cs i local (At k) final) \<longleftrightarrow>
     length local = 8 \<and> (final \<longrightarrow> cs = []) \<and> k \<le> 8 \<and> (\<forall>j<k. local ! j = 0)"
| "act_ok (Merge cs i local (Loaded k v) final) \<longleftrightarrow>
     length local = 8 \<and> (final \<longrightarrow> cs = []) \<and> k < 8 \<and> (\<forall>j<k. local ! j = 0)"

text \<open>
  With one thread a global counter and what the thread holds are the bits of the files
  taken; with more they are at most that, and the same for a counter that was loaded and
  may be stale.
\<close>

definition bounded :: "'c list \<Rightarrow> nat \<Rightarrow> nat \<Rightarrow> bool" where
  "bounded acts x t \<longleftrightarrow> x \<le> t \<and> (length acts = 1 \<longrightarrow> x = t)"

definition counts_ok :: "(string \<rightharpoonup> byte list) \<Rightarrow> nat \<Rightarrow> activity list \<Rightarrow> cint list \<Rightarrow> string list \<Rightarrow> bool" where
  "counts_ok files k acts g ds \<longleftrightarrow>
     length g = 8 \<and> list_all act_ok acts \<and>
     (file_total files k ds < 2 ^ 32 \<longrightarrow>
       bounded acts (unat (g ! k) + sum_list (map (held k) acts)) (file_total files k ds) \<and>
       (\<forall>j<length acts. \<forall>v. loaded k (acts ! j) = Some v \<longrightarrow>
         bounded acts (unat v + sum_list (map (held k) acts)) (file_total files k ds)))"

lemma held_update:
  "i < length acts \<Longrightarrow> sum_list (map (held k) (acts[i := a])) + held k (acts ! i) = sum_list (map (held k) acts) + held k a"
  using elem_le_sum_list [of i "map (held k) acts"] by (simp add: map_update sum_list_update)

lemma held_le: "i < length acts \<Longrightarrow> held k (acts ! i) \<le> sum_list (map (held k) acts)"
  using elem_le_sum_list [of i "map (held k) acts"] by simp

text \<open>A step that leaves the counter and what the thread holds as they are, and loads at most the counter.\<close>

lemma list_all_update: "list_all P xs \<Longrightarrow> P x \<Longrightarrow> list_all P (xs[i := x])"
  by (auto simp: list_all_iff dest!: set_update_subset_insert [THEN subsetD])

lemma counts_ok_same:
  assumes "counts_ok files k acts g ds" and "i < length acts" and "act_ok a"
    and "file_total files k ds < 2 ^ 32 \<Longrightarrow> held k a = held k (acts ! i)"
    and "\<And>v. loaded k a = Some v \<Longrightarrow> v = g ! k"
  shows "counts_ok files k (acts[i := a]) g ds"
proof -
  have "file_total files k ds < 2 ^ 32 \<Longrightarrow> sum_list (map (held k) (acts[i := a])) = sum_list (map (held k) acts)"
    using held_update [OF assms(2), of k a] assms(4) by simp
  then show ?thesis
    using assms(1,2,3,5) by (auto simp: counts_ok_def bounded_def nth_list_update list_all_update)
qed

lemma held_total:
  assumes "counts_ok files k acts g ds" and "i < length acts" and "file_total files k ds < 2 ^ 32"
  shows "held k (acts ! i) \<le> file_total files k ds"
  using held_le [OF assms(2), of k] assms(1,3) by (auto simp: counts_ok_def bounded_def)

lemma counts_ok_start:
  assumes "counts_ok files k acts g ds" and "i < length acts" and "acts ! i = Outside" and "k < 8"
  shows "counts_ok files k (acts[i := begin_file files d]) g (ds @ [d])"
proof -
  let ?a = "begin_file files d"
  have a: "act_ok ?a" "loaded k ?a = None" "file_total files k (ds @ [d]) = file_total files k ds + held k ?a"
    using assms(4) by (auto simp: begin_file_def file_total_def contents_def split: option.splits)
  have "sum_list (map (held k) (acts[i := ?a])) = sum_list (map (held k) acts) + held k ?a"
    using held_update [OF assms(2), of k ?a] assms(3) by simp
  then show ?thesis
    using assms(1,2) a by (auto simp: counts_ok_def bounded_def nth_list_update list_all_update)
qed

lemma counts_ok_store:
  assumes ok: "counts_ok files k acts g ds" and i: "i < length acts" and k: "k < 8"
    and a: "acts ! i = Merge cs n l (Loaded j v) final"
  shows "counts_ok files k (acts[i := Merge cs n (l[j := 0]) (At (j + 1)) final]) (g[j := v + l ! j]) ds"
proof -
  let ?a = "Merge cs n (l[j := 0]) (At (j + 1)) final" and ?H = "\<lambda>acts. sum_list (map (held k) acts)"
  have "act_ok (acts ! i)" using ok i by (simp add: counts_ok_def list_all_length)
  then have l: "length l = 8" "j < 8" "act_ok ?a" using a by (auto simp: nth_list_update less_Suc_eq)
  have g: "length g = 8" using ok by (simp add: counts_ok_def)
  show ?thesis
  proof (cases "j = k")
    case False
    then have "held k ?a = held k (acts ! i)" by (simp add: a)
    moreover have "(g[j := v + l ! j]) ! k = g ! k" using False by simp
    ultimately show ?thesis
      using counts_ok_same [OF ok i l(3)] g by (simp add: counts_ok_def)
  next
    case True
    have H: "?H (acts[i := ?a]) + unat (l ! k) = ?H acts"
      using held_update [OF i, of k ?a] l k True by (simp add: a)
    have old: "bounded acts (unat v + ?H acts) (file_total files k ds)" "unat (l ! k) \<le> ?H acts"
      if "file_total files k ds < 2 ^ 32"
      using ok i a True that held_le [OF i, of k] by (auto simp: counts_ok_def)
    have new: "unat (v + l ! k) + ?H (acts[i := ?a]) = unat v + ?H acts" if T: "file_total files k ds < 2 ^ 32"
    proof -
      have "unat v + unat (l ! k) < 2 ^ LENGTH(32)" using old [OF T] T by (simp add: bounded_def)
      then show ?thesis using H by (simp add: unat_add_lem [THEN iffD1])
    qed
    have "bounded (acts[i := ?a]) (unat w + ?H (acts[i := ?a])) (file_total files k ds)"
      if "file_total files k ds < 2 ^ 32" "m < length acts" "loaded k (acts[i := ?a] ! m) = Some w" for m w
    proof -
      have "m \<noteq> i" using that i by auto
      then have "loaded k (acts ! m) = Some w" "length acts \<noteq> 1" using that(2,3) i by auto
      then show ?thesis using ok that(1,2) H by (force simp: counts_ok_def bounded_def)
    qed
    then show ?thesis
      using ok new old g True k l(3) by (auto simp: counts_ok_def list_all_update bounded_def)
  qed
qed

lemma counts_ok_act:
  assumes "counts_ok files k acts g ds" and "i < length acts" and "count_act g (acts ! i) = (g', a)" and "k < 8"
  shows "counts_ok files k (acts[i := a]) g' ds"
proof -
  have ok: "act_ok (acts ! i)" using assms(1,2) by (simp add: counts_ok_def list_all_length)
  show ?thesis
  proof (cases "(g, acts ! i)" rule: count_act.cases)
    case (3 g0 c cs n l)
    have u: "length (update_histogram l c) = 8" "update_histogram l c ! k = l ! k + of_bool (bit c k)"
      using ok 3 assms(4) update_histogram_spec by auto
    have "unat (l ! k + of_bool (bit c k)) = unat (l ! k) + of_bool (bit c k)" if "file_total files k ds < 2 ^ 32"
    proof -
      have "unat (l ! k) + of_bool (bit c k) < 2 ^ LENGTH(32)"
        using held_total [OF assms(1,2) that] 3 that by simp
      then show ?thesis by (cases "bit c k") (simp_all add: unat_add_lem [THEN iffD1])
    qed
    then show ?thesis
      using counts_ok_same [OF assms(1,2), of a] 3 u assms(3) by (auto simp: Let_def split: if_splits)
  next
    case (4 g0 cs n l j final)
    then have "act_ok a" "held k a = held k (acts ! i)" "g' = g"
      using ok assms(3,4) by (auto split: if_splits)
    moreover have "v = g ! k" if "loaded k a = Some v" for v
      using that 4 assms(3) by (auto split: if_splits)
    ultimately show ?thesis using counts_ok_same [OF assms(1,2), of a] by simp
  next
    case (5 g0 cs n l j v final)
    then show ?thesis using counts_ok_store [OF assms(1,2,4), of cs n l j v final] assms(3) by auto
  qed (use counts_ok_same [OF assms(1,2), of a] ok assms(3) in auto)
qed

lemma counts_ok_counting:
  assumes "counting files c n js w" and "k < 8"
  shows "work_inv (\<lambda>a. a = Outside) (counts_ok files k) w"
  using assms(1) unfolding counting_def
proof (rule work_inv_working)
  have "sum_list (map (held k) (replicate n Outside)) = 0" by (induction n) simp_all
  then show "counts_ok files k (replicate n Outside) (replicate 8 0) []"
    using assms(2) by (auto simp: counts_ok_def bounded_def file_total_def contents_def list_all_length)
qed (use counts_ok_start counts_ok_act assms(2) in auto)

lemma unat_bit_count: "ones k cs < 2 ^ 32 \<Longrightarrow> unat (bit_count k cs) = ones k cs"
  by (simp add: bit_count_def ones_def unat_of_nat)

lemma ones_le: "ones k cs \<le> length cs"
  by (simp add: ones_def)

lemma counting_result:
  assumes run: "counting files c n js (s, acts, g)" and "0 < c" and "all_done s"
    and "length (contents (map files js)) < 2 ^ 31" and "k < 8"
  shows "length g = 8" and "unat (g ! k) \<le> unat (fhistogram_main (map files js) ! k)"
    and "n = 1 \<Longrightarrow> g ! k = fhistogram_main (map files js) ! k"
proof -
  note d = work_done [OF counts_ok_counting [OF run assms(5)] run [unfolded counting_def] assms(2,3)]
  have "map (held k) acts = map (\<lambda>_. 0) acts" using d(2) by (auto simp: list_all_iff)
  then have z: "sum_list (map (held k) acts) = 0" by simp
  have T: "file_total files k js < 2 ^ 32"
    using ones_le [of k "contents (map files js)"] assms(4) by (simp add: file_total_def)
  then have b: "bounded acts (unat (g ! k)) (file_total files k js)"
    using d(1) unfolding counts_ok_def z by simp
  have main: "unat (fhistogram_main (map files js) ! k) = file_total files k js"
    using T assms(5) unat_bit_count by (simp add: fhistogram_main_eq file_total_def)
  show "length g = 8" using d(1) by (simp add: counts_ok_def)
  show "unat (g ! k) \<le> unat (fhistogram_main (map files js) ! k)" using b main by (simp add: bounded_def)
  have "length acts = n"
    using working_length [OF run [unfolded counting_def] refl] sys_inv_reachable [OF working_reachable [OF run [unfolded counting_def]] assms(2)]
    by (simp add: sys_inv_def)
  then show "g ! k = fhistogram_main (map files js) ! k" if "n = 1"
    using b main that by (metis bounded_def word_unat_eq_iff)
qed

text \<open>The steps of \<^verbatim>\<open>merge_histogram\<close> are those of \<open>Histogram\<close>.\<close>

lemma merge_step_act:
  assumes "merge_step m m'" and "length (froms m) = length (threads m)"
  shows "\<exists>t < length (threads m). count_act (to_hist m) (Merge cs i (froms m ! t) (threads m ! t) final) =
    (to_hist m', Merge cs i (froms m' ! t) (threads m' ! t) final)"
  using assms by (cases rule: merge_step.cases) auto

section \<open>What is printed\<close>

lemma stars_replicate:
  assumes "\<And>j. j < m \<Longrightarrow> below j" and "\<not> below m" and "m < 2 ^ 31" and "i \<le> m"
  shows "stars below i = Some (replicate (m - i) CHR ''*'')"
  using assms(4)
proof (induction "m - i" arbitrary: i)
  case 0
  then show ?case using assms(2) by (simp add: stars.simps [of below i])
next
  case (Suc d)
  then have i: "i < m" "m - (i + 1) = d" "m - i = Suc d" by simp_all
  have "stars below (i + 1) = Some (replicate (m - (i + 1)) CHR ''*'')" using Suc(1) [of "i + 1"] i by simp
  then show ?case using assms(1) [OF i(1)] assms(3) i by (simp add: stars.simps [of below i])
qed

text \<open>In exact arithmetic a counter gets sixty stars times its share, rounded up.\<close>

lemma stars_exact:
  assumes "0 \<le> h" "h \<le> seen" "0 < seen"
  shows "stars (\<lambda>i. real i < 60 * (h / seen)) 0 = Some (replicate (nat \<lceil>60 * (h / seen)\<rceil>) CHR ''*'')"
proof -
  let ?x = "60 * (h / seen)"
  have "h / seen \<le> 1" using assms by (simp add: divide_le_eq_1)
  moreover have "0 \<le> h / seen" using assms by simp
  ultimately have "0 \<le> ?x" "?x \<le> 60" by linarith+
  then have "\<lceil>?x\<rceil> \<le> 60" by (subst ceiling_le_iff) simp
  then have "nat \<lceil>?x\<rceil> \<le> nat 60" by (rule nat_mono)
  then have "nat \<lceil>?x\<rceil> < 2 ^ 31" by (rule le_less_trans) simp
  moreover have "real j < ?x" if "j < nat \<lceil>?x\<rceil>" for j using that by linarith
  moreover have "\<not> real (nat \<lceil>?x\<rceil>) < ?x" using \<open>0 \<le> ?x\<close> by linarith
  ultimately show ?thesis using stars_replicate [of "nat \<lceil>?x\<rceil>" _ 0] by simp
qed

definition newlines :: "string \<Rightarrow> nat" where
  "newlines t = length (filter (\<lambda>c. c = nl) t)"

lemma newlines_simps [simp]: "newlines [] = 0" "newlines (c # t) = of_bool (c = nl) + newlines t" "newlines (t @ u) = newlines t + newlines u"
  by (simp_all add: newlines_def)

lemma newlines_signed: "newlines (print_signed v) = 0"
proof -
  have "nl \<notin> set (decimal n)" for n
  proof
    assume "nl \<in> set (decimal n)"
    then obtain d :: nat where "d < 10" "nl = char_of (48 + d)" by (auto dest: decimal_digit)
    then have "of_char nl = 48 + d" by simp
    then show False by (simp add: of_char_def)
  qed
  then show ?thesis by (auto simp: print_signed_def newlines_def filter_empty_conv)
qed

lemma newlines_stars: "stars below i = Some t \<Longrightarrow> newlines t = 0"
proof (induction below i arbitrary: t rule: stars.induct)
  case (1 below i)
  then show ?case by (auto simp: stars.simps [of below i] split: if_splits)
qed

lemma newlines_bars: "print_bars p b n h is = Some t \<Longrightarrow> newlines t = length is"
  by (induction "is" arbitrary: t)
    (auto simp: clear_line_def escape_def newlines_signed newlines_stars split: Option.bind_splits)

text \<open>The cursor ends where it started: nine lines down and nine lines up.\<close>

lemma print_histogram_returns:
  "print_histogram p b h = Some t \<Longrightarrow> \<exists>u. t = u @ move_lines (- 9) \<and> newlines u = 9"
  by (auto simp: print_histogram_def Let_def newlines_bars newlines_signed clear_line_def escape_def)

section \<open>Properties\<close>

text \<open>
  C26: for every accepted command line, in every interleaving of the threads' loads and stores
  and with spurious wake-ups, the counters at the end of \<^verbatim>\<open>fhistogram-mt\<close> are at most those of
  \<^verbatim>\<open>fhistogram\<close> for the same paths, and with one thread the same. A run only stops when all
  threads have ended or a worker locked the mutex that \<^verbatim>\<open>job_queue_destroy\<close> destroyed, which is
  undefined (\<open>broken\<close>); as long as this mutex is in place a run can still end well. (Fewer than
  2^31 bytes, so that no counter overflows.)
\<close>

theorem histogram_threads_never_overcount:
  assumes "fhistogram_mt_args argv = Some (num_threads, paths)" and "fts_open paths = Some entries"
    and "counting files 64 num_threads (walk entries) (s, acts, g)"
    and "length (contents (map files (walk entries))) < 2 ^ 31"
  shows "(all_done s \<longrightarrow> (\<exists>h. fhistogram_program fts_open files (prog # paths) = Some h \<and>
      list_all2 (\<lambda>x y. unat x \<le> unat y) g h \<and> (num_threads = 1 \<longrightarrow> g = h))) \<and>
    ((\<nexists>w. count_step files (s, acts, g) w) \<longrightarrow> all_done s \<or> broken s) \<and>
    (prod s \<noteq> P_Done \<longrightarrow> (\<exists>s' acts' g'. (count_step files)\<^sup>*\<^sup>* (s, acts, g) (s', acts', g') \<and> all_done s'))"
proof -
  have n: "0 < num_threads" "paths \<noteq> []"
    using assms(1) by (auto simp: fhistogram_mt_args_def thread_count_def Let_def split: if_splits)
  let ?h = "fhistogram_main (map files (walk entries))"
  have "fhistogram_program fts_open files (prog # paths) = Some ?h"
    using assms(2) n(2) by (cases paths) (simp_all add: fhistogram_program_def)
  moreover have "list_all2 (\<lambda>x y. unat x \<le> unat y) g ?h \<and> (num_threads = 1 \<longrightarrow> g = ?h)" if "all_done s"
  proof -
    note r = counting_result [OF assms(3) _ that assms(4), simplified]
    have len: "length g = 8" "length ?h = 8" using r(1) [of 0] by (simp_all add: fhistogram_main_eq)
    then show ?thesis using r(2,3) by (auto simp: list_all2_conv_all_nth intro!: nth_equalityI)
  qed
  ultimately show ?thesis using counting_ends [OF assms(3) _ n(1)] counting_stuck [OF assms(3) _ n(1)] by auto
qed

text \<open>One thread, two files and a path that cannot be opened.\<close>

theorem histogram_threads_never_overcount_witness:
  "\<exists>s acts g. all_done (s :: string sys) \<and>
    counting [''a'' \<mapsto> [3, 1], ''b'' \<mapsto> [128]] 64 1 (walk [FTS_F ''a'', FTS_F ''c'', FTS_F ''b'']) (s, acts, g) \<and>
    g = [2, 1, 0, 0, 0, 0, 0, 1]"
proof -
  let ?files = "[''a'' \<mapsto> [3, 1], ''b'' \<mapsto> [128]] :: string \<rightharpoonup> byte list"
  let ?es = "[FTS_F ''a'', FTS_F ''c'', FTS_F ''b'']"
  have args: "fhistogram_mt_args [''fhistogram-mt'', ''.''] = Some (1, [''.''])" by (simp add: fhistogram_mt_args_def)
  have c: "contents (map ?files (walk ?es)) = [3, 1, 128]" by (simp add: contents_def)
  have main: "fhistogram_program (\<lambda>_. Some ?es) ?files (''fhistogram'' # [''.'']) = Some [2, 1, 0, 0, 0, 0, 0, 1]"
    by (simp add: fhistogram_program_def fhistogram_main_eq contents_def upt_rec bit_numeral_word_iff)
  obtain s acts g where run: "counting ?files 64 1 (walk ?es) (s, acts, g)" "all_done s"
    using counting_ends [OF counting_init, of 64 1 "walk ?es" ?files] by (auto simp: init_sys_def)
  have "length (contents (map ?files (walk ?es))) < 2 ^ 31" unfolding c by simp
  from histogram_threads_never_overcount [OF args _ run(1) this, of "\<lambda>_. Some ?es" "''fhistogram''"]
  have "g = [2, 1, 0, 0, 0, 0, 0, 1]" using run(2) main by simp
  then show ?thesis using run by blast
qed

end
