(* ===== verification/Id_Query.thy ===== *)
theory Id_Query
  imports Records "HOL-Library.Signed_Division"
begin

text \<open>
  Looking places up by their identifier: \<^verbatim>\<open>A1/id_query_naive.c\<close>, \<^verbatim>\<open>A1/id_query_indexed.c\<close>
  and \<^verbatim>\<open>A1/id_query_binsort.c\<close>, and the query loop of \<^verbatim>\<open>A1/id_query.c\<close>, which takes the
  functions of an index as function pointers. A pointer to a record is its index in the
  array; \<open>Undefined_access\<close> is a read outside the array or of an identifier that was never
  set. \<^verbatim>\<open>qsort\<close> is insertion sort with the given comparison; the C standard fixes neither the
  algorithm nor the order of elements that compare equal, and no theorem rests on either.
  A call with a comparison that is not consistent on the array is undefined, \<open>None\<close>.

  The lemmas show that the three indexes find the same identifiers, under the conditions
  under which binary search works, and what it does when they fail.
\<close>

section \<open>State\<close>

datatype 'r answer = Not_found | Found 'r | Undefined_access

record 'r naive_data =
  nd_rs :: "'r list"
  nd_n :: nat

record 'r index_record =
  ir_osm_id :: "64 word"
  ir_record :: 'r

record 'r indexed_data =
  id_irs :: "'r index_record list"
  id_n :: nat

record 'r binsort_data =
  bd_rs :: "'r list"
  bd_n :: nat

type_synonym 'd places = "'d place list"

section \<open>The naive index\<close>

text \<open>The functions that build an index may be undefined, which this one never is.\<close>

definition mk_naive :: "'d places \<Rightarrow> nat \<Rightarrow> 'd place naive_data option" where
  "mk_naive rs n = Some \<lparr>nd_rs = rs, nd_n = n\<rparr>"

text \<open>\<^verbatim>\<open>for (i = 0; i < n; i++)\<close> with a return inside; \<open>k\<close> iterations are left.\<close>

fun find_from :: "(nat \<Rightarrow> 'r answer) \<Rightarrow> nat \<Rightarrow> nat \<Rightarrow> 'r answer" where
  "find_from get i 0 = Not_found"
| "find_from get i (Suc k) =
     (case get i of Not_found \<Rightarrow> find_from get (i + 1) k | a \<Rightarrow> a)"

definition lookup_naive :: "'d place naive_data \<Rightarrow> 64 word \<Rightarrow> 'd place answer" where
  "lookup_naive data needle =
     (if length (nd_rs data) < nd_n data then Undefined_access
      else find_from (\<lambda>i. if \<not> has_id (nd_rs data ! i) then Undefined_access
               else if osm_id (nd_rs data ! i) = needle then Found (nd_rs data ! i) else Not_found)
             0 (nd_n data))"

section \<open>The index of identifiers\<close>

definition mk_indexed :: "'d places \<Rightarrow> nat \<Rightarrow> 'd place indexed_data option" where
  "mk_indexed rs n =
     (if length rs < n then None
      else Some \<lparr>id_irs = map (\<lambda>i. \<lparr>ir_osm_id = osm_id (rs ! i), ir_record = rs ! i\<rparr>) [0..<n], id_n = n\<rparr>)"

definition lookup_indexed :: "'d place indexed_data \<Rightarrow> 64 word \<Rightarrow> 'd place answer" where
  "lookup_indexed data needle =
     (if length (id_irs data) < id_n data then Undefined_access
      else find_from (\<lambda>i. if \<not> has_id (ir_record (id_irs data ! i)) then Undefined_access
               else if ir_osm_id (id_irs data ! i) = needle then Found (ir_record (id_irs data ! i)) else Not_found)
             0 (id_n data))"

section \<open>Binary search\<close>

text \<open>The difference of two 64-bit identifiers, converted to \<^verbatim>\<open>int\<close>.\<close>

definition comp :: "'d place \<Rightarrow> 'd place \<Rightarrow> cint" where
  "comp p q = ucast (osm_id p - osm_id q)"

primrec insert_by :: "('r \<Rightarrow> 'r \<Rightarrow> cint) \<Rightarrow> 'r \<Rightarrow> 'r list \<Rightarrow> 'r list" where
  "insert_by cmp x [] = [x]"
| "insert_by cmp x (y # ys) = (if sint (cmp x y) \<le> 0 then x # y # ys else y # insert_by cmp x ys)"

primrec qsort :: "('r \<Rightarrow> 'r \<Rightarrow> cint) \<Rightarrow> 'r list \<Rightarrow> 'r list" where
  "qsort cmp [] = []"
| "qsort cmp (x # xs) = insert_by cmp x (qsort cmp xs)"

text \<open>
  What the C standard demands of the comparison: the elements are in one total preorder,
  and the results for a pair and its reverse agree.
\<close>

definition consistent :: "('r \<Rightarrow> 'r \<Rightarrow> cint) \<Rightarrow> 'r set \<Rightarrow> bool" where
  "consistent cmp S \<longleftrightarrow> (\<forall>p \<in> S. \<forall>q \<in> S. sgn (sint (cmp p q)) = - sgn (sint (cmp q p))) \<and>
     (\<forall>p \<in> S. \<forall>q \<in> S. \<forall>r \<in> S. sint (cmp p q) \<le> 0 \<longrightarrow> sint (cmp q r) \<le> 0 \<longrightarrow> sint (cmp p r) \<le> 0)"

text \<open>
  A call of \<^verbatim>\<open>qsort\<close> with a comparison that may be undefined; one element is not compared.
\<close>

definition sortable :: "('r \<Rightarrow> 'r \<Rightarrow> cint option) \<Rightarrow> 'r set \<Rightarrow> bool" where
  "sortable cmp S \<longleftrightarrow> (\<forall>p \<in> S. \<forall>q \<in> S. cmp p q \<noteq> None) \<and> consistent (\<lambda>p q. the (cmp p q)) S"

type_synonym 'r qsort_fn = "('r \<Rightarrow> 'r \<Rightarrow> cint) \<Rightarrow> 'r list \<Rightarrow> 'r list"

definition qsort_call :: "'r qsort_fn \<Rightarrow> ('r \<Rightarrow> 'r \<Rightarrow> cint option) \<Rightarrow> 'r list \<Rightarrow> 'r list option" where
  "qsort_call qs cmp xs =
     (if length xs < 2 then Some xs
      else if sortable cmp (set xs) then Some (qs (\<lambda>p q. the (cmp p q)) xs)
      else None)"

definition mk_binsort :: "'d places \<Rightarrow> nat \<Rightarrow> 'd place binsort_data option" where
  "mk_binsort rs n =
     map_option (\<lambda>sorted. \<lparr>bd_rs = sorted @ drop n rs, bd_n = n\<rparr>)
       (qsort_call qsort (\<lambda>p q. if has_id p \<and> has_id q then Some (comp p q) else None) (take n rs))"

text \<open>
  The loop of \<^verbatim>\<open>lookup_binsort\<close>. Its condition reads the middle element before the test
  for an empty interval; \<^verbatim>\<open>/\<close> truncates towards zero.
\<close>

function binsearch :: "'d places \<Rightarrow> 64 word \<Rightarrow> int \<Rightarrow> int \<Rightarrow> 'd place answer" where
  "binsearch rs needle low high =
     (let mid = low + (high - low) sdiv 2
      in if mid < 0 \<or> int (length rs) \<le> mid \<or> \<not> has_id (rs ! nat mid) then Undefined_access
         else if needle = osm_id (rs ! nat mid) then Found (rs ! nat mid)
         else if high < low then Not_found
         else if needle <s osm_id (rs ! nat mid)
         then binsearch rs needle low (low + (high - low) sdiv 2 - 1)
         else binsearch rs needle (low + (high - low) sdiv 2 + 1) high)"
  by pat_completeness auto
termination
proof (relation "measure (\<lambda>(_, _, low, high). nat (high - low + 1))")
  fix rs :: "'d places" and needle :: "64 word" and low high mid :: int
  assume mid: "mid = low + (high - low) sdiv 2" and le: "\<not> high < low"
  have "(high - low) sdiv 2 = (high - low) div 2" using le by (simp add: signed_divide_int_def sgn_if)
  then show "((rs, needle, low, low + (high - low) sdiv 2 - 1), rs, needle, low, high)
      \<in> measure (\<lambda>(_, _, low, high). nat (high - low + 1))"
    "((rs, needle, low + (high - low) sdiv 2 + 1, high), rs, needle, low, high)
      \<in> measure (\<lambda>(_, _, low, high). nat (high - low + 1))"
    using le by auto
qed simp

declare binsearch.simps [simp del]

definition lookup_binsort :: "'d place binsort_data \<Rightarrow> 64 word \<Rightarrow> 'd place answer" where
  "lookup_binsort data needle = binsearch (bd_rs data) needle 0 (int (bd_n data) - 1)"

section \<open>The query loop\<close>

text \<open>
  \<^verbatim>\<open>id_query_loop\<close>: one query per line of the input, each answered from the index; \<open>None\<close> if
  building the index is undefined.
\<close>

definition id_query_loop :: "('d places \<Rightarrow> nat \<Rightarrow> 'i option) \<Rightarrow> ('i \<Rightarrow> 64 word \<Rightarrow> 'd place answer) \<Rightarrow>
    'd places \<Rightarrow> nat \<Rightarrow> string \<Rightarrow> (64 word \<times> 'd place answer) list option" where
  "id_query_loop mk_index lookup rs n input =
     map_option (\<lambda>index. map (\<lambda>line. (atol (c_str line), lookup index (atol (c_str line)))) (lines input)) (mk_index rs n)"

section \<open>Linear search\<close>

lemma find_from_cases:
  obtains (none) "find_from get i k = Not_found" "\<forall>j. i \<le> j \<and> j < i + k \<longrightarrow> get j = Not_found"
  | (some) j where "find_from get i k = get j" "get j \<noteq> Not_found" "i \<le> j" "j < i + k"
proof -
  have "(find_from get i k = Not_found \<and> (\<forall>j. i \<le> j \<and> j < i + k \<longrightarrow> get j = Not_found)) \<or>
      (\<exists>j. find_from get i k = get j \<and> get j \<noteq> Not_found \<and> i \<le> j \<and> j < i + k)"
  proof (induction k arbitrary: i)
    case (Suc k)
    show ?case
    proof (cases "get i")
      case Not_found
      have split: "i \<le> j \<and> j < i + Suc k \<longleftrightarrow> j = i \<or> Suc i \<le> j \<and> j < Suc i + k" for j by auto
      show ?thesis unfolding split using Suc.IH [of "Suc i"] Not_found by auto
    qed (auto intro: exI [of _ i])
  qed auto
  then show ?thesis using none some by blast
qed

definition answers :: "'d places \<Rightarrow> 64 word \<Rightarrow> 'd place answer \<Rightarrow> bool" where
  "answers rs needle a \<longleftrightarrow>
     (case a of Found r \<Rightarrow> r \<in> set rs \<and> osm_id r = needle
      | Not_found \<Rightarrow> \<forall>r \<in> set rs. osm_id r \<noteq> needle | Undefined_access \<Rightarrow> False)"

definition ids_set :: "'d places \<Rightarrow> bool" where
  "ids_set rs \<longleftrightarrow> list_all has_id rs"

lemma ids_set_simps [simp]: "ids_set []" "ids_set (r # rs) \<longleftrightarrow> has_id r \<and> ids_set rs" "ids_set (rs @ ps) \<longleftrightarrow> ids_set rs \<and> ids_set ps"
  by (simp_all add: ids_set_def)

lemma ids_set_nth: "ids_set rs \<Longrightarrow> i < length rs \<Longrightarrow> has_id (rs ! i)"
  by (simp add: ids_set_def list_all_length)

lemma lookup_naive_answers:
  assumes "n \<le> length rs" and "ids_set (take n rs)"
  shows "\<exists>index. mk_naive rs n = Some index \<and> answers (take n rs) needle (lookup_naive index needle)"
proof -
  let ?get = "\<lambda>i. if \<not> has_id (rs ! i) then Undefined_access
    else if osm_id (rs ! i) = needle then Found (rs ! i) else Not_found"
  have set: "has_id (rs ! i)" if "i < n" for i using ids_set_nth [OF assms(2), of i] assms(1) that by simp
  have "answers (take n rs) needle (find_from ?get 0 n)"
    by (cases rule: find_from_cases [of ?get 0 n, case_names none some])
      (use assms(1) set in \<open>auto simp: answers_def in_set_conv_nth split: if_splits\<close>)
  then show ?thesis using assms(1) by (simp add: lookup_naive_def mk_naive_def cong: if_cong)
qed

lemma lookup_indexed_naive:
  assumes "n \<le> length rs"
  shows "\<exists>index. mk_indexed rs n = Some index \<and> lookup_indexed index needle = lookup_naive (the (mk_naive rs n)) needle"
proof -
  let ?irs = "map (\<lambda>i. \<lparr>ir_osm_id = osm_id (rs ! i), ir_record = rs ! i\<rparr>) [0..<n]"
  have "find_from (\<lambda>i. if \<not> has_id (ir_record (?irs ! i)) then Undefined_access
        else if ir_osm_id (?irs ! i) = needle then Found (ir_record (?irs ! i)) else Not_found) i k =
      find_from (\<lambda>i. if \<not> has_id (rs ! i) then Undefined_access
        else if osm_id (rs ! i) = needle then Found (rs ! i) else Not_found) i k" if "i + k \<le> n" for i k
    using that by (induction k arbitrary: i) auto
  then show ?thesis using assms
    by (simp add: lookup_indexed_def mk_indexed_def lookup_naive_def mk_naive_def cong: if_cong)
qed

section \<open>Sorting\<close>

definition id_of :: "'d place \<Rightarrow> int" where "id_of r = sint (osm_id r)"

text \<open>Identifiers whose differences fit into an \<^verbatim>\<open>int\<close>.\<close>

definition close_ids :: "'d places \<Rightarrow> bool" where
  "close_ids rs \<longleftrightarrow> (\<forall>p \<in> set rs. \<forall>q \<in> set rs. \<bar>id_of p - id_of q\<bar> < 2 ^ 31)"

lemma id_of_eq: "id_of p = id_of q \<longleftrightarrow> osm_id p = osm_id q"
  using signed_word_eqI [of "osm_id p" "osm_id q"] by (auto simp: id_of_def)

lemma ucast_64_32: "ucast (word_of_int d :: 64 word) = (word_of_int d :: cint)"
  by (rule bit_word_eqI) (simp add: bit_simps)

lemma comp_close:
  assumes "\<bar>id_of p - id_of q\<bar> < 2 ^ 31"
  shows "sint (comp p q) = id_of p - id_of q"
proof -
  let ?d = "id_of p - id_of q"
  have "osm_id p - osm_id q = word_of_int ?d" by (simp add: id_of_def)
  then have "comp p q = word_of_int ?d"
    unfolding comp_def by (simp only: ucast_64_32)
  then have "sint (comp p q) = signed_take_bit 31 ?d" by (simp only: sint_sbintrunc') simp
  also have "\<dots> = ?d" using assms by (intro signed_take_bit_int_eq_self) linarith+
  finally show ?thesis .
qed

lemma mset_insert_by: "mset (insert_by cmp x ys) = add_mset x (mset ys)"
  by (induction ys) auto

lemma mset_qsort: "mset (qsort cmp xs) = mset xs"
  by (induction xs) (auto simp: mset_insert_by)

lemma set_insert_by: "set (insert_by cmp x ys) = insert x (set ys)"
  by (metis mset_insert_by set_mset_add_mset_insert set_mset_mset)

lemma set_qsort: "set (qsort cmp xs) = set xs"
  by (metis mset_qsort set_mset_mset)

lemma sorted_insert_by:
  assumes "close_ids (x # ys)" and "sorted (map id_of ys)"
  shows "sorted (map id_of (insert_by comp x ys))"
  using assms
proof (induction ys)
  case (Cons y ys)
  have "sint (comp x y) = id_of x - id_of y"
    using Cons.prems(1) by (intro comp_close) (simp add: close_ids_def)
  moreover have "close_ids (x # ys)" using Cons.prems(1) by (simp add: close_ids_def)
  ultimately show ?case using Cons by (auto simp: set_insert_by)
qed simp

lemma sorted_qsort: "close_ids xs \<Longrightarrow> sorted (map id_of (qsort comp xs))"
proof (induction xs)
  case (Cons x xs)
  have "close_ids xs" using Cons.prems by (simp add: close_ids_def)
  moreover have "close_ids (x # qsort comp xs)" using Cons.prems by (simp add: close_ids_def set_qsort)
  ultimately show ?case using Cons.IH sorted_insert_by by simp
qed simp

section \<open>Searching\<close>

text \<open>
  The search on a sorted array: everything left of \<open>low\<close> is smaller, everything right of
  \<open>high\<close> is larger than the identifier looked for.
\<close>

lemma sint_eq_iff: "sint v = sint w \<longleftrightarrow> v = w"
  by (rule word_eq_iff_signed [symmetric])

lemma consistent_comp: "close_ids rs \<Longrightarrow> consistent comp (set rs)"
proof -
  assume c: "close_ids rs"
  have v: "sint (comp p q) = id_of p - id_of q" if "p \<in> set rs" "q \<in> set rs" for p q
    using c that by (intro comp_close) (simp add: close_ids_def)
  have g: "sgn (id_of p - id_of q) = - sgn (id_of q - id_of p)" for p q :: "'a place" by (simp add: sgn_if)
  show ?thesis unfolding consistent_def
  proof (intro conjI ballI impI)
    fix p q assume "p \<in> set rs" "q \<in> set rs"
    then show "sgn (sint (comp p q)) = - sgn (sint (comp q p))" by (simp only: v) (rule g)
  next
    fix p q r assume "p \<in> set rs" "q \<in> set rs" "r \<in> set rs" "sint (comp p q) \<le> 0" "sint (comp q r) \<le> 0"
    then show "sint (comp p r) \<le> 0" by (simp add: v)
  qed
qed

lemma consistent_cong: "(\<And>p q. p \<in> S \<Longrightarrow> q \<in> S \<Longrightarrow> cmp p q = cmp' p q) \<Longrightarrow> consistent cmp S = consistent cmp' S"
  by (simp add: consistent_def)

lemma insert_by_cong: "(\<And>y. y \<in> set ys \<Longrightarrow> cmp x y = cmp' x y) \<Longrightarrow> insert_by cmp x ys = insert_by cmp' x ys"
  by (induction ys) auto

lemma qsort_cong: "(\<And>p q. p \<in> set xs \<Longrightarrow> q \<in> set xs \<Longrightarrow> cmp p q = cmp' p q) \<Longrightarrow> qsort cmp xs = qsort cmp' xs"
proof (induction xs)
  case (Cons x xs)
  have "insert_by cmp x (qsort cmp xs) = insert_by cmp' x (qsort cmp xs)"
    by (rule insert_by_cong) (use Cons.prems in \<open>simp add: set_qsort\<close>)
  then show ?case using Cons by simp
qed simp

text \<open>With set identifiers close to each other the array is sorted.\<close>

lemma mk_binsort_sorts:
  assumes "close_ids (take n rs)" and "ids_set (take n rs)"
  shows "mk_binsort rs n = Some \<lparr>bd_rs = qsort comp (take n rs) @ drop n rs, bd_n = n\<rparr>"
proof -
  let ?cmp = "\<lambda>p q. if has_id p \<and> has_id q then Some (comp p q) else None"
  let ?xs = "take n rs"
  have set: "has_id r" if "r \<in> set ?xs" for r using assms(2) that by (simp add: ids_set_def list_all_iff)
  have same: "the (?cmp p q) = comp p q" if "p \<in> set ?xs" "q \<in> set ?xs" for p q using set that by simp
  have "consistent (\<lambda>p q. the (?cmp p q)) (set ?xs)"
    using consistent_cong [of "set ?xs" "\<lambda>p q. the (?cmp p q)" comp] same consistent_comp [OF assms(1)] by blast
  moreover have "qsort (\<lambda>p q. the (?cmp p q)) ?xs = qsort comp ?xs" by (rule qsort_cong) (rule same)
  moreover have "qsort comp ?xs = ?xs" if "length ?xs < 2"
    using that by (cases ?xs rule: remdups_adj.cases) auto
  ultimately have "qsort_call qsort ?cmp ?xs = Some (qsort comp ?xs)"
    using set by (simp add: qsort_call_def sortable_def)
  then show ?thesis by (simp add: mk_binsort_def)
qed

lemma binsearch_spec:
  assumes "sorted (map id_of rs)" and "ids_set rs" and "0 \<le> low" "high < int (length rs)" "low \<le> high + 1"
    and "\<And>i. i < length rs \<Longrightarrow> int i < low \<Longrightarrow> id_of (rs ! i) < sint needle"
    and "\<And>i. i < length rs \<Longrightarrow> high < int i \<Longrightarrow> sint needle < id_of (rs ! i)"
  shows "if \<forall>r \<in> set rs. id_of r < sint needle then binsearch rs needle low high = Undefined_access
    else answers rs needle (binsearch rs needle low high)"
  using assms
proof (induction rs needle low high rule: binsearch.induct)
  case (1 rs needle low high)
  define mid where "mid = low + (high - low) sdiv 2"
  show ?case
  proof (cases "high < low")
    case True
    then have "high = low - 1" using "1.prems"(5) by simp
    then have "(high - low) sdiv 2 = 0" by (simp add: signed_divide_int_def)
    then have mid: "mid = low" by (simp add: mid_def)
    show ?thesis
    proof (cases "low = int (length rs)")
      case True
      then have "\<forall>r \<in> set rs. id_of r < sint needle" using "1.prems"(6) by (auto simp: in_set_conv_nth)
      then show ?thesis using True mid
        by (simp add: binsearch.simps [of rs needle "int (length rs)" high] Let_def mid_def)
    next
      case False
      then have lt: "nat low < length rs" using "1.prems"(3,4,5) True by linarith
      have above: "sint needle < id_of (rs ! nat low)" using "1.prems"(7) [OF lt] True "1.prems"(3) by simp
      have "id_of (rs ! i) \<noteq> sint needle" if "i < length rs" for i
        using "1.prems"(6) [OF that] "1.prems"(7) [OF that] \<open>high = low - 1\<close> by linarith
      then have absent: "\<forall>r \<in> set rs. osm_id r \<noteq> needle" by (metis id_of_def in_set_conv_nth)
      have "binsearch rs needle low high = Not_found"
        using True mid lt "1.prems"(3) absent nth_mem [OF lt] ids_set_nth [OF "1.prems"(2) lt]
        by (auto simp: binsearch.simps [of rs needle low high] Let_def mid_def)
      moreover have "\<not> (\<forall>r \<in> set rs. id_of r < sint needle)" using above nth_mem [OF lt] by (meson less_asym)
      ultimately show ?thesis using absent by (simp add: answers_def)
    qed
  next
    case False
    then have "(high - low) sdiv 2 = (high - low) div 2" by (simp add: signed_divide_int_def sgn_if)
    then have mid: "low \<le> mid" "mid \<le> high" using False by (simp_all add: mid_def)
    then have lt: "nat mid < length rs" "0 \<le> mid" using "1.prems"(3,4) by linarith+
    let ?m = "rs ! nat mid"
    have mono: "id_of (rs ! i) \<le> id_of (rs ! j)" if "i \<le> j" "j < length rs" for i j
      using sorted_nth_mono [OF "1.prems"(1), of i j] that by simp
    show ?thesis
    proof (cases "needle = osm_id ?m")
      case True
      then have "binsearch rs needle low high = Found ?m"
        using lt ids_set_nth [OF "1.prems"(2) lt(1)] by (subst binsearch.simps) (simp add: Let_def mid_def [symmetric])
      moreover have "\<not> (\<forall>r \<in> set rs. id_of r < sint needle)"
        using nth_mem [OF lt(1)] True by (auto simp: id_of_def)
      ultimately show ?thesis using True nth_mem [OF lt(1)] by (simp add: answers_def)
    next
      case neq: False
      have range: "\<not> (mid < 0 \<or> int (length rs) \<le> mid \<or> \<not> has_id (rs ! nat mid))"
        using lt ids_set_nth [OF "1.prems"(2) lt(1)] by simp
      show ?thesis
      proof (cases "needle <s osm_id ?m")
        case True
        then have below: "sint needle < id_of ?m" by (simp add: id_of_def word_sless_alt)
        have "binsearch rs needle low high = binsearch rs needle low (mid - 1)"
          using neq True False range by (simp add: binsearch.simps [of rs needle low high] Let_def mid_def)
        moreover have "if \<forall>r \<in> set rs. id_of r < sint needle
            then binsearch rs needle low (mid - 1) = Undefined_access
            else answers rs needle (binsearch rs needle low (mid - 1))"
          unfolding mid_def
        proof (rule "1.IH"(1) [OF refl range [unfolded mid_def] neq [unfolded mid_def] False True [unfolded mid_def] "1.prems"(1,2)])
          fix i assume "i < length rs" "low + (high - low) sdiv 2 - 1 < int i"
          then show "sint needle < id_of (rs ! i)"
            using below mono [of "nat mid" i] mid_def lt(2) by linarith
        qed (use "1.prems" mid mid_def in \<open>auto\<close>)
        ultimately show ?thesis by simp
      next
        case ge: False
        then have above: "id_of ?m < sint needle"
          using neq sint_eq_iff [of needle "osm_id ?m"] by (auto simp: id_of_def word_sless_alt)
        have "binsearch rs needle low high = binsearch rs needle (mid + 1) high"
          using neq ge False range by (simp add: binsearch.simps [of rs needle low high] Let_def mid_def)
        moreover have "if \<forall>r \<in> set rs. id_of r < sint needle
            then binsearch rs needle (mid + 1) high = Undefined_access
            else answers rs needle (binsearch rs needle (mid + 1) high)"
          unfolding mid_def
        proof (rule "1.IH"(2) [OF refl range [unfolded mid_def] neq [unfolded mid_def] False ge [unfolded mid_def] "1.prems"(1,2)])
          fix i assume "i < length rs" "int i < low + (high - low) sdiv 2 + 1"
          then show "id_of (rs ! i) < sint needle"
            using above mono [of i "nat mid"] mid_def lt by linarith
        qed (use "1.prems" mid mid_def in \<open>auto\<close>)
        ultimately show ?thesis by simp
      qed
    qed
  qed
qed

lemma qsort_comp_facts:
  "length (qsort comp rs) = length rs" "ids_set (qsort comp rs) = ids_set rs"
  by (metis mset_qsort size_mset) (simp add: ids_set_def list_all_iff set_qsort)

lemma lookup_binsort_spec:
  assumes "close_ids rs" and "ids_set rs" and "n = length rs"
  shows "\<exists>index. mk_binsort rs n = Some index \<and>
    (if \<forall>r \<in> set rs. id_of r < sint needle then lookup_binsort index needle = Undefined_access
     else answers rs needle (lookup_binsort index needle))"
proof -
  let ?q = "qsort comp rs"
  have "if \<forall>r \<in> set ?q. id_of r < sint needle then binsearch ?q needle 0 (int n - 1) = Undefined_access
    else answers ?q needle (binsearch ?q needle 0 (int n - 1))"
    using assms qsort_comp_facts [of rs] by (intro binsearch_spec sorted_qsort) auto
  then show ?thesis using mk_binsort_sorts [of n rs] assms
    by (simp add: set_qsort lookup_binsort_def answers_def cong: if_cong answer.case_cong)
qed

text \<open>
  In an array with room behind the records the search reads an identifier there that
  was never set instead of reading outside: that is as undefined.
\<close>

lemma binsearch_longer:
  assumes "0 \<le> low" "high < int (length rs)" "low \<le> high + 1" and "\<not> has_id y"
  shows "binsearch (rs @ y # ys) needle low high = binsearch rs needle low high"
  using assms
proof (induction rs needle low high rule: binsearch.induct)
  case (1 rs needle low high)
  define mid where "mid = low + (high - low) sdiv 2"
  note unfold = binsearch.simps [of _ needle low high, unfolded mid_def [symmetric] Let_def]
  show ?case
  proof (cases "high < low")
    case True
    then have "high = low - 1" using "1.prems"(3) by simp
    then have "mid = low" by (simp add: mid_def signed_divide_int_def)
    then show ?thesis
      using True "1.prems" unfold [of rs] unfold [of "rs @ y # ys"] by (auto simp: nth_append)
  next
    case False
    then have "(high - low) sdiv 2 = (high - low) div 2" by (simp add: signed_divide_int_def sgn_if)
    then have mid: "low \<le> mid" "mid \<le> high" using False by (simp_all add: mid_def)
    then have lt: "0 \<le> mid" "nat mid < length rs" "\<not> int (length rs) \<le> mid" using "1.prems" by linarith+
    then show ?thesis
      using "1.IH" [OF mid_def] False "1.prems" mid unfold [of rs] unfold [of "rs @ y # ys"]
      by (auto simp: nth_append mid_def [symmetric])
  qed
qed

lemma lookup_binsort_longer:
  assumes "close_ids (take n rs)" and "ids_set (take n rs)" and "n < length rs" and "\<not> has_id (rs ! n)"
  shows "\<exists>index. mk_binsort rs n = Some index \<and>
    (if \<forall>r \<in> set (take n rs). id_of r < sint needle then lookup_binsort index needle = Undefined_access
     else answers (take n rs) needle (lookup_binsort index needle))"
proof -
  let ?q = "qsort comp (take n rs)"
  have len: "length ?q = n" using assms(3) qsort_comp_facts(1) [of "take n rs"] by simp
  have tail: "drop n rs = rs ! n # drop (Suc n) rs" using assms(3) by (simp add: Cons_nth_drop_Suc)
  have "if \<forall>r \<in> set ?q. id_of r < sint needle then binsearch ?q needle 0 (int n - 1) = Undefined_access
    else answers ?q needle (binsearch ?q needle 0 (int n - 1))"
    using assms len qsort_comp_facts(2) by (intro binsearch_spec sorted_qsort) auto
  moreover have "binsearch (?q @ drop n rs) needle 0 (int n - 1) = binsearch ?q needle 0 (int n - 1)"
    using binsearch_longer [of 0 "int n - 1" ?q "rs ! n"] assms(4) len tail by simp
  ultimately show ?thesis using mk_binsort_sorts [OF assms(1,2)]
    by (simp add: set_qsort lookup_binsort_def answers_def cong: if_cong answer.case_cong)
qed

section \<open>The interface the query loop relies on\<close>

text \<open>
  \<open>good rs needle\<close> says for which arrays and queries an index keeps the promise of
  \<^verbatim>\<open>id_query.h\<close>: the lookup returns a record of the array with the identifier, or the null
  pointer if there is none.
\<close>

locale id_index =
  fixes mk_index :: "'d places \<Rightarrow> nat \<Rightarrow> 'i option"
    and lookup :: "'i \<Rightarrow> 64 word \<Rightarrow> 'd place answer"
    and good :: "'d places \<Rightarrow> 64 word \<Rightarrow> bool"
    and buildable :: "'d places \<Rightarrow> bool"
  assumes builds: "buildable rs \<Longrightarrow> \<exists>index. mk_index rs (length rs) = Some index"
    and lookup: "mk_index rs (length rs) = Some index \<Longrightarrow> good rs needle \<Longrightarrow> answers rs needle (lookup index needle)"
begin

lemma found_iff:
  assumes "mk_index rs (length rs) = Some index" and "good rs needle"
  shows "(\<exists>r. lookup index needle = Found r) \<longleftrightarrow> (\<exists>r \<in> set rs. osm_id r = needle)"
  using lookup [OF assms] by (auto simp: answers_def split: answer.splits)

text \<open>With distinct identifiers the answer is determined by the array alone.\<close>

lemma lookup_determined:
  assumes "mk_index rs (length rs) = Some index" and "good rs needle" and "distinct (map osm_id rs)" and "answers rs needle a"
  shows "lookup index needle = a"
proof -
  have "p = q" if "p \<in> set rs" "q \<in> set rs" "osm_id p = osm_id q" for p q
    using assms(3) that by (auto simp: distinct_map inj_on_def)
  then show ?thesis
    using lookup [OF assms(1,2)] assms(4) by (auto simp: answers_def split: answer.splits)
qed

lemma loop_answers:
  assumes "buildable rs" and "\<And>line. line \<in> set (lines input) \<Longrightarrow> good rs (atol (c_str line))"
  shows "\<exists>out. id_query_loop mk_index lookup rs (length rs) input = Some out \<and>
    (\<forall>(needle, a) \<in> set out. answers rs needle a)"
  using builds [OF assms(1)] lookup assms(2) by (auto simp: id_query_loop_def)

end

interpretation naive: id_index mk_naive lookup_naive "\<lambda>rs needle. ids_set rs" "\<lambda>rs. True"
proof
  fix rs :: "'a places" and index needle
  show "\<exists>index. mk_naive rs (length rs) = Some index" by (simp add: mk_naive_def)
  assume "mk_naive rs (length rs) = Some index" "ids_set rs"
  then show "answers rs needle (lookup_naive index needle)"
    using lookup_naive_answers [of "length rs" rs needle] by auto
qed

interpretation indexed: id_index mk_indexed lookup_indexed "\<lambda>rs needle. ids_set rs" "\<lambda>rs. True"
proof
  fix rs :: "'a places" and index needle
  show "\<exists>index. mk_indexed rs (length rs) = Some index" by (simp add: mk_indexed_def)
  assume i: "mk_indexed rs (length rs) = Some index" and "ids_set rs"
  then have "answers rs needle (lookup_naive (the (mk_naive rs (length rs))) needle)"
    using lookup_naive_answers [of "length rs" rs needle] by auto
  then show "answers rs needle (lookup_indexed index needle)"
    using i lookup_indexed_naive [of "length rs" rs needle] by auto
qed

text \<open>Binary search needs identifiers close to each other, one of them not below the query.\<close>

definition searchable :: "'d places \<Rightarrow> 64 word \<Rightarrow> bool" where
  "searchable rs needle \<longleftrightarrow> ids_set rs \<and> close_ids rs \<and> (\<exists>r \<in> set rs. sint needle \<le> id_of r)"

interpretation binsort: id_index mk_binsort lookup_binsort searchable "\<lambda>rs. ids_set rs \<and> close_ids rs"
proof
  fix rs :: "'a places" and index needle
  show "ids_set rs \<and> close_ids rs \<Longrightarrow> \<exists>index. mk_binsort rs (length rs) = Some index"
    using mk_binsort_sorts [of "length rs" rs] by simp
  assume i: "mk_binsort rs (length rs) = Some index" and s: "searchable rs needle"
  then have "close_ids rs" "ids_set rs" by (simp_all add: searchable_def)
  from lookup_binsort_spec [OF this refl, of needle]
  show "answers rs needle (lookup_binsort index needle)"
    using s i by (force simp: searchable_def split: if_splits)
qed

section \<open>Properties\<close>

text \<open>Records for the witnesses, with a given identifier.\<close>

definition with_id :: "64 word \<Rightarrow> nat place" where
  "with_id x = blank_place\<lparr>osm_id := x, set_columns := 8\<rparr>"

lemma with_id_simps [simp]: "osm_id (with_id x) = x" "id_of (with_id x) = sint x" "has_id (with_id x)"
  by (simp_all add: with_id_def id_of_def has_id_def)

text \<open>
  The query loop gives the same answers with the naive index, the index of identifiers
  and the sorted array, for every input, if the identifiers are set and distinct, their
  differences fit into 31 bits and no query exceeds all of them.
\<close>

theorem id_indexes_agree:
  assumes "distinct (map osm_id rs)" and "ids_set rs" and "close_ids rs"
    and "\<forall>line \<in> set (lines input). searchable rs (atol (c_str line))"
  shows "\<exists>out. id_query_loop mk_naive lookup_naive rs (length rs) input = Some out \<and>
    id_query_loop mk_indexed lookup_indexed rs (length rs) input = Some out \<and>
    id_query_loop mk_binsort lookup_binsort rs (length rs) input = Some out"
proof -
  obtain ni ii bi where i: "mk_naive rs (length rs) = Some ni" "mk_indexed rs (length rs) = Some ii" "mk_binsort rs (length rs) = Some bi"
    using naive.builds indexed.builds binsort.builds assms(2,3) by blast
  have "lookup_indexed ii (atol (c_str line)) = lookup_naive ni (atol (c_str line)) \<and>
      lookup_binsort bi (atol (c_str line)) = lookup_naive ni (atol (c_str line))" if "line \<in> set (lines input)" for line
    using naive.lookup [OF i(1) assms(2)] indexed.lookup_determined [OF i(2) assms(2,1)]
      binsort.lookup_determined [OF i(3) _ assms(1)] assms(4) that by blast
  then show ?thesis by (simp add: id_query_loop_def i)
qed

theorem id_indexes_agree_witness:
  "\<exists>out. id_query_loop mk_naive lookup_naive [with_id 9, with_id 5] (length [with_id 9, with_id 5]) (''7'' @ [nl]) = Some out \<and>
    id_query_loop mk_indexed lookup_indexed [with_id 9, with_id 5] (length [with_id 9, with_id 5]) (''7'' @ [nl]) = Some out \<and>
    id_query_loop mk_binsort lookup_binsort [with_id 9, with_id 5] (length [with_id 9, with_id 5]) (''7'' @ [nl]) = Some out"
  by (rule id_indexes_agree)
    (simp_all add: searchable_def close_ids_def lines.simps getline_def c_str_def atol_def strtol_def is_space_def is_digit_def)

text \<open>
  C36: \<^verbatim>\<open>lookup_binsort\<close> on an array built by \<^verbatim>\<open>mk_binsort\<close> from records whose identifiers are set
  and differ by less than 2^31 returns, and it reads outside the array exactly when the
  identifier asked for is larger than all of them (in particular when there are no
  records); otherwise it finds a record with it, or says that there is none. (Identifiers
  further apart are compared wrongly: \<^verbatim>\<open>comp\<close> truncates their difference to an \<^verbatim>\<open>int\<close>.)
\<close>

theorem binsort_lookup:
  assumes "close_ids rs" and "ids_set rs" and "n = length rs"
  shows "\<exists>index. mk_binsort rs n = Some index \<and>
    (if \<forall>r \<in> set rs. id_of r < sint needle then lookup_binsort index needle = Undefined_access
     else answers rs needle (lookup_binsort index needle))"
  using assms by (rule lookup_binsort_spec)

theorem binsort_lookup_witness:
  "\<exists>index. mk_binsort [with_id 9, with_id 5] 2 = Some index \<and>
    (if \<forall>r \<in> set [with_id 9, with_id 5]. id_of r < sint (10 :: 64 word) then lookup_binsort index 10 = Undefined_access
     else answers [with_id 9, with_id 5] 10 (lookup_binsort index 10))"
  by (rule binsort_lookup) (simp_all add: close_ids_def)

text \<open>
  The comparison function truncates the difference of two 64-bit identifiers to 32
  bits: identifiers that differ by a multiple of 2^32 compare equal, and an identifier
  that is larger by 2^31 compares as smaller.
\<close>

theorem comp_truncates:
  "comp (p\<lparr>osm_id := osm_id q + push_bit 32 k\<rparr>) q = 0 \<and>
   sint (comp (p\<lparr>osm_id := osm_id q + push_bit 31 1\<rparr>) q) < 0"
proof -
  have "(ucast (push_bit 32 k) :: cint) = 0" by (rule word32_eqI) (simp add: bit_simps)
  moreover have "(ucast (push_bit 31 1 :: 64 word) :: cint) = push_bit 31 1"
    by (rule word32_eqI) (auto simp: bit_simps)
  ultimately show ?thesis by (simp add: comp_def)
qed

end
