(* ===== verification/Coord_Query.thy ===== *)
theory Coord_Query
  imports Complex_Main Id_Query
begin

text \<open>
  Looking up the place nearest to a pair of coordinates: \<^verbatim>\<open>A1/coord_query_naive.c\<close>,
  \<^verbatim>\<open>A1/coord_query_kdtree.c\<close> and the query loop of \<^verbatim>\<open>A1/coord_query.c\<close>. The arithmetic of
  \<^verbatim>\<open>double\<close> is a parameter, the record \<open>arith\<close>: a theorem holds for every arithmetic that
  has the stated order, with rounding and NaN included; \<open>exact\<close> is the one of the real
  numbers. \<^verbatim>\<open>qsort\<close> is a parameter too, with the contract of the C standard as the locale
  \<open>sorter\<close>: for a consistent comparison it permutes and sorts. A call with a comparison that
  is not consistent on the array, or that is undefined on it, is undefined; so is the use
  of a coordinate that was never set by the building of the tree and by the naive search.
  (The search in the tree reads such coordinates as the values that memory holds.) A pointer
  to a record is its index in the array; what \<^verbatim>\<open>malloc\<close> leaves in fresh memory is \<open>garbage\<close>.

  The lemmas show that the naive search finds the first nearest record, that the tree, if
  building it is defined, is a balanced search tree over the whole array, and what the
  search in the tree leaves out.
\<close>

section \<open>Floating-point arithmetic\<close>

record 'd arith =
  d_sub :: "'d \<Rightarrow> 'd \<Rightarrow> 'd"
  d_add :: "'d \<Rightarrow> 'd \<Rightarrow> 'd"
  d_pow2 :: "'d \<Rightarrow> 'd"
  d_sqrt :: "'d \<Rightarrow> 'd"
  d_fabs :: "'d \<Rightarrow> 'd"
  d_zero :: 'd
  d_lt :: "'d \<Rightarrow> 'd \<Rightarrow> bool"
  d_le :: "'d \<Rightarrow> 'd \<Rightarrow> bool"
  d_eq :: "'d \<Rightarrow> 'd \<Rightarrow> bool"
  to_int :: "'d \<Rightarrow> cint option"

text \<open>The conversion to \<^verbatim>\<open>int\<close> truncates; it is undefined if the result does not fit.\<close>

definition truncated :: "real \<Rightarrow> cint option" where
  "truncated x = (let t = (if x < 0 then \<lceil>x\<rceil> else \<lfloor>x\<rfloor>) in if - (2 ^ 31) \<le> t \<and> t < 2 ^ 31 then Some (word_of_int t) else None)"

definition exact :: "real arith" where
  "exact = \<lparr>d_sub = (-), d_add = (+), d_pow2 = (\<lambda>x. x ^ 2), d_sqrt = sqrt, d_fabs = abs, d_zero = 0,
     d_lt = (<), d_le = (\<le>), d_eq = (=), to_int = truncated\<rparr>"

definition distance :: "'d arith \<Rightarrow> 'd place option \<Rightarrow> 'd \<Rightarrow> 'd \<Rightarrow> 'd" where
  "distance F rs x y =
     (case rs of
        Some r \<Rightarrow> d_sqrt F (d_add F (d_pow2 F (d_sub F (lon r) x)) (d_pow2 F (d_sub F (lat r) y)))
      | None \<Rightarrow> d_zero F)"

section \<open>The naive search\<close>

record 'd naive_coords =
  nc_rs :: "'d places"
  nc_n :: nat

definition mk_naive_coord :: "'d places \<Rightarrow> nat \<Rightarrow> 'd naive_coords option" where
  "mk_naive_coord rs n = Some \<lparr>nc_rs = rs, nc_n = n\<rparr>"

text \<open>The loop with \<open>k\<close> iterations left, at index \<open>i\<close>.\<close>

fun closest_from :: "('d \<Rightarrow> 'd \<Rightarrow> bool) \<Rightarrow> (nat \<Rightarrow> 'd) \<Rightarrow> nat \<Rightarrow> nat \<Rightarrow> nat \<Rightarrow> 'd \<Rightarrow> nat" where
  "closest_from lt d i 0 closestID closestDistance = closestID"
| "closest_from lt d i (Suc k) closestID closestDistance =
     (if lt (d i) closestDistance then closest_from lt d (i + 1) k i (d i)
      else closest_from lt d (i + 1) k closestID closestDistance)"

definition lookup_naive_coord :: "'d arith \<Rightarrow> 'd naive_coords \<Rightarrow> 'd \<Rightarrow> 'd \<Rightarrow> 'd place answer" where
  "lookup_naive_coord F data x y =
     (if nc_rs data = [] \<or> length (nc_rs data) < nc_n data \<or> \<not> list_all has_coords (take (max 1 (nc_n data)) (nc_rs data))
      then Undefined_access
      else let d = (\<lambda>i. distance F (Some (nc_rs data ! i)) x y)
           in Found (nc_rs data ! closest_from (d_lt F) d 1 (nc_n data - 1) 0 (d 0)))"

section \<open>The tree\<close>

datatype node = NULL | Node (point: nat) (axis: nat) (left: node) (right: node)

definition compX :: "'d arith \<Rightarrow> 'd place \<Rightarrow> 'd place \<Rightarrow> cint option" where
  "compX F p q = (if has_lon p \<and> has_lon q then to_int F (d_sub F (lon p) (lon q)) else None)"

definition compY :: "'d arith \<Rightarrow> 'd place \<Rightarrow> 'd place \<Rightarrow> cint option" where
  "compY F p q = (if has_coords p \<and> has_coords q then to_int F (d_sub F (lat p) (lat q)) else None)"

text \<open>\<^verbatim>\<open>qsort\<close> on the \<open>n\<close> elements from index \<open>off\<close>; \<open>None\<close> is a call that is undefined.\<close>

definition sort_range :: "'r qsort_fn \<Rightarrow> ('r \<Rightarrow> 'r \<Rightarrow> cint option) \<Rightarrow> nat \<Rightarrow> nat \<Rightarrow> 'r list \<Rightarrow> 'r list option" where
  "sort_range qs cmp off n rs =
     map_option (\<lambda>sorted. take off rs @ sorted @ drop (off + n) rs) (qsort_call qs cmp (take n (drop off rs)))"

text \<open>The pointer \<open>rs + off\<close> of the source is the array and an offset; the array is returned.\<close>

function generate_tree :: "'d arith \<Rightarrow> 'd place qsort_fn \<Rightarrow> 'd places \<Rightarrow> nat \<Rightarrow> nat \<Rightarrow> nat \<Rightarrow> (node \<times> 'd places) option" where
  "generate_tree F qs rs off depth n =
     (if n = 0 then Some (NULL, rs)
      else let axis = depth mod 2
           in Option.bind (if axis = 0 then sort_range qs (compX F) off n rs else sort_range qs (compY F) off n rs) (\<lambda>rs.
              Option.bind (generate_tree F qs rs off (depth + 1) (n div 2)) (\<lambda>(l, rs).
              Option.bind (generate_tree F qs rs (off + n div 2 + 1) (depth + 1) (n - n div 2 - 1)) (\<lambda>(r, rs).
              Some (Node (off + n div 2) axis l r, rs)))))"
  by pat_completeness auto
termination by (relation "measure (\<lambda>(_, _, _, _, _, n). n)") auto

declare generate_tree.simps [simp del]

definition mk_kdtree :: "'d arith \<Rightarrow> 'd place qsort_fn \<Rightarrow> 'd places \<Rightarrow> nat \<Rightarrow> (node \<times> 'd places) option" where
  "mk_kdtree F qs rs n = generate_tree F qs rs 0 0 n"

primrec kdtree_walk :: "'d arith \<Rightarrow> 'd places \<Rightarrow> node \<Rightarrow> 'd \<Rightarrow> 'd \<Rightarrow> 'd place \<Rightarrow> 'd place" where
  "kdtree_walk F rs NULL x y closest = closest"
| "kdtree_walk F rs (Node i a l r) x y closest =
     (let p = rs ! i;
          closest = (if d_lt F (distance F (Some p) x y) (distance F (Some closest) x y) then p else closest)
      in if d_eq F (lat p) y \<and> d_eq F (lon p) x then p
         else let diff = (if a = 0 then d_sub F (lon p) x else d_sub F (lat p) y);
                  radius = distance F (Some p) x y
              in if d_le F (d_zero F) diff \<or> d_lt F (d_fabs F diff) radius then kdtree_walk F rs l x y closest
                 else if d_le F diff (d_zero F) \<or> d_lt F (d_fabs F diff) radius then kdtree_walk F rs r x y closest
                 else closest)"

text \<open>The result is copied into fresh memory, which the walk reads before it writes it.\<close>

definition lookup_kdtree :: "'d arith \<Rightarrow> 'd place \<Rightarrow> node \<times> 'd places \<Rightarrow> 'd \<Rightarrow> 'd \<Rightarrow> 'd place answer" where
  "lookup_kdtree F garbage index x y = Found (kdtree_walk F (snd index) (fst index) x y garbage)"

section \<open>The query loop\<close>

text \<open>
  \<open>scan\<close> is \<^verbatim>\<open>sscanf(line, "%lf %lf", &lon, &lat)\<close>: the two numbers, or \<open>None\<close> if it does not set
  both variables. They are not initialised, so that using them then is undefined: \<open>None\<close> in the
  list of the answers.
\<close>

definition coord_query_loop :: "('d places \<Rightarrow> nat \<Rightarrow> 'i option) \<Rightarrow> ('i \<Rightarrow> 'd \<Rightarrow> 'd \<Rightarrow> 'd place answer) \<Rightarrow>
    (string \<Rightarrow> ('d \<times> 'd) option) \<Rightarrow> 'd places \<Rightarrow> nat \<Rightarrow> string \<Rightarrow> (('d \<times> 'd) \<times> 'd place answer) option list option" where
  "coord_query_loop mk_index lookup scan rs n input =
     map_option (\<lambda>index. map (\<lambda>line. map_option (\<lambda>(x, y). ((x, y), lookup index x y)) (scan (c_str line))) (lines input))
       (mk_index rs n)"

section \<open>The nearest record\<close>

text \<open>Numbers that are ordered by \<open>lt\<close>, as \<^verbatim>\<open>double\<close> is without NaN.\<close>

definition ordered_on :: "('d \<Rightarrow> 'd \<Rightarrow> bool) \<Rightarrow> 'd set \<Rightarrow> bool" where
  "ordered_on lt D \<longleftrightarrow> (\<forall>a \<in> D. \<forall>b \<in> D. lt a b \<longrightarrow> \<not> lt b a) \<and>
     (\<forall>a \<in> D. \<forall>b \<in> D. \<forall>c \<in> D. lt a b \<longrightarrow> lt a c \<or> lt c b)"

lemma ordered_on_less [simp]: "ordered_on (<) (D :: 'a :: linorder set)"
  by (auto simp: ordered_on_def)

lemma ordered_on_irrefl: "ordered_on lt D \<Longrightarrow> a \<in> D \<Longrightarrow> \<not> lt a a"
  by (auto simp: ordered_on_def)

text \<open>Index \<open>b\<close> is the first of those below \<open>m\<close> with the least value.\<close>

definition first_least :: "('d \<Rightarrow> 'd \<Rightarrow> bool) \<Rightarrow> (nat \<Rightarrow> 'd) \<Rightarrow> nat \<Rightarrow> nat \<Rightarrow> bool" where
  "first_least lt d m b \<longleftrightarrow> b < m \<and> (\<forall>j<m. \<not> lt (d j) (d b)) \<and> (\<forall>j<b. lt (d b) (d j))"

lemma first_least_step:
  assumes "ordered_on lt (d ` {..<Suc i})" and "first_least lt d i b"
  shows "first_least lt d (Suc i) (if lt (d i) (d b) then i else b)"
proof (cases "lt (d i) (d b)")
  case True
  have above: "lt (d i) (d j)" if "j < i" for j
  proof -
    have "d i \<in> d ` {..<Suc i}" "d b \<in> d ` {..<Suc i}" "d j \<in> d ` {..<Suc i}"
      using that assms(2) by (auto simp: first_least_def)
    then have "lt (d i) (d j) \<or> lt (d j) (d b)" using assms(1) True unfolding ordered_on_def by blast
    then show ?thesis using assms(2) that by (auto simp: first_least_def)
  qed
  have "\<not> lt (d j) (d i)" if "j \<le> i" for j
  proof -
    have "d i \<in> d ` {..<Suc i}" "d j \<in> d ` {..<Suc i}" using that by auto
    then have "lt (d i) (d j) \<longrightarrow> \<not> lt (d j) (d i)" "lt (d i) (d i) \<longrightarrow> \<not> lt (d i) (d i)"
      using assms(1) unfolding ordered_on_def by blast+
    then show ?thesis using above [of j] that by (cases "j = i") auto
  qed
  then show ?thesis using True above by (auto simp: first_least_def less_Suc_eq_le)
next
  case False
  then show ?thesis using assms(2) by (auto simp: first_least_def less_Suc_eq)
qed

lemma closest_from_first_least:
  "ordered_on lt (d ` {..<i + k}) \<Longrightarrow> first_least lt d i b \<Longrightarrow>
   first_least lt d (i + k) (closest_from lt d i k b (d b))"
proof (induction k arbitrary: i b)
  case (Suc k)
  have "ordered_on lt (d ` {..<Suc i})"
    using Suc.prems(1) by (force simp: ordered_on_def)
  from first_least_step [OF this Suc.prems(2)]
  show ?case using Suc.IH [of "Suc i"] Suc.prems(1) by (auto split: if_splits)
qed simp

section \<open>Building the tree\<close>

definition not_after :: "('r \<Rightarrow> 'r \<Rightarrow> cint option) \<Rightarrow> 'r \<Rightarrow> 'r \<Rightarrow> bool" where
  "not_after cmp p q \<longleftrightarrow> (case cmp p q of None \<Rightarrow> False | Some c \<Rightarrow> sint c \<le> 0)"

fun inorder :: "node \<Rightarrow> nat list" where
  "inorder NULL = []"
| "inorder (Node i a l r) = inorder l @ i # inorder r"

fun height :: "node \<Rightarrow> nat" where
  "height NULL = 0"
| "height (Node i a l r) = max (height l) (height r) + 1"

definition axis_comp :: "'d arith \<Rightarrow> nat \<Rightarrow> 'd place \<Rightarrow> 'd place \<Rightarrow> cint option" where
  "axis_comp F a = (if a = 0 then compX F else compY F)"

text \<open>The order of the tree: no record of the left part after the root, none of the right before it.\<close>

fun kd_ordered :: "'d arith \<Rightarrow> 'd places \<Rightarrow> node \<Rightarrow> bool" where
  "kd_ordered F rs NULL \<longleftrightarrow> True"
| "kd_ordered F rs (Node i a l r) \<longleftrightarrow>
     (\<forall>j \<in> set (inorder l). not_after (axis_comp F a) (rs ! j) (rs ! i)) \<and>
     (\<forall>j \<in> set (inorder r). not_after (axis_comp F a) (rs ! i) (rs ! j)) \<and>
     kd_ordered F rs l \<and> kd_ordered F rs r"

text \<open>Two arrays with the same elements that differ in a range only.\<close>

definition permuted :: "nat \<Rightarrow> nat \<Rightarrow> 'r list \<Rightarrow> 'r list \<Rightarrow> bool" where
  "permuted off n xs ys \<longleftrightarrow> length ys = length xs \<and> mset ys = mset xs \<and>
     (\<forall>j<length xs. j < off \<or> off + n \<le> j \<longrightarrow> ys ! j = xs ! j)"

lemma permuted_trans:
  assumes "permuted a k xs ys" "permuted b m ys zs" "off \<le> a" "off \<le> b" "a + k \<le> off + n" "b + m \<le> off + n"
  shows "permuted off n xs zs"
  using assms by (auto simp: permuted_def)

lemma permuted_refl: "permuted off n xs xs"
  by (simp add: permuted_def)

definition range_set :: "nat \<Rightarrow> nat \<Rightarrow> 'r list \<Rightarrow> 'r set" where
  "range_set off n xs = (!) xs ` {off..<off + n}"

lemma range_set_take: "off + n \<le> length xs \<Longrightarrow> range_set off n xs = set (take n (drop off xs))"
proof -
  assume "off + n \<le> length xs"
  then have "take n (drop off xs) = map ((!) xs) [off..<off + n]"
    by (intro nth_equalityI) auto
  then show ?thesis by (simp add: range_set_def)
qed

lemma range_set_mono: "a \<le> b \<Longrightarrow> b + m \<le> a + n \<Longrightarrow> range_set b m xs \<subseteq> range_set a n xs"
  by (auto simp: range_set_def)

lemma range_set_permuted:
  assumes "permuted off n xs ys" "off + n \<le> length xs"
  shows "range_set off n ys = range_set off n xs"
proof -
  have split: "zs = take off zs @ take n (drop off zs) @ drop (off + n) zs" for zs :: "'a list"
    by (metis add.commute append_take_drop_id drop_drop)
  have len: "length ys = length xs" and ms: "mset ys = mset xs" using assms(1) by (simp_all add: permuted_def)
  have "take off ys = take off xs" "drop (off + n) ys = drop (off + n) xs"
    using assms(1) len by (auto simp: permuted_def intro!: nth_equalityI)
  then have "mset (take n (drop off ys)) = mset (take n (drop off xs))"
    using ms arg_cong [OF split [of xs], of mset] arg_cong [OF split [of ys], of mset] by simp
  then show ?thesis using assms(2) len by (simp add: range_set_take flip: set_mset_mset)
qed

lemma kd_ordered_cong: "(\<And>j. j \<in> set (inorder t) \<Longrightarrow> xs ! j = ys ! j) \<Longrightarrow> kd_ordered F xs t = kd_ordered F ys t"
  by (induction t) auto

lemma consistent_subset: "consistent cmp S \<Longrightarrow> T \<subseteq> S \<Longrightarrow> consistent cmp T"
  unfolding consistent_def by blast

lemma sortable_subset: "sortable cmp S \<Longrightarrow> T \<subseteq> S \<Longrightarrow> sortable cmp T"
  unfolding sortable_def using consistent_subset by blast

lemma consistent_total: "consistent cmp S \<Longrightarrow> p \<in> S \<Longrightarrow> q \<in> S \<Longrightarrow> sint (cmp p q) \<le> 0 \<or> sint (cmp q p) \<le> 0"
proof -
  assume "consistent cmp S" "p \<in> S" "q \<in> S"
  then have "sgn (sint (cmp p q)) = - sgn (sint (cmp q p))" unfolding consistent_def by blast
  then show ?thesis by (auto simp: sgn_if split: if_splits)
qed

lemma consistent_trans: "consistent cmp S \<Longrightarrow> p \<in> S \<Longrightarrow> q \<in> S \<Longrightarrow> r \<in> S \<Longrightarrow>
    sint (cmp p q) \<le> 0 \<Longrightarrow> sint (cmp q r) \<le> 0 \<Longrightarrow> sint (cmp p r) \<le> 0"
  unfolding consistent_def by blast

text \<open>The contract of \<^verbatim>\<open>qsort\<close>: it promises nothing for an inconsistent comparison.\<close>

locale sorter =
  fixes qs :: "'d place qsort_fn"
  assumes permutes: "consistent cmp (set xs) \<Longrightarrow> mset (qs cmp xs) = mset xs"
    and sorts: "consistent cmp (set xs) \<Longrightarrow> sorted_wrt (\<lambda>p q. sint (cmp p q) \<le> 0) (qs cmp xs)"
begin

lemma qsort_call_spec:
  assumes "qsort_call qs cmp xs = Some ys"
  shows "mset ys = mset xs" and "sorted_wrt (not_after cmp) ys"
proof -
  have "mset ys = mset xs \<and> sorted_wrt (not_after cmp) ys"
  proof (cases "length xs < 2")
    case True
    then show ?thesis using assms by (cases xs rule: remdups_adj.cases) (auto simp: qsort_call_def)
  next
    case False
    let ?cmp = "\<lambda>p q. the (cmp p q)"
    have s: "sortable cmp (set xs)" "ys = qs ?cmp xs" using assms False by (auto simp: qsort_call_def split: if_splits)
    then have c: "consistent ?cmp (set xs)" by (simp add: sortable_def)
    then have m: "mset ys = mset xs" using permutes s(2) by simp
    then have "set ys = set xs" by (metis set_mset_mset)
    then have "not_after cmp p q" if "p \<in> set ys" "q \<in> set ys" "sint (?cmp p q) \<le> 0" for p q
      using s(1) that by (auto simp: not_after_def sortable_def split: option.splits)
    then have "sorted_wrt (not_after cmp) ys"
      using sorts [OF c] s(2) by (auto intro: sorted_wrt_mono_rel [where P = "\<lambda>p q. sint (?cmp p q) \<le> 0"])
    then show ?thesis using m by simp
  qed
  then show "mset ys = mset xs" "sorted_wrt (not_after cmp) ys" by simp_all
qed

lemma sort_range_spec:
  assumes "off + n \<le> length rs" and "sort_range qs cmp off n rs = Some rs'"
  shows "permuted off n rs rs'"
    and "off \<le> i \<Longrightarrow> i < j \<Longrightarrow> j < off + n \<Longrightarrow> not_after cmp (rs' ! i) (rs' ! j)"
proof -
  obtain ys where ys: "qsort_call qs cmp (take n (drop off rs)) = Some ys" "rs' = take off rs @ ys @ drop (off + n) rs"
    using assms(2) by (auto simp: sort_range_def)
  note q = qsort_call_spec [OF ys(1)]
  have len: "length ys = n" using q(1) assms(1) by (metis add_le_imp_le_diff add.commute length_drop length_take min.absorb2 size_mset)
  have "mset rs = mset (take off rs) + mset (take n (drop off rs)) + mset (drop (off + n) rs)"
    by (metis add.commute append_take_drop_id drop_drop mset_append union_assoc)
  then show "permuted off n rs rs'" using assms(1) len q(1) ys(2) by (auto simp: permuted_def nth_append min_def)
  assume i: "off \<le> i" "i < j" "j < off + n"
  then have "rs' ! i = ys ! (i - off)" "rs' ! j = ys ! (j - off)" using ys(2) len assms(1) by (auto simp: nth_append min_def)
  then show "not_after cmp (rs' ! i) (rs' ! j)"
    using sorted_wrt_nth_less [OF q(2), of "i - off" "j - off"] i len by simp
qed

text \<open>One call of \<^verbatim>\<open>generate_tree\<close>: the sort, the two recursive calls and the node.\<close>

lemma generate_tree_step:
  assumes "generate_tree F qs rs off depth n = Some (t, rs')" "n \<noteq> 0"
  obtains l r rs1 rs2 where
    "sort_range qs (axis_comp F (depth mod 2)) off n rs = Some rs1"
    "generate_tree F qs rs1 off (depth + 1) (n div 2) = Some (l, rs2)"
    "generate_tree F qs rs2 (off + n div 2 + 1) (depth + 1) (n - n div 2 - 1) = Some (r, rs')"
    "t = Node (off + n div 2) (depth mod 2) l r"
  using assms by (subst (asm) generate_tree.simps) (auto simp: axis_comp_def Let_def split: Option.bind_splits if_splits)

lemma tree_covers_range:
  "off + n \<le> length rs \<Longrightarrow> generate_tree F qs rs off depth n = Some (t, rs') \<Longrightarrow>
   inorder t = [off..<off + n] \<and> permuted off n rs rs'"
proof (induction n arbitrary: rs off depth t rs' rule: less_induct)
  case (less n)
  show ?case
  proof (cases "n = 0")
    case True
    then show ?thesis using less.prems by (simp add: generate_tree.simps permuted_refl)
  next
    case False
    obtain l r rs1 rs2 where g: "sort_range qs (axis_comp F (depth mod 2)) off n rs = Some rs1"
      "generate_tree F qs rs1 off (depth + 1) (n div 2) = Some (l, rs2)"
      "generate_tree F qs rs2 (off + n div 2 + 1) (depth + 1) (n - n div 2 - 1) = Some (r, rs')"
      "t = Node (off + n div 2) (depth mod 2) l r"
      using generate_tree_step [OF less.prems(2) False] by metis
    have p1: "permuted off n rs rs1" using sort_range_spec(1) less.prems(1) g(1) by metis
    then have len1: "length rs1 = length rs" by (simp add: permuted_def)
    have h: "n div 2 < n" "n - n div 2 - 1 < n" "n div 2 + 1 + (n - n div 2 - 1) = n" using False by auto
    have "off + n div 2 \<le> length rs1" using len1 less.prems(1) h by linarith
    from less.IH [OF h(1) this g(2)]
    have L: "inorder l = [off..<off + n div 2]" "permuted off (n div 2) rs1 rs2" by auto
    then have "length rs2 = length rs" using len1 by (simp add: permuted_def)
    then have "off + n div 2 + 1 + (n - n div 2 - 1) \<le> length rs2" using less.prems(1) h by linarith
    from less.IH [OF h(2) this g(3)]
    have R: "inorder r = [off + n div 2 + 1..<off + n div 2 + 1 + (n - n div 2 - 1)]"
      "permuted (off + n div 2 + 1) (n - n div 2 - 1) rs2 rs'" by auto
    have "off + n div 2 + 1 + (n - n div 2 - 1) = off + n" using h by linarith
    then have "inorder t = [off..<off + n]"
      using L(1) R(1) g(4) h(1) upt_add_eq_append [of off "off + n div 2" "n - n div 2"]
      by (simp add: upt_conv_Cons)
    moreover have "permuted off n rs rs2" using permuted_trans [OF p1 L(2)] h by simp
    then have "permuted off n rs rs'" by (rule permuted_trans [OF _ R(2)]) (use h in auto)
    ultimately show ?thesis by simp
  qed
qed

lemma tree_ordered:
  "off + n \<le> length rs \<Longrightarrow> generate_tree F qs rs off depth n = Some (t, rs') \<Longrightarrow> kd_ordered F rs' t"
proof (induction n arbitrary: rs off depth t rs' rule: less_induct)
  case (less n)
  show ?case
  proof (cases "n = 0")
    case True
    then show ?thesis using less.prems by (simp add: generate_tree.simps)
  next
    case False
    let ?c = "axis_comp F (depth mod 2)" and ?i = "off + n div 2" and ?m = "n - n div 2 - 1"
    obtain l r rs1 rs2 where g: "sort_range qs ?c off n rs = Some rs1"
      "generate_tree F qs rs1 off (depth + 1) (n div 2) = Some (l, rs2)"
      "generate_tree F qs rs2 (?i + 1) (depth + 1) ?m = Some (r, rs')"
      "t = Node ?i (depth mod 2) l r"
      using generate_tree_step [OF less.prems(2) False] by metis
    have h: "n div 2 < n" "?m < n" "n div 2 + 1 + ?m = n" using False by auto
    have "length rs1 = length rs" using sort_range_spec(1) [OF less.prems(1) g(1)] by (simp add: permuted_def)
    then have l1: "off + n div 2 \<le> length rs1" "off + n \<le> length rs1" using less.prems(1) h by linarith+
    from tree_covers_range [OF l1(1) g(2)]
    have L: "inorder l = [off..<?i]" "permuted off (n div 2) rs1 rs2" by auto
    then have l2: "?i + 1 + ?m \<le> length rs2" using l1 h by (simp add: permuted_def)
    from tree_covers_range [OF l2 g(3)]
    have R: "inorder r = [?i + 1..<?i + 1 + ?m]" "permuted (?i + 1) ?m rs2 rs'" by auto
    note sorted1 = sort_range_spec(2) [OF less.prems(1) g(1)]
    have keep: "rs' ! j = rs2 ! j" if "j \<le> ?i" for j
      using R(2) that l2 by (auto simp: permuted_def)
    have keep1: "rs2 ! j = rs1 ! j" if "?i \<le> j" "j < off + n" for j
      using L(2) that l1 by (auto simp: permuted_def)
    have left: "not_after ?c (rs' ! j) (rs' ! ?i)" if "j \<in> set (inorder l)" for j
    proof -
      have "rs2 ! j \<in> range_set off (n div 2) rs2" using that L(1) by (auto simp: range_set_def)
      then obtain k where "off \<le> k" "k < ?i" "rs2 ! j = rs1 ! k"
        using range_set_permuted [OF L(2) l1(1)] by (auto simp: range_set_def)
      then show ?thesis using sorted1 [of k ?i] keep [of j] keep [of ?i] keep1 [of ?i] that L(1) h by auto
    qed
    have right: "not_after ?c (rs' ! ?i) (rs' ! j)" if "j \<in> set (inorder r)" for j
    proof -
      have "rs' ! j \<in> range_set (?i + 1) ?m rs'" using that R(1) by (auto simp: range_set_def)
      then obtain k where "?i + 1 \<le> k" "k < ?i + 1 + ?m" "rs' ! j = rs2 ! k"
        using range_set_permuted [OF R(2) l2] by (auto simp: range_set_def)
      then show ?thesis using sorted1 [of ?i k] keep [of ?i] keep1 [of k] keep1 [of ?i] h by simp
    qed
    have "kd_ordered F rs2 l" "kd_ordered F rs' r"
      using less.IH [OF h(1) l1(1) g(2)] less.IH [OF h(2) l2 g(3)] by simp_all
    moreover have "kd_ordered F rs' l = kd_ordered F rs2 l"
      by (rule kd_ordered_cong) (use keep L(1) in auto)
    ultimately show ?thesis using g(4) left right by simp
  qed
qed

text \<open>Building the tree is defined if both comparisons can sort the records.\<close>

lemma tree_defined:
  "off + n \<le> length rs \<Longrightarrow> sortable (compX F) (range_set off n rs) \<Longrightarrow> sortable (compY F) (range_set off n rs) \<Longrightarrow>
   \<exists>t rs'. generate_tree F qs rs off depth n = Some (t, rs')"
proof (induction n arbitrary: rs off depth rule: less_induct)
  case (less n)
  show ?case
  proof (cases "n = 0")
    case True
    then show ?thesis by (simp add: generate_tree.simps)
  next
    case False
    let ?c = "axis_comp F (depth mod 2)" and ?i = "off + n div 2" and ?m = "n - n div 2 - 1"
    have h: "n div 2 < n" "?m < n" "n div 2 + 1 + ?m = n" using False by auto
    have "sortable ?c (set (take n (drop off rs)))"
      using less.prems by (simp add: axis_comp_def range_set_take)
    then have "\<exists>rs1. sort_range qs ?c off n rs = Some rs1" by (simp add: sort_range_def qsort_call_def)
    then obtain rs1 where s: "sort_range qs ?c off n rs = Some rs1" by blast
    note p1 = sort_range_spec(1) [OF less.prems(1) s]
    have len1: "length rs1 = length rs" using p1 by (simp add: permuted_def)
    have same: "range_set off n rs1 = range_set off n rs" using range_set_permuted [OF p1 less.prems(1)] .
    have l1: "off + n div 2 \<le> length rs1" "off + n \<le> length rs1" using less.prems(1) len1 h by linarith+
    have sub: "range_set off (n div 2) rs1 \<subseteq> range_set off n rs"
      using range_set_mono [of off off "n div 2" n rs1] same h by simp
    obtain l rs2 where L: "generate_tree F qs rs1 off (depth + 1) (n div 2) = Some (l, rs2)"
      using less.IH [OF h(1) l1(1)] sortable_subset [OF less.prems(2) sub] sortable_subset [OF less.prems(3) sub] by blast
    have p2: "permuted off (n div 2) rs1 rs2" using tree_covers_range [OF l1(1) L] by simp
    then have l2: "?i + 1 + ?m \<le> length rs2" using l1 h by (simp add: permuted_def)
    have "permuted off n rs1 rs2"
      using permuted_trans [OF p2 permuted_refl, where off = off and n = n and b = off and m = 0] h by simp
    then have "range_set off n rs2 = range_set off n rs" using range_set_permuted l1(2) same by metis
    then have sub2: "range_set (?i + 1) ?m rs2 \<subseteq> range_set off n rs"
      using range_set_mono [of off "?i + 1" ?m n rs2] h by simp
    obtain r rs' where R: "generate_tree F qs rs2 (?i + 1) (depth + 1) ?m = Some (r, rs')"
      using less.IH [OF h(2) l2] sortable_subset [OF less.prems(2) sub2] sortable_subset [OF less.prems(3) sub2] by blast
    have "(if depth mod 2 = 0 then sort_range qs (compX F) off n rs else sort_range qs (compY F) off n rs) = Some rs1"
      using s by (auto simp: axis_comp_def)
    then show ?thesis using False L R by (simp add: generate_tree.simps [of F qs rs off depth n] Let_def)
  qed
qed

lemma tree_balanced:
  "generate_tree F qs rs off depth n = Some (t, rs') \<Longrightarrow> 2 ^ height t \<le> max 1 (2 * n)"
proof (induction n arbitrary: rs off depth t rs' rule: less_induct)
  case (less n)
  show ?case
  proof (cases "n = 0")
    case True
    then show ?thesis using less.prems by (simp add: generate_tree.simps)
  next
    case False
    obtain l r rs1 rs2 where g: "generate_tree F qs rs1 off (depth + 1) (n div 2) = Some (l, rs2)"
      "generate_tree F qs rs2 (off + n div 2 + 1) (depth + 1) (n - n div 2 - 1) = Some (r, rs')"
      "t = Node (off + n div 2) (depth mod 2) l r"
      using generate_tree_step [OF less.prems False] by metis
    have "2 ^ height l \<le> max 1 (2 * (n div 2))" "2 ^ height r \<le> max 1 (2 * (n - n div 2 - 1))"
      using less.IH [OF _ g(1)] less.IH [OF _ g(2)] False by auto
    moreover have "max 1 (2 * (n div 2)) \<le> n" "max 1 (2 * (n - n div 2 - 1)) \<le> n" using False by auto
    ultimately have "2 ^ height l \<le> n" "2 ^ height r \<le> n" by linarith+
    then have "2 ^ max (height l) (height r) \<le> n" by (simp add: max_def)
    then show ?thesis using g(3) by simp
  qed
qed

end

text \<open>Insertion sort keeps the contract.\<close>

lemma insert_by_sorted:
  assumes "consistent cmp (insert x (set ys))" and "sorted_wrt (\<lambda>p q. sint (cmp p q) \<le> 0) ys"
  shows "sorted_wrt (\<lambda>p q. sint (cmp p q) \<le> 0) (insert_by cmp x ys)"
  using assms
proof (induction ys)
  case (Cons y ys)
  have sub: "consistent cmp (insert x (set ys))"
    by (rule consistent_subset [OF Cons.prems(1)]) auto
  show ?case
  proof (cases "sint (cmp x y) \<le> 0")
    case True
    have "sint (cmp x z) \<le> 0" if "z \<in> set ys" for z
      by (rule consistent_trans [OF Cons.prems(1), of x y z]) (use True that Cons.prems(2) in auto)
    then show ?thesis using True Cons.prems(2) by simp
  next
    case False
    then have "sint (cmp y x) \<le> 0" using consistent_total [OF Cons.prems(1), of x y] by simp
    then show ?thesis using False Cons.IH [OF sub] Cons.prems(2) by (auto simp: set_insert_by)
  qed
qed simp

lemma qsort_sorted: "consistent cmp (set xs) \<Longrightarrow> sorted_wrt (\<lambda>p q. sint (cmp p q) \<le> 0) (qsort cmp xs)"
proof (induction xs)
  case (Cons x xs)
  have "consistent cmp (set xs)" by (rule consistent_subset [OF Cons.prems]) auto
  then show ?case using Cons insert_by_sorted [of cmp x "qsort cmp xs"] by (simp add: set_qsort)
qed simp

interpretation insertion_sort: sorter qsort
  by unfold_locales (simp_all add: mset_qsort qsort_sorted)

section \<open>The interface the coordinate query relies on\<close>

text \<open>
  \<open>nearest F rs x y r\<close>: no record of the array is nearer than \<open>r\<close>. An index is good for an
  array and a query if it finds such a record.
\<close>

definition nearest :: "'d arith \<Rightarrow> 'd places \<Rightarrow> 'd \<Rightarrow> 'd \<Rightarrow> 'd place \<Rightarrow> bool" where
  "nearest F rs x y r \<longleftrightarrow> r \<in> set rs \<and>
     (\<forall>q \<in> set rs. \<not> d_lt F (distance F (Some q) x y) (distance F (Some r) x y))"

locale nearest_index =
  fixes F :: "'d arith"
    and mk_index :: "'d places \<Rightarrow> nat \<Rightarrow> 'i option"
    and lookup :: "'i \<Rightarrow> 'd \<Rightarrow> 'd \<Rightarrow> 'd place answer"
    and good :: "'d places \<Rightarrow> 'd \<Rightarrow> 'd \<Rightarrow> bool"
    and buildable :: "'d places \<Rightarrow> bool"
  assumes builds: "buildable rs \<Longrightarrow> \<exists>index. mk_index rs (length rs) = Some index"
    and lookup: "mk_index rs (length rs) = Some index \<Longrightarrow> good rs x y \<Longrightarrow>
      \<exists>r. lookup index x y = Found r \<and> nearest F rs x y r"
begin

lemma loop_nearest:
  assumes "buildable rs" and "\<And>line. line \<in> set (lines input) \<Longrightarrow> \<exists>x y. scan (c_str line) = Some (x, y) \<and> good rs x y"
  shows "\<exists>out. coord_query_loop mk_index lookup scan rs (length rs) input = Some out \<and>
    (\<forall>a \<in> set out. \<exists>x y r. a = Some ((x, y), Found r) \<and> nearest F rs x y r)"
proof -
  obtain index where i: "mk_index rs (length rs) = Some index" using builds assms(1) by blast
  have "\<exists>x y r. map_option (\<lambda>(x, y). ((x, y), lookup index x y)) (scan (c_str line)) = Some ((x, y), Found r) \<and> nearest F rs x y r"
    if "line \<in> set (lines input)" for line
    using assms(2) [OF that] lookup [OF i] by fastforce
  then show ?thesis by (auto simp: coord_query_loop_def i)
qed

end

text \<open>
  The coordinates of all the records are set and their distances ordered: none of them is
  NaN.
\<close>

definition comparable :: "'d arith \<Rightarrow> 'd places \<Rightarrow> 'd \<Rightarrow> 'd \<Rightarrow> bool" where
  "comparable F rs x y \<longleftrightarrow> rs \<noteq> [] \<and> list_all has_coords rs \<and>
     ordered_on (d_lt F) ((\<lambda>r. distance F (Some r) x y) ` set rs)"

lemma lookup_naive_coord_first:
  assumes "comparable F rs x y" and "mk_naive_coord rs (length rs) = Some index"
  shows "\<exists>b. lookup_naive_coord F index x y = Found (rs ! b) \<and>
    first_least (d_lt F) (\<lambda>i. distance F (Some (rs ! i)) x y) (length rs) b"
proof -
  let ?d = "\<lambda>i. distance F (Some (rs ! i)) x y"
  have n: "1 + (length rs - 1) = length rs" "0 < length rs" "max 1 (length rs) = length rs"
    using assms(1) by (cases rs; simp add: comparable_def)+
  have "?d ` {..<length rs} = (\<lambda>r. distance F (Some r) x y) ` set rs"
    by (auto simp: set_conv_nth)
  then have o: "ordered_on (d_lt F) (?d ` {..<1 + (length rs - 1)})"
    using assms(1) n by (simp add: comparable_def)
  have "?d 0 \<in> ?d ` {..<1 + (length rs - 1)}" by simp
  then have "\<not> d_lt F (?d 0) (?d 0)" by (rule ordered_on_irrefl [OF o])
  then have "first_least (d_lt F) ?d 1 0" by (simp add: first_least_def)
  from closest_from_first_least [OF o this]
  have "first_least (d_lt F) ?d (length rs) (closest_from (d_lt F) ?d 1 (length rs - 1) 0 (?d 0))"
    unfolding n(1) .
  moreover have "lookup_naive_coord F index x y = Found (rs ! closest_from (d_lt F) ?d 1 (length rs - 1) 0 (?d 0))"
    using n(2,3) assms by (auto simp: lookup_naive_coord_def mk_naive_coord_def comparable_def Let_def)
  ultimately show ?thesis by blast
qed

interpretation naive_coord: nearest_index F mk_naive_coord "lookup_naive_coord F" "comparable F" "\<lambda>rs. True"
proof
  fix rs :: "'a places" and index x y
  show "\<exists>index. mk_naive_coord rs (length rs) = Some index" by (simp add: mk_naive_coord_def)
  assume "mk_naive_coord rs (length rs) = Some index" "comparable F rs x y"
  from lookup_naive_coord_first [OF this(2,1)]
  obtain b where b: "lookup_naive_coord F index x y = Found (rs ! b)"
    "first_least (d_lt F) (\<lambda>i. distance F (Some (rs ! i)) x y) (length rs) b"
    by (elim exE conjE)
  then have "nearest F rs x y (rs ! b)"
    by (force simp: nearest_def first_least_def in_set_conv_nth)
  then show "\<exists>r. lookup_naive_coord F index x y = Found r \<and> nearest F rs x y r"
    using b(1) by blast
qed

section \<open>The search in the tree\<close>

lemma kdtree_walk_member: "kdtree_walk F rs t x y c \<in> insert c ((!) rs ` set (inorder t))"
proof (induction t arbitrary: c)
  case (Node i a l r)
  then show ?case
    using Node.IH(1) [of c] Node.IH(1) [of "rs ! i"] Node.IH(2) [of c] Node.IH(2) [of "rs ! i"]
    by (auto simp: Let_def)
qed simp

lemma kdtree_walk_unchanged:
  assumes "\<forall>j \<in> set (inorder t). \<not> d_lt F (distance F (Some (rs ! j)) x y) (distance F (Some c) x y) \<and>
    \<not> (d_eq F (lat (rs ! j)) y \<and> d_eq F (lon (rs ! j)) x)"
  shows "kdtree_walk F rs t x y c = c"
  using assms by (induction t) (auto simp: Let_def)

lemma exact_distance: "distance exact (Some r) x y = sqrt ((lon r - x) ^ 2 + (lat r - y) ^ 2)"
  by (simp add: distance_def exact_def)

lemma exact_simps [simp]:
  "d_lt exact = (<)" "d_le exact = (\<le>)" "d_eq exact = (=)" "d_zero exact = 0" "d_sub exact = (-)"
  "d_fabs exact = abs"
  by (simp_all add: exact_def)

lemma abs_less_sqrt: "(b :: real) \<noteq> 0 \<Longrightarrow> \<bar>a\<bar> < sqrt (a ^ 2 + b ^ 2)" "b \<noteq> 0 \<Longrightarrow> \<bar>a\<bar> < sqrt (b ^ 2 + a ^ 2)"
  by (rule real_less_rsqrt, simp)+

text \<open>A record with given coordinates.\<close>

definition place_at :: "real \<Rightarrow> real \<Rightarrow> real place" where
  "place_at x y = \<lparr>name = [], alternative_names = [], osm_type = [], osm_id = 0, p_class = [], p_type = [],
     lon = x, lat = y, place_rank = 0, importance = 0, street = [], city = [], county = [], state = [],
     country = [], country_code = [], display_name = [], west = 0, south = 0, east = 0, north = 0,
     wikidata = [], wikipedia = [], housenumbers = [], p_line = [], set_columns = 8\<rparr>"

lemma place_at_simps [simp]: "has_lon (place_at x y)" "has_coords (place_at x y)" "lon (place_at x y) = x" "lat (place_at x y) = y" "place_at x y = place_at x' y' \<longleftrightarrow> x = x' \<and> y = y'"
  by (auto simp: place_at_def has_lon_def has_coords_def)

text \<open>
  The comparison converts the difference of two coordinates to \<^verbatim>\<open>int\<close>. On coordinates with
  a fractional part it is no preorder: 1.8 is not after 0.9, 0.9 is not after 0, but 1.8 is
  after 0, so that \<^verbatim>\<open>qsort\<close> promises nothing.
\<close>

lemma compX_no_preorder: "\<not> sortable (compX exact) {place_at 0 0, place_at 0.9 0, place_at 1.8 0}"
proof
  assume p: "sortable (compX exact) {place_at 0 0, place_at 0.9 0, place_at 1.8 0}"
  have "compX exact (place_at 1.8 0) (place_at 0.9 0) = Some 0" "compX exact (place_at 0.9 0) (place_at 0 0) = Some 0"
    "compX exact (place_at 1.8 0) (place_at 0 0) = Some 1"
    by (simp_all add: compX_def exact_def truncated_def)
  then show False
    using p consistent_trans [of _ _ "place_at 1.8 0" "place_at 0.9 0" "place_at 0 0"] by (fastforce simp: sortable_def)
qed

section \<open>Properties\<close>

text \<open>
  With the naive index the query loop answers every query with a record that is
  nearest, if there are records, their coordinates are set, both numbers of each query can
  be read and no distance is NaN.
\<close>

theorem coord_queries_nearest:
  assumes "\<forall>line \<in> set (lines input). \<exists>x y. scan (c_str line) = Some (x, y) \<and> comparable F rs x y"
  shows "\<exists>out. coord_query_loop mk_naive_coord (lookup_naive_coord F) scan rs (length rs) input = Some out \<and>
    (\<forall>a \<in> set out. \<exists>x y r. a = Some ((x, y), Found r) \<and> nearest F rs x y r)"
  using naive_coord.loop_nearest [OF TrueI] assms by blast

theorem coord_queries_nearest_witness:
  "\<exists>out. coord_query_loop mk_naive_coord (lookup_naive_coord exact) (\<lambda>line. Some (real (length line), 0))
      [place_at 3 4, place_at 1 0] (length [place_at 3 4, place_at 1 0]) (''7'' @ [nl]) = Some out \<and>
    list_all (\<lambda>a. \<exists>x y r. a = Some ((x, y), Found r) \<and> nearest exact [place_at 3 4, place_at 1 0] x y r) out"
  using coord_queries_nearest [of "''7'' @ [nl]" "\<lambda>line. Some (real (length line), 0)" exact "[place_at 3 4, place_at 1 0]"]
  by (simp only: list_all_iff) (simp add: comparable_def)

text \<open>
  C24: \<^verbatim>\<open>generate_tree\<close> returns. With a \<^verbatim>\<open>qsort\<close> that keeps the contract of the C standard it
  permutes the array, and the tree is a balanced k-d tree over it: it points to each
  record once, from left to right in the order of the array, at each node no record of the
  left part comes after the node on the axis of its level and none of the right part
  before it, and it has at most 1 + log2 n levels. The only way not to get there are the
  calls of \<^verbatim>\<open>qsort\<close>, which are undefined (\<open>None\<close>) for a comparison that is not a consistent total
  preorder: there are none if \<^verbatim>\<open>compX\<close> and \<^verbatim>\<open>compY\<close> are consistent on the records, and the first
  is one if \<^verbatim>\<open>compX\<close> is not, as happens on coordinates with a fractional part
  (\<open>compX_no_preorder\<close>).
\<close>

theorem kdtree_covers_array:
  assumes "sorter qs" and "n \<le> length rs"
  shows "case mk_kdtree F qs rs n of
      None \<Rightarrow> 2 \<le> n \<and> \<not> (sortable (compX F) (set (take n rs)) \<and> sortable (compY F) (set (take n rs)))
    | Some (t, rs') \<Rightarrow> (2 \<le> n \<longrightarrow> sortable (compX F) (set (take n rs))) \<and> inorder t = [0..<n] \<and>
        mset (take n rs') = mset (take n rs) \<and> drop n rs' = drop n rs \<and> kd_ordered F rs' t \<and> 2 ^ height t \<le> max 1 (2 * n)"
proof (cases "mk_kdtree F qs rs n")
  case None
  then have g: "generate_tree F qs rs 0 0 n = None" by (simp add: mk_kdtree_def)
  have "2 \<le> n"
  proof (rule ccontr)
    assume "\<not> 2 \<le> n"
    then have "n = 0 \<or> n = 1" by auto
    then show False
      using g by (auto simp: generate_tree.simps sort_range_def qsort_call_def min_def split: if_splits)
  qed
  then show ?thesis
    using sorter.tree_defined [OF assms(1), of 0 n rs F 0] assms(2) g None range_set_take [of 0 n rs] by auto
next
  case (Some p)
  obtain t rs' where p: "p = (t, rs')" by (cases p)
  then have g: "generate_tree F qs rs 0 0 n = Some (t, rs')" using Some by (simp add: mk_kdtree_def)
  have c: "inorder t = [0..<n]" "permuted 0 n rs rs'"
    using sorter.tree_covers_range [OF assms(1) _ g] assms(2) by simp_all
  then have d: "drop n rs' = drop n rs" by (auto simp: permuted_def intro: nth_equalityI)
  have "mset (take n rs') + mset (drop n rs') = mset (take n rs) + mset (drop n rs)"
    using c(2) by (simp add: permuted_def flip: mset_append)
  then have "mset (take n rs') = mset (take n rs)" using d by simp
  moreover have "sortable (compX F) (set (take n rs))" if "2 \<le> n"
    using g that assms(2) by (subst (asm) generate_tree.simps)
      (auto simp: sort_range_def qsort_call_def Let_def split: if_splits Option.bind_splits)
  ultimately show ?thesis
    using Some p c(1) d sorter.tree_ordered [OF assms(1) _ g] sorter.tree_balanced [OF assms(1) g] assms(2) by simp
qed

theorem kdtree_covers_array_witness:
  "\<exists>t rs'. mk_kdtree exact qsort [place_at 3 4, place_at 1 0] 2 = Some (t, rs') \<and> inorder t = [0..<2] \<and>
    mset rs' = mset [place_at 3 4, place_at 1 0] \<and> kd_ordered exact rs' t"
proof -
  have x: "compX exact (place_at x y) (place_at x' y') = truncated (x - x')"
    "compY exact (place_at x y) (place_at x' y') = truncated (y - y')" for x y x' y'
    by (simp_all add: compX_def compY_def exact_def)
  have s: "sortable (compX exact) (set (take 2 [place_at 3 4, place_at 1 0]))"
    "sortable (compY exact) (set (take 2 [place_at 3 4, place_at 1 0]))"
    by (simp_all add: sortable_def consistent_def x truncated_def)
  have "case mk_kdtree exact qsort [place_at 3 4, place_at 1 0] 2 of
      None \<Rightarrow> 2 \<le> (2 :: nat) \<and> \<not> (sortable (compX exact) (set (take 2 [place_at 3 4, place_at 1 0])) \<and>
        sortable (compY exact) (set (take 2 [place_at 3 4, place_at 1 0])))
    | Some (t, rs') \<Rightarrow> (2 \<le> (2 :: nat) \<longrightarrow> sortable (compX exact) (set (take 2 [place_at 3 4, place_at 1 0]))) \<and> inorder t = [0..<2] \<and>
        mset (take 2 rs') = mset (take 2 [place_at 3 4, place_at 1 0]) \<and> drop 2 rs' = drop 2 [place_at 3 4, place_at 1 0] \<and>
        kd_ordered exact rs' t \<and> 2 ^ height t \<le> max 1 (2 * (2 :: nat))"
    by (rule kdtree_covers_array) (simp_all add: insertion_sort.sorter_axioms)
  then obtain t rs' where t: "mk_kdtree exact qsort [place_at 3 4, place_at 1 0] 2 = Some (t, rs')" "inorder t = [0..<2]"
      "mset (take 2 rs') = mset (take 2 [place_at 3 4, place_at 1 0])" "drop 2 rs' = drop 2 [place_at 3 4, place_at 1 0]"
      "kd_ordered exact rs' t"
    using s by (auto split: option.splits)
  have "rs' = take 2 rs'" using t(4) by (metis append_take_drop_id drop_all length_Cons list.size(3) numeral_2_eq_2 order_refl self_append_conv)
  then have "mset rs' = mset [place_at 3 4, place_at 1 0]" using t(3) by simp
  then show ?thesis using t(1,2,5) by blast
qed

text \<open>
  The second branch of \<^verbatim>\<open>kdtree_walk\<close> is an \<^verbatim>\<open>else if\<close>: even in exact arithmetic, a node
  that does not agree with the query on the other axis never has its right part searched,
  whatever records are there.
\<close>

theorem kdtree_ignores_right:
  assumes "if a = 0 then lat (rs ! i) \<noteq> y else lon (rs ! i) \<noteq> x"
  shows "kdtree_walk exact rs (Node i a l r) x y closest = kdtree_walk exact rs (Node i a l NULL) x y closest"
  using assms abs_less_sqrt(1) [of "lat (rs ! i) - y" "lon (rs ! i) - x"]
    abs_less_sqrt(2) [of "lon (rs ! i) - x" "lat (rs ! i) - y"]
  by (auto simp: Let_def exact_distance split: if_splits)

theorem kdtree_ignores_right_witness:
  "kdtree_walk exact [place_at (- 10) 0, place_at (- 3) 4, place_at 1 0]
     (Node 1 0 (Node 0 1 NULL NULL) (Node 2 1 NULL NULL)) 0 0 (place_at 1000 0) =
   kdtree_walk exact [place_at (- 10) 0, place_at (- 3) 4, place_at 1 0]
     (Node 1 0 (Node 0 1 NULL NULL) NULL) 0 0 (place_at 1000 0)"
  by (rule kdtree_ignores_right) simp

text \<open>With three records the answer is at distance 5, although there is one at distance 1.\<close>

lemma kdtree_not_nearest:
  defines "rs \<equiv> [place_at (- 10) 0, place_at (- 3) 4, place_at 1 0]"
  shows "map_option (\<lambda>index. lookup_kdtree exact (place_at 1000 0) index 0 0) (mk_kdtree exact qsort rs 3) = Some (Found (place_at (- 3) 4))"
    and "distance exact (Some (place_at (- 3) 4)) 0 0 = 5" and "distance exact (Some (place_at 1 0)) 0 0 = 1"
proof -
  have x: "compX exact (place_at x y) (place_at x' y') = truncated (x - x')" for x y x' y'
    by (simp add: compX_def exact_def)
  have s: "sortable (compX exact) (set rs)"
    by (simp add: sortable_def consistent_def x truncated_def rs_def)
  have "sort_range qsort (compX exact) 0 3 rs = Some rs"
    using s by (simp add: sort_range_def qsort_call_def rs_def x truncated_def)
  then have "mk_kdtree exact qsort rs 3 = Some (Node 1 0 (Node 0 1 NULL NULL) (Node 2 1 NULL NULL), rs)"
    by (simp add: mk_kdtree_def generate_tree.simps [of _ _ _ _ _ 3] generate_tree.simps [of _ _ _ _ _ "Suc 0"]
      generate_tree.simps [of _ _ _ _ _ 0] sort_range_def [of _ _ _ "Suc 0"] qsort_call_def rs_def)
  then show "map_option (\<lambda>index. lookup_kdtree exact (place_at 1000 0) index 0 0) (mk_kdtree exact qsort rs 3) = Some (Found (place_at (- 3) 4))"
    by (simp add: rs_def lookup_kdtree_def exact_distance Let_def)
qed (simp_all add: exact_distance)

text \<open>
  Moreover, \<^verbatim>\<open>lookup_kdtree\<close> compares with memory it has not initialised: if the record that happens
  to be there is not farther than any record of the file, and none has the coordinates of
  the query, this garbage is returned.
\<close>

theorem kdtree_returns_garbage:
  assumes "sorter qs" and "n \<le> length rs" and "mk_kdtree F qs rs n = Some index"
    and "\<forall>p \<in> set (take n rs). \<not> d_lt F (distance F (Some p) x y) (distance F (Some garbage) x y) \<and>
      \<not> (d_eq F (lat p) y \<and> d_eq F (lon p) x)"
  shows "lookup_kdtree F garbage index x y = Found garbage"
proof -
  obtain t rs' where i: "index = (t, rs')" by (cases index)
  then have g: "generate_tree F qs rs 0 0 n = Some (t, rs')" using assms(3) by (simp add: mk_kdtree_def)
  then have "inorder t = [0..<n]" "permuted 0 n rs rs'"
    using sorter.tree_covers_range [OF assms(1) _ g] assms(2) by simp_all
  then have "rs' ! j \<in> set (take n rs)" if "j \<in> set (inorder t)" for j
    using that range_set_permuted [of 0 n rs rs'] assms(2) range_set_take [of 0 n rs] by (force simp: range_set_def)
  then show ?thesis using i assms(4) by (simp add: lookup_kdtree_def kdtree_walk_unchanged)
qed

theorem kdtree_returns_garbage_witness:
  "\<exists>index. mk_kdtree exact qsort [place_at 3 4] 1 = Some index \<and>
    lookup_kdtree exact (place_at 0 0) index 1 1 = Found (place_at 0 0)"
proof -
  have "mk_kdtree exact qsort [place_at 3 4] 1 = Some (Node 0 0 NULL NULL, [place_at 3 4])"
    by (simp add: mk_kdtree_def generate_tree.simps sort_range_def qsort_call_def)
  moreover have "lookup_kdtree exact (place_at 0 0) (Node 0 0 NULL NULL, [place_at 3 4]) 1 1 = Found (place_at 0 0)"
    by (rule kdtree_returns_garbage [OF insertion_sort.sorter_axioms _ calculation]) (simp_all add: exact_distance)
  ultimately show ?thesis by blast
qed

end
