(* ===== verification/Place_Programs.thy ===== *)
theory Place_Programs
  imports Id_Query Coord_Query Tiny_Lib
begin

text \<open>
  The programs of \<^verbatim>\<open>A1\<close> as a whole: \<^verbatim>\<open>id_query_loop\<close> and \<^verbatim>\<open>coord_query_loop\<close> from the file of
  places and the lines of the standard input to the text they print, and the \<^verbatim>\<open>main\<close> functions
  that call them with an index each; \<^verbatim>\<open>random_ids.c\<close>, which prints identifiers for ever. The
  record \<open>world\<close> is what lies outside: the files, the input, the clock, what fresh memory holds,
  \<^verbatim>\<open>atof\<close> and the output format of \<^verbatim>\<open>double\<close>. \<open>None\<close> is undefined behaviour: printing the name or
  the coordinates of a record for which they were never set is a case of it.

  The lemmas show that the programs, whose arrays have elements behind the records, never
  use these, and that the answers are those of a search in the list of the records.
\<close>

section \<open>The query loops\<close>

record 'd world =
  places_file :: "string \<rightharpoonup> string"
  stdin :: string
  clock :: "nat \<Rightarrow> 64 word"
  fresh_place :: "'d place"
  read_double :: "string \<Rightarrow> 'd"
  show_double :: "'d \<Rightarrow> string"

text \<open>\<^verbatim>\<open>(int)runtime/1000\<close> and \<^verbatim>\<open>(int)runtime\<close> between two readings of the clock.\<close>

definition millis :: "'d world \<Rightarrow> nat \<Rightarrow> string" where
  "millis w k = print_signed (sint (ucast (clock w (k + 1) - clock w k) :: cint) sdiv 1000)"

definition micros :: "64 word \<Rightarrow> string" where
  "micros runtime = print_int (ucast runtime)"

text \<open>
  The answers with their times, from the \<open>k\<close>th reading of the clock on; \<open>None\<close> in the list is an
  answer that cannot be printed.
\<close>

fun query_texts :: "'d world \<Rightarrow> nat \<Rightarrow> 64 word \<Rightarrow> string option list \<Rightarrow> string option" where
  "query_texts w k runtime_sum [] = Some (''Total query runtime: '' @ micros runtime_sum @ ''us'' @ [nl])"
| "query_texts w k runtime_sum (a # as) =
     (let runtime = clock w (k + 1) - clock w k
      in Option.bind a (\<lambda>t.
         Option.bind (query_texts w (k + 2) (runtime_sum + runtime) as) (\<lambda>ts.
         Some (t @ ''Query time: '' @ micros runtime @ ''us'' @ [nl] @ ts))))"

definition report :: "'d world \<Rightarrow> string option list \<Rightarrow> string option" where
  "report w as =
     map_option (\<lambda>ts. ''Reading records: '' @ millis w 0 @ ''ms'' @ [nl] @
       ''Building index: '' @ millis w 2 @ ''ms'' @ [nl] @ ts) (query_texts w 4 0 as)"

text \<open>The exit code and the output of a loop, from the answers for the records of the file.\<close>

definition query_main :: "'d world \<Rightarrow> ('d places \<Rightarrow> nat \<Rightarrow> string option list option) \<Rightarrow> string list \<Rightarrow> (int \<times> string) option" where
  "query_main w answer_texts argv =
     (if length argv \<noteq> 2 then Some (1, [])
      else case read_records (read_double w) (fresh_place w) (places_file w (argv ! 1)) of
        Null_pointer \<Rightarrow> Some (1, [])
      | Out_of_bounds \<Rightarrow> None
      | Array rs n \<Rightarrow> map_option (\<lambda>out. (0, out)) (Option.bind (answer_texts rs n) (report w)))"

definition id_answer :: "'d world \<Rightarrow> 64 word \<times> 'd place answer \<Rightarrow> string option" where
  "id_answer w = (\<lambda>(needle, a).
     case a of Undefined_access \<Rightarrow> None
     | Found r \<Rightarrow>
         if has_coords r
         then Some (print_signed (sint needle) @ '': '' @ name r @ '' '' @ show_double w (lon r) @ '' '' @
           show_double w (lat r) @ [nl])
         else None
     | Not_found \<Rightarrow> Some (print_signed (sint needle) @ '': not found'' @ [nl]))"

definition id_query_main ::
    "('d places \<Rightarrow> nat \<Rightarrow> 'i option) \<Rightarrow> ('i \<Rightarrow> 64 word \<Rightarrow> 'd place answer) \<Rightarrow> 'd world \<Rightarrow> string list \<Rightarrow> (int \<times> string) option" where
  "id_query_main mk_index lookup w =
     query_main w (\<lambda>rs n. map_option (map (id_answer w)) (id_query_loop mk_index lookup rs n (stdin w)))"

definition coord_answer :: "'d world \<Rightarrow> (('d \<times> 'd) \<times> 'd place answer) option \<Rightarrow> string option" where
  "coord_answer w q =
     Option.bind q (\<lambda>((x, y), a).
     case a of Undefined_access \<Rightarrow> None
     | Found r \<Rightarrow>
         if has_coords r
         then Some (''('' @ show_double w x @ '','' @ show_double w y @ ''): '' @ name r @ '' ('' @
           show_double w (lon r) @ '','' @ show_double w (lat r) @ '')'' @ [nl])
         else None
     | Not_found \<Rightarrow> Some (''('' @ show_double w x @ '','' @ show_double w y @ ''): not found'' @ [nl]))"

definition coord_query_main ::
    "('d places \<Rightarrow> nat \<Rightarrow> 'i option) \<Rightarrow> ('i \<Rightarrow> 'd \<Rightarrow> 'd \<Rightarrow> 'd place answer) \<Rightarrow> (string \<Rightarrow> ('d \<times> 'd) option) \<Rightarrow>
     'd world \<Rightarrow> string list \<Rightarrow> (int \<times> string) option" where
  "coord_query_main mk_index lookup scan w =
     query_main w (\<lambda>rs n. map_option (map (coord_answer w)) (coord_query_loop mk_index lookup scan rs n (stdin w)))"

section \<open>The programs\<close>

definition id_query_naive :: "'d world \<Rightarrow> string list \<Rightarrow> (int \<times> string) option" where
  "id_query_naive = id_query_main mk_naive lookup_naive"

definition id_query_indexed :: "'d world \<Rightarrow> string list \<Rightarrow> (int \<times> string) option" where
  "id_query_indexed = id_query_main mk_indexed lookup_indexed"

definition id_query_binsort :: "'d world \<Rightarrow> string list \<Rightarrow> (int \<times> string) option" where
  "id_query_binsort = id_query_main mk_binsort lookup_binsort"

definition coord_query_naive ::
    "'d arith \<Rightarrow> (string \<Rightarrow> ('d \<times> 'd) option) \<Rightarrow> 'd world \<Rightarrow> string list \<Rightarrow> (int \<times> string) option" where
  "coord_query_naive F = coord_query_main mk_naive_coord (lookup_naive_coord F)"

definition coord_query_kdtree ::
    "'d arith \<Rightarrow> 'd place qsort_fn \<Rightarrow> (string \<Rightarrow> ('d \<times> 'd) option) \<Rightarrow> 'd world \<Rightarrow> string list \<Rightarrow> (int \<times> string) option" where
  "coord_query_kdtree F qs scan w =
     coord_query_main (mk_kdtree F qs) (lookup_kdtree F ((fresh_place w)\<lparr>set_columns := 0\<rparr>)) scan w"

section \<open>Random identifiers\<close>

text \<open>
  The loop of \<^verbatim>\<open>random_ids.c\<close> from its \<open>k\<close>th iteration on: \<open>r k\<close> is the value of \<^verbatim>\<open>rand()\<close>, \<open>printf k t\<close>
  what \<^verbatim>\<open>printf\<close> returns for the text \<open>t\<close>. \<open>None\<close>: the program does not end; \<open>Inl ()\<close>: undefined
  behaviour; otherwise its exit code.
\<close>

definition random_id :: "(nat \<Rightarrow> nat) \<Rightarrow> 'd places \<Rightarrow> nat \<Rightarrow> nat \<Rightarrow> string option" where
  "random_id r rs n k =
     (let p = rs ! (r k mod n) in if has_id p then Some (print_signed (sint (osm_id p)) @ [nl]) else None)"

partial_function (option) random_loop :: "(nat \<Rightarrow> string \<Rightarrow> cint) \<Rightarrow> (nat \<Rightarrow> string option) \<Rightarrow> nat \<Rightarrow> (unit + int) option" where
  "random_loop printf text k =
     (case text k of None \<Rightarrow> Some (Inl ())
      | Some t \<Rightarrow> if printf k t = 0 then Some (Inr 0) else random_loop printf text (k + 1))"

definition random_ids_main ::
    "'d world \<Rightarrow> (nat \<Rightarrow> string \<Rightarrow> cint) \<Rightarrow> (nat \<Rightarrow> nat) \<Rightarrow> string list \<Rightarrow> (unit + int) option" where
  "random_ids_main w printf r argv =
     (if length argv \<noteq> 2 then Some (if length argv < 2 then Inl () else Inr 1)
      else case read_records (read_double w) (fresh_place w) (places_file w (argv ! 1)) of
        Null_pointer \<Rightarrow> Some (Inr 1)
      | Out_of_bounds \<Rightarrow> Some (Inl ())
      | Array rs n \<Rightarrow> if n = 0 then Some (Inl ()) else random_loop printf (random_id r rs n) 0)"

section \<open>Answers\<close>

text \<open>The records of a file in the order of its lines, and the first of them with an identifier.\<close>

definition records :: "'d world \<Rightarrow> string \<Rightarrow> 'd places" where
  "records w f = map (parse (read_double w) (fresh_place w)) (lines (snd (split_line f)))"

definition first_with :: "'d places \<Rightarrow> 64 word \<Rightarrow> 'd place answer" where
  "first_with rs needle = (case List.find (\<lambda>r. osm_id r = needle) rs of None \<Rightarrow> Not_found | Some r \<Rightarrow> Found r)"

lemma answers_first_with:
  assumes "answers rs needle a" and "distinct (map osm_id rs)"
  shows "a = first_with rs needle"
proof (cases "List.find (\<lambda>r. osm_id r = needle) rs")
  case None
  then have "\<forall>r \<in> set rs. osm_id r \<noteq> needle" by (simp add: find_None_iff)
  then show ?thesis using assms(1) by (auto simp: answers_def first_with_def None split: answer.splits)
next
  case (Some q)
  then have q: "q \<in> set rs" "osm_id q = needle" by (auto simp: find_Some_iff)
  have "inj_on osm_id (set rs)" using assms(2) by (simp add: distinct_map)
  have "a = Found q"
  proof (cases a)
    case (Found r)
    then have "r \<in> set rs" "osm_id r = osm_id q" using assms(1) q(2) by (simp_all add: answers_def)
    then show ?thesis using \<open>inj_on osm_id (set rs)\<close> q(1) Found by (simp add: inj_on_eq_iff)
  qed (use assms(1) q in \<open>auto simp: answers_def\<close>)
  then show ?thesis by (simp add: first_with_def Some)
qed

text \<open>The array that is read from a file: the element behind the records was never set.\<close>

lemma records_array:
  assumes "places_file w path = Some f" "f = [] \<or> fst (split_line f) = header" "length (records w f) < 1677721600"
  obtains rs where "read_records (read_double w) (fresh_place w) (places_file w path) = Array rs (length (records w f))"
    "take (length (records w f)) rs = records w f" "length (records w f) < length rs" "\<not> has_id (rs ! length (records w f))"
proof -
  have n: "length (lines (snd (split_line f))) = length (records w f)" by (simp add: records_def)
  show ?thesis
    using that read_records_array [OF assms(2), of "read_double w" "fresh_place w"] assms(1,3) unfolding n
    by (fastforce simp: records_def has_id_def)
qed

text \<open>The text of the answers to the queries, as a search in the list of the records gives them.\<close>

definition id_answers :: "'d world \<Rightarrow> string \<Rightarrow> string option list" where
  "id_answers w f =
     map (\<lambda>line. id_answer w (atol (c_str line), first_with (records w f) (atol (c_str line)))) (lines (stdin w))"

text \<open>A program whose index answers as a search in the list of the records.\<close>

lemma id_query_main_spec:
  assumes "places_file w path = Some f" "f = [] \<or> fst (split_line f) = header" "length (records w f) < 1677721600"
    and "distinct (map osm_id (records w f))"
    and "\<And>rs n. take n rs = records w f \<Longrightarrow> n < length rs \<Longrightarrow> \<not> has_id (rs ! n) \<Longrightarrow>
      \<exists>index. mk_index rs n = Some index \<and> (\<forall>line \<in> set (lines (stdin w)).
        answers (take n rs) (atol (c_str line)) (lookup index (atol (c_str line))))"
  shows "id_query_main mk_index lookup w [prog, path] = map_option (\<lambda>out. (0, out)) (report w (id_answers w f))"
proof -
  let ?n = "length (records w f)"
  obtain rs where rs: "read_records (read_double w) (fresh_place w) (places_file w path) = Array rs ?n"
    "take ?n rs = records w f" "?n < length rs" "\<not> has_id (rs ! ?n)"
    using records_array [OF assms(1-3)] by blast
  obtain index where index: "mk_index rs ?n = Some index"
    "\<And>line. line \<in> set (lines (stdin w)) \<Longrightarrow> answers (records w f) (atol (c_str line)) (lookup index (atol (c_str line)))"
    using assms(5) [OF rs(2-4)] unfolding rs(2) by blast
  have "lookup index (atol (c_str line)) = first_with (records w f) (atol (c_str line))" if "line \<in> set (lines (stdin w))" for line
    using answers_first_with [OF index(2) [OF that] assms(4)] .
  then have "map_option (map (id_answer w)) (id_query_loop mk_index lookup rs ?n (stdin w)) = Some (id_answers w f)"
    by (simp add: id_query_loop_def index(1) id_answers_def)
  then show ?thesis using rs(1) unfolding id_query_main_def query_main_def by (simp del: map_option_eq_Some)
qed

lemma query_texts_defined: "None \<notin> set as \<Longrightarrow> \<exists>t. query_texts w k s as = Some t"
proof (induction as arbitrary: k s)
  case (Cons a as)
  then obtain t where "a = Some t" by (cases a) auto
  moreover obtain u where "query_texts w (k + 2) (s + (clock w (k + 1) - clock w k)) as = Some u"
    using Cons by fastforce
  ultimately show ?case by (simp add: Let_def)
qed simp

lemma report_defined: "None \<notin> set as \<Longrightarrow> \<exists>out. report w as = Some out"
  using query_texts_defined [of as w 4 0] by (auto simp: report_def)

lemma first_with_defined: "first_with rs needle \<noteq> Undefined_access"
  by (auto simp: first_with_def split: option.splits)

lemma id_answers_defined:
  assumes "list_all has_coords (records w f)"
  shows "None \<notin> set (id_answers w f)"
proof -
  have "has_coords r" if "first_with (records w f) needle = Found r" for needle r
    using that assms by (auto simp: first_with_def find_Some_iff list_all_iff split: option.splits)
  then have "id_answer w (needle, first_with (records w f) needle) \<noteq> None" for needle
    by (cases "first_with (records w f) needle") (simp_all add: id_answer_def first_with_defined)
  then show ?thesis by (auto simp: id_answers_def) (metis option.distinct(1))
qed

lemma coords_ids: "list_all has_coords rs \<Longrightarrow> ids_set rs"
  by (auto simp: ids_set_def list_all_iff has_coords_def has_id_def)

section \<open>Coordinates\<close>

text \<open>Elements behind the records make no difference to the naive search.\<close>

lemma closest_from_cong:
  "(\<And>j. j < i + k \<Longrightarrow> d j = d' j) \<Longrightarrow> closest_from lt d i k c x = closest_from lt d' i k c x"
  by (induction k arbitrary: i c x) auto

lemma closest_from_less: "c < i + k \<Longrightarrow> closest_from lt d i k c x < i + k"
proof (induction k arbitrary: i c x)
  case (Suc k)
  show ?case using Suc.IH [of i "i + 1"] Suc.IH [of c "i + 1"] Suc.prems by auto
qed simp

lemma lookup_naive_coord_take:
  assumes "0 < n" "n \<le> length rs" "mk_naive_coord rs n = Some index" "mk_naive_coord (take n rs) n = Some index'"
  shows "lookup_naive_coord F index x y = lookup_naive_coord F index' x y"
proof -
  let ?d = "\<lambda>rs i. distance F (Some (rs ! i)) x y"
  have n: "1 + (n - 1) = n" "max 1 n = n" using assms(1) by simp_all
  have "closest_from (d_lt F) (?d rs) 1 (n - 1) 0 v = closest_from (d_lt F) (?d (take n rs)) 1 (n - 1) 0 v" for v
    by (rule closest_from_cong) (use assms(1) in auto)
  moreover have "closest_from (d_lt F) (?d rs) 1 (n - 1) 0 v < n" for v
    using closest_from_less [of 0 1 "n - 1"] n assms(1) by metis
  ultimately show ?thesis using assms n(2) by (auto simp: lookup_naive_coord_def mk_naive_coord_def Let_def)
qed

section \<open>The loop that does not end\<close>

lemma random_loop_ends:
  "\<exists>j. text j = None \<or> (\<exists>t. text j = Some t \<and> printf j t = 0)" if "random_loop printf text k = Some y"
  by (rule random_loop.raw_induct [where P = "\<lambda>printf text k y. \<exists>j. text j = None \<or> (\<exists>t. text j = Some t \<and> printf j t = 0)", OF _ that])
    (auto split: option.splits if_splits)

section \<open>The three programs\<close>

lemma id_programs_spec:
  assumes "places_file w path = Some f" and "f = [] \<or> fst (split_line f) = header"
    and "length (records w f) < 1677721600" and "list_all has_coords (records w f)"
    and "distinct (map osm_id (records w f))" and "close_ids (records w f)"
    and "\<forall>line \<in> set (lines (stdin w)). \<exists>r \<in> set (records w f). sint (atol (c_str line)) \<le> id_of r"
  shows "\<exists>out. report w (id_answers w f) = Some out \<and>
    id_query_naive w [prog, path] = Some (0, out) \<and> id_query_indexed w [prog, path] = Some (0, out) \<and>
    id_query_binsort w [prog, path] = Some (0, out)"
proof -
  note spec = id_query_main_spec [OF assms(1-3,5), where prog = prog]
  note set = coords_ids [OF assms(4)]
  obtain out where "report w (id_answers w f) = Some out"
    using report_defined id_answers_defined [OF assms(4)] by blast
  moreover have "id_query_naive w [prog, path] = map_option (\<lambda>out. (0, out)) (report w (id_answers w f))"
    unfolding id_query_naive_def
  proof (rule spec)
    fix rs :: "'a places" and n
    assume rs: "take n rs = records w f" "n < length rs"
    show "\<exists>index. mk_naive rs n = Some index \<and> (\<forall>line \<in> set (lines (stdin w)).
        answers (take n rs) (atol (c_str line)) (lookup_naive index (atol (c_str line))))"
      using lookup_naive_answers [of n rs] rs set by (auto simp: mk_naive_def)
  qed
  moreover have "id_query_indexed w [prog, path] = map_option (\<lambda>out. (0, out)) (report w (id_answers w f))"
    unfolding id_query_indexed_def
  proof (rule spec)
    fix rs :: "'a places" and n
    assume rs: "take n rs = records w f" "n < length rs"
    obtain index where i: "mk_indexed rs n = Some index" using rs(2) by (simp add: mk_indexed_def)
    have "answers (take n rs) needle (lookup_indexed index needle)" for needle
      using lookup_indexed_naive [of n rs needle] lookup_naive_answers [of n rs needle] rs set i by auto
    then show "\<exists>index. mk_indexed rs n = Some index \<and> (\<forall>line \<in> set (lines (stdin w)).
        answers (take n rs) (atol (c_str line)) (lookup_indexed index (atol (c_str line))))"
      using i by blast
  qed
  moreover have "id_query_binsort w [prog, path] = map_option (\<lambda>out. (0, out)) (report w (id_answers w f))"
    unfolding id_query_binsort_def
  proof (rule spec)
    fix rs :: "'a places" and n
    assume rs: "take n rs = records w f" "n < length rs" "\<not> has_id (rs ! n)"
    have q: "close_ids (take n rs)" "ids_set (take n rs)" using rs(1) assms(6) set by simp_all
    obtain index where i: "mk_binsort rs n = Some index" using mk_binsort_sorts [OF q] by simp
    have "answers (take n rs) (atol (c_str line)) (lookup_binsort index (atol (c_str line)))" if "line \<in> set (lines (stdin w))" for line
    proof -
      have "\<not> (\<forall>r \<in> set (take n rs). id_of r < sint (atol (c_str line)))"
        using assms(7) that rs(1) by (metis not_less)
      then show ?thesis using lookup_binsort_longer [OF q rs(2,3), of "atol (c_str line)"] i by auto
    qed
    then show "\<exists>index. mk_binsort rs n = Some index \<and> (\<forall>line \<in> set (lines (stdin w)).
        answers (take n rs) (atol (c_str line)) (lookup_binsort index (atol (c_str line))))"
      using i by blast
  qed
  ultimately show ?thesis by simp
qed

text \<open>A file with one record of eight columns, and two queries.\<close>

abbreviation small_columns :: "string list" where
  "small_columns \<equiv> [''Oslo'', [], [], ''42'', [], [], ''1'', ''22'']"

abbreviation small_line :: string where "small_line \<equiv> row small_columns [nl]"

definition small_world :: "nat world" where
  "small_world = \<lparr>places_file = [''places'' \<mapsto> header @ small_line],
     stdin = ''42'' @ nl # ''7'', clock = (\<lambda>k. of_nat k), fresh_place = blank_place, read_double = digits,
     show_double = decimal\<rparr>"

lemma split_header: "split_line (header @ xs) = (header, xs)"
proof -
  obtain h where h: "header = h @ [nl]" "nl \<notin> set h"
    by (rule that [of "butlast header"]) (simp_all add: header_def butlast_append)
  have "split_line ((h @ [nl]) @ xs) = (h @ [nl], xs)" using split_line_line [OF h(2), of xs] by simp
  then show ?thesis using h(1) by simp
qed

lemma small_line_lines: "lines small_line = [small_line]"
  by (simp add: lines.simps [of "_ # _"] lines.simps [of "[]"] getline_def)

lemma small_line_parse:
  "parse atof r small_line = r\<lparr>name := ''Oslo'', alternative_names := [], osm_type := [], osm_id := 42, p_class := [], p_type := [],
     lon := atof (row [''1'', ''22''] [nl]), lat := atof (row [''22''] [nl]), p_line := small_line, set_columns := 8\<rparr>"
proof -
  have len: "length small_columns = length (take 8 (stores atof))" by (simp add: stores_def)
  have "fold field (take 8 (stores atof) @ drop 8 (stores atof)) (r\<lparr>p_line := small_line, set_columns := 0\<rparr>, small_line) =
      fold field (drop 8 (stores atof)) (fill (take 8 (stores atof)) small_columns [nl] (r\<lparr>p_line := small_line, set_columns := 0\<rparr>), [nl])"
    by (rule fold_fields [OF len]) (simp_all add: column_ok_def)
  then have "parse atof r small_line = fill (take 8 (stores atof)) small_columns [nl] (r\<lparr>p_line := small_line, set_columns := 0\<rparr>)"
    unfolding parse_def append_take_drop_id by (simp add: fold_field_last)
  moreover have "atol (row (drop 3 small_columns) [nl]) = 42"
    using strtol_column [of "''42''"] by (simp add: atol_def blank_column_def is_space_def) (simp add: strtol_def is_space_def is_digit_def)
  ultimately show ?thesis by (simp add: stores_def)
qed

abbreviation small_place :: "nat place" where
  "small_place \<equiv> blank_place\<lparr>name := ''Oslo'', osm_id := 42, lon := 1, lat := 2, p_line := small_line, set_columns := 8\<rparr>"

lemma small_records: "records small_world (header @ small_line) = [small_place]"
proof -
  have "parse digits blank_place small_line = small_place"
    unfolding small_line_parse by (simp add: blank_place_def digits_def is_digit_def)
  then show ?thesis unfolding records_def split_header snd_conv small_line_lines
    by (simp only: list.map small_world_def world.simps)
qed

lemma small_input: "lines (stdin small_world) = [''42'' @ [nl], ''7'']" "atol (c_str (''42'' @ [nl])) = 42" "atol (c_str ''7'') = 7"
  by (simp_all add: small_world_def lines.simps [of "_ # _"] lines.simps [of "[]"] getline_def c_str_def
      atol_def strtol_def is_space_def is_digit_def)

lemma small_place_simps: "has_coords small_place" "osm_id small_place = 42" "id_of small_place = 42"
  by (simp_all add: has_coords_def id_of_def)

lemma small_ok:
  "places_file small_world ''places'' = Some (header @ small_line)"
  "header @ small_line = [] \<or> fst (split_line (header @ small_line)) = header"
  "length (records small_world (header @ small_line)) < 1677721600"
  "list_all has_coords (records small_world (header @ small_line))"
  "distinct (map osm_id (records small_world (header @ small_line)))"
  "close_ids (records small_world (header @ small_line))"
  "\<forall>line \<in> set (lines (stdin small_world)). \<exists>r \<in> set (records small_world (header @ small_line)). sint (atol (c_str line)) \<le> id_of r"
proof -
  show "places_file small_world ''places'' = Some (header @ small_line)" by (simp only: small_world_def world.simps) simp
  show "header @ small_line = [] \<or> fst (split_line (header @ small_line)) = header" unfolding split_header by simp
  show "length (records small_world (header @ small_line)) < 1677721600" unfolding small_records by simp
  show "list_all has_coords (records small_world (header @ small_line))"
    unfolding small_records by (simp only: list.pred_inject small_place_simps simp_thms)
  show "distinct (map osm_id (records small_world (header @ small_line)))" unfolding small_records by simp
  show "close_ids (records small_world (header @ small_line))" unfolding small_records by (simp add: close_ids_def)
  show "\<forall>line \<in> set (lines (stdin small_world)). \<exists>r \<in> set (records small_world (header @ small_line)). sint (atol (c_str line)) \<le> id_of r"
    unfolding small_records small_input(1) using small_input(2,3) small_place_simps(3) by (simp only: list.set ball_simps bex_simps) simp
qed

text \<open>What these programs print, with a clock that advances by one at each reading.\<close>

lemma small_output:
  "id_query_binsort small_world [prog, ''places''] = Some (0,
     ''Reading records: 0ms'' @ nl # ''Building index: 0ms'' @ nl # ''42: Oslo 1 2'' @ nl # ''Query time: 1us'' @ nl #
     ''7: not found'' @ nl # ''Query time: 1us'' @ nl # ''Total query runtime: 2us'' @ [nl])"
proof -
  have t: "millis small_world k = ''0''" "clock small_world (k + 1) - clock small_world k = 1"
      "micros 1 = ''1''" "micros 2 = ''2''" for k
    by (simp_all add: millis_def micros_def small_world_def signed_divide_int_def print_int_def print_signed_def decimal.simps char_of_def bit_0)
  have a: "id_answer small_world (42, first_with [small_place] 42) = Some (''42: Oslo 1 2'' @ [nl])"
    "id_answer small_world (7, first_with [small_place] 7) = Some (''7: not found'' @ [nl])"
    by (simp_all add: id_answer_def first_with_def has_coords_def print_signed_def decimal.simps char_of_def bit_0 small_world_def)
  have "report small_world (id_answers small_world (header @ small_line)) =
    Some (''Reading records: 0ms'' @ nl # ''Building index: 0ms'' @ nl # ''42: Oslo 1 2'' @ nl # ''Query time: 1us'' @ nl #
     ''7: not found'' @ nl # ''Query time: 1us'' @ nl # ''Total query runtime: 2us'' @ [nl])"
    unfolding id_answers_def small_records small_input list.map a report_def
    by (simp add: Let_def t(1,3,4) t(2) [of 4, simplified] t(2) [of 6, simplified])
  then show ?thesis using id_programs_spec [OF small_ok, of prog] by auto
qed

section \<open>Properties\<close>

text \<open>
  C23: the three programs that look up identifiers print the same text and exit with 0 for every
  readable file in the format and every input, if every row sets name, identifier and
  coordinates, the identifiers are distinct, their differences fit into 31 bits, and no
  identifier that is asked for is above all of them: for each line the first record with
  the identifier, or that there is none. (The file has fewer than 1677721600 rows.)
\<close>

theorem id_programs_agree:
  assumes "places_file w path = Some f" and "f = [] \<or> fst (split_line f) = header"
    and "length (records w f) < 1677721600" and "list_all has_coords (records w f)"
    and "distinct (map osm_id (records w f))" and "close_ids (records w f)"
    and "\<forall>line \<in> set (lines (stdin w)). \<exists>r \<in> set (records w f). sint (atol (c_str line)) \<le> id_of r"
  shows "\<exists>out. report w (id_answers w f) = Some out \<and>
    id_query_naive w [prog, path] = Some (0, out) \<and> id_query_indexed w [prog, path] = Some (0, out) \<and>
    id_query_binsort w [prog, path] = Some (0, out)"
  using assms by (rule id_programs_spec)

theorem id_programs_agree_witness:
  "\<exists>out. report small_world (id_answers small_world (header @ small_line)) = Some out \<and>
    id_query_naive small_world [''id_query'', ''places''] = Some (0, out) \<and>
    id_query_indexed small_world [''id_query'', ''places''] = Some (0, out) \<and>
    id_query_binsort small_world [''id_query'', ''places''] = Some (0, out)"
  by (rule id_programs_agree [OF small_ok])

text \<open>
  \<^verbatim>\<open>random_ids\<close> never ends as long as \<^verbatim>\<open>printf\<close> does not return 0, which it never does for a text that
  is not empty: not even when it reports an error, because the output was closed. Without
  records the remainder is taken by zero.
\<close>

theorem random_ids_never_ends:
  assumes "places_file w path = Some f" and "f = [] \<or> fst (split_line f) = header"
    and "length (records w f) < 1677721600" and "ids_set (records w f)"
    and "\<And>k t. t \<noteq> [] \<Longrightarrow> printf k t \<noteq> 0"
  shows "random_ids_main w printf r [prog, path] = (if records w f = [] then Some (Inl ()) else None)"
proof -
  let ?n = "length (records w f)"
  obtain rs where rs: "read_records (read_double w) (fresh_place w) (places_file w path) = Array rs ?n"
    "take ?n rs = records w f" "?n < length rs"
    using records_array [OF assms(1-3)] by blast
  have "random_loop printf (random_id r rs ?n) 0 = None" if "records w f \<noteq> []"
  proof (rule ccontr)
    assume "random_loop printf (random_id r rs ?n) 0 \<noteq> None"
    then obtain j where j: "random_id r rs ?n j = None \<or> (\<exists>t. random_id r rs ?n j = Some t \<and> printf j t = 0)"
      using random_loop_ends by blast
    have "r j mod ?n < ?n" using that by simp
    then have "has_id (rs ! (r j mod ?n))" using ids_set_nth [OF assms(4)] rs(2) by (metis nth_take)
    then show False using j assms(5) by (auto simp: random_id_def Let_def)
  qed
  then show ?thesis using rs(1) by (simp add: random_ids_main_def)
qed

text \<open>
  C25: for a file in the format with at least one row, in which every row sets name and
  coordinates, and an input each of whose lines gives two numbers with comparable
  distances to all records (no NaN), the program with the naive index exits with 0 and
  prints for each line a record of the file such that no other is nearer. (The file has
  fewer than 1677721600 rows.)
\<close>

theorem coord_program_prints_nearest:
  assumes "places_file w path = Some f" and "f = [] \<or> fst (split_line f) = header"
    and "length (records w f) < 1677721600"
    and "\<forall>line \<in> set (lines (stdin w)). \<exists>x y. scan (c_str line) = Some (x, y) \<and> comparable F (records w f) x y"
    and "records w f \<noteq> []"
  shows "\<exists>qs out. coord_query_naive F scan w [prog, path] = Some (0, out) \<and>
    report w (map (\<lambda>(x, y, r). coord_answer w (Some ((x, y), Found r))) qs) = Some out \<and>
    list_all2 (\<lambda>line (x, y, r). scan (c_str line) = Some (x, y) \<and> nearest F (records w f) x y r) (lines (stdin w)) qs"
proof -
  let ?n = "length (records w f)" and ?ls = "lines (stdin w)"
  obtain a where a: "read_records (read_double w) (fresh_place w) (places_file w path) = Array a ?n"
    "take ?n a = records w f" "?n < length a"
    using records_array [OF assms(1-3)] by blast
  obtain index index' where i: "mk_naive_coord a ?n = Some index" "mk_naive_coord (take ?n a) ?n = Some index'"
    by (simp add: mk_naive_coord_def)
  have "\<exists>q. case q of (x, y, r) \<Rightarrow> scan (c_str line) = Some (x, y) \<and> lookup_naive_coord F index x y = Found r \<and>
      nearest F (records w f) x y r" if "line \<in> set ?ls" for line
  proof -
    from assms(4) that have "\<exists>x y. scan (c_str line) = Some (x, y) \<and> comparable F (records w f) x y" by blast
    then obtain x y where xy: "scan (c_str line) = Some (x, y)" "comparable F (records w f) x y" by blast
    obtain r where "lookup_naive_coord F index' x y = Found r" "nearest F (records w f) x y r"
      using naive_coord.lookup [OF i(2) [unfolded a(2)] xy(2)] by blast
    moreover have "lookup_naive_coord F index x y = lookup_naive_coord F index' x y"
      using lookup_naive_coord_take [OF _ _ i] assms(5) a(3) by simp
    ultimately show ?thesis using xy(1) by auto
  qed
  then have "\<forall>line \<in> set ?ls. \<exists>q. case q of (x, y, r) \<Rightarrow> scan (c_str line) = Some (x, y) \<and>
      lookup_naive_coord F index x y = Found r \<and> nearest F (records w f) x y r" by (rule ballI)
  from bchoice [OF this] obtain q where "\<forall>line \<in> set ?ls. case q line of (x, y, r) \<Rightarrow> scan (c_str line) = Some (x, y) \<and>
      lookup_naive_coord F index x y = Found r \<and> nearest F (records w f) x y r" by (elim exE)
  then have q: "case q line of (x, y, r) \<Rightarrow> scan (c_str line) = Some (x, y) \<and>
      lookup_naive_coord F index x y = Found r \<and> nearest F (records w f) x y r" if "line \<in> set ?ls" for line
    using that by (rule bspec)
  let ?as = "map (\<lambda>(x, y, r). coord_answer w (Some ((x, y), Found r))) (map q ?ls)"
  have "map_option (\<lambda>(x, y). ((x, y), lookup_naive_coord F index x y)) (scan (c_str line)) =
      (case q line of (x, y, r) \<Rightarrow> Some ((x, y), Found r))" if "line \<in> set ?ls" for line
    using q [OF that] by (cases "q line") auto
  then have "map (\<lambda>line. map_option (\<lambda>(x, y). ((x, y), lookup_naive_coord F index x y)) (scan (c_str line))) ?ls =
      map (\<lambda>line. case q line of (x, y, r) \<Rightarrow> Some ((x, y), Found r)) ?ls" by simp
  then have "coord_query_loop mk_naive_coord (lookup_naive_coord F) scan a ?n (stdin w) =
      Some (map (\<lambda>line. case q line of (x, y, r) \<Rightarrow> Some ((x, y), Found r)) ?ls)"
    unfolding coord_query_loop_def i(1) by (simp only: option.map)
  moreover have "map (coord_answer w) (map (\<lambda>line. case q line of (x, y, r) \<Rightarrow> Some ((x, y), Found r)) ?ls) = ?as"
    by (simp add: split_beta)
  moreover have "has_coords r" if "line \<in> set ?ls" "q line = (x, y, r)" for line x y r
    using q [OF that(1)] that assms(4) by (fastforce simp: nearest_def comparable_def list_all_iff)
  then have "None \<notin> set ?as" by (fastforce simp: coord_answer_def split: prod.splits if_splits)
  then obtain out where out: "report w ?as = Some out" using report_defined by blast
  ultimately have "coord_query_naive F scan w [prog, path] = Some (0, out)"
    using a(1) unfolding coord_query_naive_def coord_query_main_def query_main_def by (simp del: map_map)
  moreover have "list_all2 (\<lambda>line (x, y, r). scan (c_str line) = Some (x, y) \<and> nearest F (records w f) x y r) ?ls (map q ?ls)"
    unfolding list_all2_map2 by (intro list_all2_same [THEN iffD2] ballI, drule q) (auto split: prod.splits)
  ultimately show ?thesis using out by blast
qed

text \<open>Exact arithmetic; a number is as many as it has digits.\<close>

definition unary_world :: "real world" where
  "unary_world = \<lparr>places_file = [''places'' \<mapsto> header @ small_line], stdin = ''42'' @ [nl], clock = (\<lambda>k. 0),
     fresh_place = place_at 7 7, read_double = (\<lambda>s. real (digits s)), show_double = (\<lambda>x. ''?'')\<rparr>"

theorem coord_program_prints_nearest_witness:
  "\<exists>qs out. coord_query_naive exact (\<lambda>line. Some (real (length line), 0)) unary_world [''coord_query_naive'', ''places''] = Some (0, out) \<and>
    report unary_world (map (\<lambda>(x, y, r). coord_answer unary_world (Some ((x, y), Found r))) qs) = Some out \<and>
    list_all2 (\<lambda>line (x, y, r). Some (real (length (c_str line)), 0) = Some (x, y) \<and>
      nearest exact (records unary_world (header @ small_line)) x y r) (lines (stdin unary_world)) qs"
proof (rule coord_program_prints_nearest)
  have rec: "\<exists>p. records unary_world (header @ small_line) = [p] \<and> has_coords p"
    unfolding records_def split_header snd_conv small_line_lines list.map small_line_parse
    by (intro exI conjI, rule refl) (simp add: has_coords_def)
  show "places_file unary_world ''places'' = Some (header @ small_line)" by (simp only: unary_world_def world.simps) simp
  show "header @ small_line = [] \<or> fst (split_line (header @ small_line)) = header" unfolding split_header by simp
  show "length (records unary_world (header @ small_line)) < 1677721600" "records unary_world (header @ small_line) \<noteq> []"
    using rec by auto
  show "\<forall>line \<in> set (lines (stdin unary_world)). \<exists>x y. Some (real (length (c_str line)), 0 :: real) = Some (x, y) \<and>
      comparable exact (records unary_world (header @ small_line)) x y"
    using rec by (auto simp: comparable_def)
qed

end
