(* ===== verification/Sha256.thy ===== *)
theory Sha256
  imports Prelude
begin

text \<open>
  The hash function of \<^verbatim>\<open>A3/src/sha256.c\<close> (the same file as \<^verbatim>\<open>A4/src/sha256.c\<close>), compiled for
  a little-endian machine with the default macros: \<^verbatim>\<open>SHA256_UNROLL\<close> is 4, and neither
  \<^verbatim>\<open>SHA256_FAST_COPY\<close> nor \<^verbatim>\<open>RUNTIME_ENDIAN\<close> is defined. \<open>Sha256_Builds\<close> holds the other
  builds. The context is a record with the
  fields of the source; the union \<^verbatim>\<open>buffer\<close> is its list of 64 bytes, and its words are read
  from it least significant byte first. \<open>None\<close> is an access outside the buffer or the data.

  The lemmas show that the code computes the hash of FIPS 180-4 of the concatenation of
  all data passed to \<^verbatim>\<open>sha256_update\<close>, however it is split: the schedule and the unrolled
  rounds against the standard's, the invariant of the buffer, and the padding.
\<close>

section \<open>Functions on words\<close>

definition ROTL :: "cint \<Rightarrow> nat \<Rightarrow> cint" where
  "ROTL x n = push_bit n x OR drop_bit (32 - n) x"

definition ROTR :: "cint \<Rightarrow> nat \<Rightarrow> cint" where
  "ROTR x n = drop_bit n x OR push_bit (32 - n) x"

definition Ch :: "cint \<Rightarrow> cint \<Rightarrow> cint \<Rightarrow> cint" where
  "Ch x y z = z XOR (x AND (y XOR z))"

definition Maj :: "cint \<Rightarrow> cint \<Rightarrow> cint \<Rightarrow> cint" where
  "Maj x y z = (x AND (y OR z)) OR (y AND z)"

definition SIGMA0 :: "cint \<Rightarrow> cint" where
  "SIGMA0 x = ROTR x 2 XOR ROTR x 13 XOR ROTR x 22"

definition SIGMA1 :: "cint \<Rightarrow> cint" where
  "SIGMA1 x = ROTR x 6 XOR ROTR x 11 XOR ROTR x 25"

definition sigma0 :: "cint \<Rightarrow> cint" where
  "sigma0 x = ROTR x 7 XOR ROTR x 18 XOR drop_bit 3 x"

definition sigma1 :: "cint \<Rightarrow> cint" where
  "sigma1 x = ROTR x 17 XOR ROTR x 19 XOR drop_bit 10 x"

definition BYTESWAP :: "cint \<Rightarrow> cint" where
  "BYTESWAP x = (ROTR x 8 AND 0xff00ff00) OR (ROTL x 8 AND 0x00ff00ff)"

definition BYTESWAP64 :: "64 word \<Rightarrow> 64 word" where
  "BYTESWAP64 x =
     (let a = ucast (drop_bit 32 x); b = ucast x
      in push_bit 32 (ucast (BYTESWAP b)) OR ucast (BYTESWAP a))"

text \<open>The table, in the rows of the source.\<close>

definition K :: "cint list" where
  "K = concat
   [[0x428a2f98, 0x71374491, 0xb5c0fbcf, 0xe9b5dba5],
    [0x3956c25b, 0x59f111f1, 0x923f82a4, 0xab1c5ed5],
    [0xd807aa98, 0x12835b01, 0x243185be, 0x550c7dc3],
    [0x72be5d74, 0x80deb1fe, 0x9bdc06a7, 0xc19bf174],
    [0xe49b69c1, 0xefbe4786, 0x0fc19dc6, 0x240ca1cc],
    [0x2de92c6f, 0x4a7484aa, 0x5cb0a9dc, 0x76f988da],
    [0x983e5152, 0xa831c66d, 0xb00327c8, 0xbf597fc7],
    [0xc6e00bf3, 0xd5a79147, 0x06ca6351, 0x14292967],
    [0x27b70a85, 0x2e1b2138, 0x4d2c6dfc, 0x53380d13],
    [0x650a7354, 0x766a0abb, 0x81c2c92e, 0x92722c85],
    [0xa2bfe8a1, 0xa81a664b, 0xc24b8b70, 0xc76c51a3],
    [0xd192e819, 0xd6990624, 0xf40e3585, 0x106aa070],
    [0x19a4c116, 0x1e376c08, 0x2748774c, 0x34b0bcb5],
    [0x391c0cb3, 0x4ed8aa4a, 0x5b9cca4f, 0x682e6ff3],
    [0x748f82ee, 0x78a5636f, 0x84c87814, 0x8cc70208],
    [0x90befffa, 0xa4506ceb, 0xbef9a3f7, 0xc67178f2]]"

definition padding :: "byte list" where
  "padding = 0x80 # replicate 63 0"

section \<open>The context\<close>

record sha256 =
  totalLength :: "64 word"
  hash :: "cint list"
  bufferLength :: cint
  buffer :: "byte list"

text \<open>\<open>garbage\<close> is what the buffer holds before the first byte is copied into it.\<close>

definition sha256_init :: "byte list \<Rightarrow> sha256" where
  "sha256_init garbage =
     \<lparr>totalLength = 0,
      hash = [0x6a09e667, 0xbb67ae85, 0x3c6ef372, 0xa54ff53a,
              0x510e527f, 0x9b05688c, 0x1f83d9ab, 0x5be0cd19],
      bufferLength = 0, buffer = garbage\<rparr>"

text \<open>The member \<^verbatim>\<open>words\<close> of the union.\<close>

fun buffer_words :: "byte list \<Rightarrow> cint list" where
  "buffer_words (b0 # b1 # b2 # b3 # bs) = le_word b0 b1 b2 b3 # buffer_words bs"
| "buffer_words _ = []"

section \<open>Compression of a block\<close>

type_synonym regs = "cint \<times> cint \<times> cint \<times> cint \<times> cint \<times> cint \<times> cint \<times> cint"

definition DO_ROUND :: "cint \<Rightarrow> cint \<Rightarrow> regs \<Rightarrow> regs" where
  "DO_ROUND k w = (\<lambda>(a, b, c, d, e, f, g, h).
     (let t1 = h + SIGMA1 e + Ch e f g + k + w;
          t2 = SIGMA0 a + Maj a b c;
          h = g; g = f; f = e; e = d + t1; d = c; c = b; b = a; a = t1 + t2
      in (a, b, c, d, e, f, g, h)))"

text \<open>
  The schedule: each of the 48 further words is made of the words at \<^verbatim>\<open>W2\<close>, \<^verbatim>\<open>W7\<close>, \<^verbatim>\<open>W15\<close> and
  \<^verbatim>\<open>W16\<close>, which stay 2, 7, 15 and 16 places behind \<^verbatim>\<open>W\<close>, the end of the list.
\<close>

primrec expand :: "nat \<Rightarrow> cint list \<Rightarrow> cint list" where
  "expand 0 W = W"
| "expand (Suc i) W =
     (let t = length W
      in expand i (W @ [sigma1 (W ! (t - 2)) + W ! (t - 7) + sigma0 (W ! (t - 15)) + W ! (t - 16)]))"

definition schedule :: "cint list \<Rightarrow> cint list" where
  "schedule cbuf = expand 48 (map BYTESWAP cbuf)"

text \<open>The loop with its four rounds, the pointers \<^verbatim>\<open>Kp\<close> and \<^verbatim>\<open>W\<close> as the rest of the lists.\<close>

fun rounds :: "cint list \<Rightarrow> cint list \<Rightarrow> regs \<Rightarrow> regs" where
  "rounds (k0 # k1 # k2 # k3 # Kp) (w0 # w1 # w2 # w3 # W) r =
     rounds Kp W (DO_ROUND k3 w3 (DO_ROUND k2 w2 (DO_ROUND k1 w1 (DO_ROUND k0 w0 r))))"
| "rounds Kp W r = r"

definition SHA256Guts :: "sha256 \<Rightarrow> cint list \<Rightarrow> sha256" where
  "SHA256Guts sc cbuf =
     (let H = hash sc;
          (a, b, c, d, e, f, g, h) = rounds K (schedule cbuf)
            (H ! 0, H ! 1, H ! 2, H ! 3, H ! 4, H ! 5, H ! 6, H ! 7)
      in sc\<lparr>hash := [H ! 0 + a, H ! 1 + b, H ! 2 + c, H ! 3 + d,
                     H ! 4 + e, H ! 5 + f, H ! 6 + g, H ! 7 + h]\<rparr>)"

section \<open>Update and final\<close>

definition copy_at :: "byte list \<Rightarrow> nat \<Rightarrow> byte list \<Rightarrow> byte list" where
  "copy_at buf i src = take i buf @ src @ drop (i + length src) buf"

text \<open>The loop of \<^verbatim>\<open>sha256_update\<close>; \<open>data\<close> is the memory from the pointer on.\<close>

function sha256_update :: "sha256 \<Rightarrow> byte list \<Rightarrow> cint \<Rightarrow> sha256 option" where
  "sha256_update sc data len =
     (if len = 0 then Some sc
      else let bufferBytesLeft = 64 - bufferLength sc;
               bytesToCopy = (if bufferBytesLeft > len then len else bufferBytesLeft);
               n = unat bytesToCopy
           in if 64 < unat (bufferLength sc) + n \<or> length data < n then None
              else let sc = sc\<lparr>buffer := copy_at (buffer sc) (unat (bufferLength sc)) (take n data),
                     totalLength := totalLength sc + ucast bytesToCopy * 8,
                     bufferLength := bufferLength sc + bytesToCopy\<rparr>
              in sha256_update
                   (if bufferLength sc = 64
                    then (SHA256Guts sc (buffer_words (buffer sc)))\<lparr>bufferLength := 0\<rparr> else sc)
                   (drop n data) (len - bytesToCopy))"
  by pat_completeness auto

termination
proof (relation "measure (\<lambda>(sc, _, len). 2 * unat len + (if bufferLength sc = 64 then 1 else 0))")
  fix sc :: sha256 and data :: "byte list" and len left toCopy n sc'
  assume len: "len \<noteq> 0" and left: "left = 64 - bufferLength sc"
    and toCopy: "toCopy = (if left > len then len else left)" and n: "n = unat toCopy"
    and sc': "sc' = sc\<lparr>buffer := copy_at (buffer sc) (unat (bufferLength sc)) (take n data),
        totalLength := totalLength sc + ucast toCopy * 8, bufferLength := bufferLength sc + toCopy\<rparr>"
  have le: "toCopy \<le> len" using toCopy by auto
  have sub: "unat (len - toCopy) = unat len - unat toCopy" using le by (rule unat_sub)
  show "((if bufferLength sc' = 64 then (SHA256Guts sc' (buffer_words (buffer sc')))\<lparr>bufferLength := 0\<rparr> else sc',
      drop n data, len - toCopy), sc, data, len)
    \<in> measure (\<lambda>(sc, _, len). 2 * unat len + (if bufferLength sc = 64 then 1 else 0))"
  proof (cases "toCopy = 0")
    case True
    then have "bufferLength sc = 64" using len left toCopy by (auto split: if_splits)
    then show ?thesis using True by (simp add: sc')
  next
    case False
    then have "0 < unat toCopy" "unat toCopy \<le> unat len"
      using le by (auto simp: unat_gt_0 word_le_nat_alt)
    then show ?thesis using sub by (auto simp: sc')
  qed
qed simp

declare sha256_update.simps [simp del]

text \<open>The eight bytes of \<^verbatim>\<open>lengthPad\<close> in memory.\<close>

definition bytes_of_64 :: "64 word \<Rightarrow> byte list" where
  "bytes_of_64 x = map (\<lambda>i. ucast (drop_bit (8 * i) x)) [0..<8]"

definition digest_bytes :: "cint list \<Rightarrow> byte list" where
  "digest_bytes hs =
     concat (map (\<lambda>h. [ucast (drop_bit 24 h), ucast (drop_bit 16 h), ucast (drop_bit 8 h), ucast h]) hs)"

text \<open>The 32 bytes that \<^verbatim>\<open>sha256_final\<close> stores in \<^verbatim>\<open>hash\<close>.\<close>

definition sha256_final :: "sha256 \<Rightarrow> byte list option" where
  "sha256_final sc =
     (let bytesToPad = 120 - bufferLength sc;
          bytesToPad = (if bytesToPad > 64 then bytesToPad - 64 else bytesToPad);
          lengthPad = BYTESWAP64 (totalLength sc)
      in Option.bind (sha256_update sc padding bytesToPad) (\<lambda>sc.
         Option.bind (sha256_update sc (bytes_of_64 lengthPad) 8) (\<lambda>sc.
         Some (digest_bytes (hash sc)))))"

section \<open>The standard\<close>

text \<open>FIPS 180-4, sections 4 to 6, over bytes.\<close>

definition fips_Ch :: "cint \<Rightarrow> cint \<Rightarrow> cint \<Rightarrow> cint" where
  "fips_Ch x y z = (x AND y) XOR (NOT x AND z)"

definition fips_Maj :: "cint \<Rightarrow> cint \<Rightarrow> cint \<Rightarrow> cint" where
  "fips_Maj x y z = (x AND y) XOR (x AND z) XOR (y AND z)"

definition fips_Sigma0 :: "cint \<Rightarrow> cint" where
  "fips_Sigma0 x = word_rotr 2 x XOR word_rotr 13 x XOR word_rotr 22 x"

definition fips_Sigma1 :: "cint \<Rightarrow> cint" where
  "fips_Sigma1 x = word_rotr 6 x XOR word_rotr 11 x XOR word_rotr 25 x"

definition fips_sigma0 :: "cint \<Rightarrow> cint" where
  "fips_sigma0 x = word_rotr 7 x XOR word_rotr 18 x XOR drop_bit 3 x"

definition fips_sigma1 :: "cint \<Rightarrow> cint" where
  "fips_sigma1 x = word_rotr 17 x XOR word_rotr 19 x XOR drop_bit 10 x"

text \<open>The words of a block, most significant byte first, and its message schedule.\<close>

fun be_words :: "byte list \<Rightarrow> cint list" where
  "be_words (b0 # b1 # b2 # b3 # bs) = le_word b3 b2 b1 b0 # be_words bs"
| "be_words _ = []"

fun fips_W :: "cint list \<Rightarrow> nat \<Rightarrow> cint" where
  "fips_W M t =
     (if t < 16 then M ! t
      else fips_sigma1 (fips_W M (t - 2)) + fips_W M (t - 7) + fips_sigma0 (fips_W M (t - 15)) +
        fips_W M (t - 16))"

declare fips_W.simps [simp del]

definition fips_round :: "cint \<Rightarrow> cint \<Rightarrow> regs \<Rightarrow> regs" where
  "fips_round k w = (\<lambda>(a, b, c, d, e, f, g, h).
     (let T1 = h + fips_Sigma1 e + fips_Ch e f g + k + w; T2 = fips_Sigma0 a + fips_Maj a b c
      in (T1 + T2, a, b, c, d + T1, e, f, g)))"

definition fips_compress :: "byte list \<Rightarrow> cint list \<Rightarrow> cint list" where
  "fips_compress block H =
     (let M = be_words block;
          (a, b, c, d, e, f, g, h) = fold (\<lambda>t. fips_round (K ! t) (fips_W M t)) [0..<64]
            (H ! 0, H ! 1, H ! 2, H ! 3, H ! 4, H ! 5, H ! 6, H ! 7)
      in map2 (+) H [a, b, c, d, e, f, g, h])"

text \<open>The blocks of 64 bytes, as many as there are.\<close>

function blocks :: "byte list \<Rightarrow> byte list list" where
  "blocks m = (if length m < 64 then [] else take 64 m # blocks (drop 64 m))"
  by pat_completeness auto
termination by (relation "measure length") auto

declare blocks.simps [simp del]

definition fips_pad :: "byte list \<Rightarrow> byte list" where
  "fips_pad m = m @ 0x80 # replicate ((119 - length m mod 64) mod 64) 0 @
     rev (bytes_of_64 (of_nat (8 * length m)))"

definition fips_H0 :: "cint list" where
  "fips_H0 = [0x6a09e667, 0xbb67ae85, 0x3c6ef372, 0xa54ff53a, 0x510e527f, 0x9b05688c, 0x1f83d9ab, 0x5be0cd19]"

definition fips_hash :: "byte list \<Rightarrow> cint list" where
  "fips_hash m = fold fips_compress (blocks (fips_pad m)) fips_H0"

section \<open>The functions on words are the standard's\<close>

lemma ROTR_eq: "0 < n \<Longrightarrow> n < 32 \<Longrightarrow> ROTR x n = word_rotr n x"
proof (rule bit_word_eqI)
  fix k assume n: "0 < n" "n < 32" and k: "k < LENGTH(32)"
  have "(n + k) mod 32 = (if n + k < 32 then n + k else n + k - 32)"
    using n k by (simp add: mod_if)
  then show "bit (ROTR x n) k = bit (word_rotr n x) k"
    using n k by (auto simp: ROTR_def bit_simps ac_simps)
qed

lemma word_functions:
  "Ch x y z = fips_Ch x y z" "Maj x y z = fips_Maj x y z"
  "SIGMA0 x = fips_Sigma0 x" "SIGMA1 x = fips_Sigma1 x"
  "sigma0 x = fips_sigma0 x" "sigma1 x = fips_sigma1 x"
proof -
  show "Ch x y z = fips_Ch x y z" "Maj x y z = fips_Maj x y z"
    by (rule word32_eqI; auto simp: Ch_def fips_Ch_def Maj_def fips_Maj_def bit_simps)+
qed (simp_all add: SIGMA0_def fips_Sigma0_def SIGMA1_def fips_Sigma1_def sigma0_def fips_sigma0_def
  sigma1_def fips_sigma1_def ROTR_eq)

lemma DO_ROUND_eq: "DO_ROUND k w = fips_round k w"
  by (simp add: fun_eq_iff DO_ROUND_def fips_round_def word_functions Let_def)

lemma BYTESWAP_le_word: "BYTESWAP (le_word b0 b1 b2 b3) = le_word b3 b2 b1 b0"
  by (rule word32_eqI) (simp add: BYTESWAP_def ROTR_def ROTL_def le_word_def all_less_32 bit_simps)

lemma BYTESWAP_bytes:
  "BYTESWAP x = le_word (byte_of 3 x) (byte_of 2 x) (byte_of 1 x) (byte_of 0 x)"
  using BYTESWAP_le_word [of "byte_of 0 x" "byte_of 1 x" "byte_of 2 x" "byte_of 3 x"]
  by (simp add: byte_simps)

lemma be_words_eq: "map BYTESWAP (buffer_words bs) = be_words bs"
  by (induction bs rule: buffer_words.induct) (simp_all add: BYTESWAP_le_word)

lemma length_be_words: "length (be_words bs) = length bs div 4"
  by (induction bs rule: be_words.induct) simp_all

section \<open>The schedule and the rounds\<close>

lemma expand_W:
  "16 \<le> length W \<Longrightarrow> \<forall>t<length W. W ! t = fips_W M t \<Longrightarrow>
   length (expand i W) = length W + i \<and> (\<forall>t<length W + i. expand i W ! t = fips_W M t)"
proof (induction i arbitrary: W)
  case (Suc i)
  let ?n = "length W"
  let ?W = "W @ [sigma1 (W ! (?n - 2)) + W ! (?n - 7) + sigma0 (W ! (?n - 15)) + W ! (?n - 16)]"
  have "\<forall>t<length ?W. ?W ! t = fips_W M t"
    using Suc.prems by (auto simp: nth_append fips_W.simps [of M ?n] word_functions less_Suc_eq)
  then show ?case using Suc.IH [of ?W] Suc.prems(1) by (auto simp: Let_def)
qed simp

lemma schedule_W:
  assumes "length block = 64"
  shows "schedule (buffer_words block) = map (fips_W (be_words block)) [0..<64]"
proof -
  have "length (be_words block) = 16" using assms by (simp add: length_be_words)
  then show ?thesis
    using expand_W [of "be_words block" "be_words block" 48]
    by (intro nth_equalityI) (simp_all add: schedule_def be_words_eq fips_W.simps [of "be_words block"])
qed

lemma rounds_fold:
  "length ks = length ws \<Longrightarrow> length ks mod 4 = 0 \<Longrightarrow>
   rounds ks ws r = fold (\<lambda>(k, w). fips_round k w) (zip ks ws) r"
proof (induction ks ws r rule: rounds.induct)
  case 1
  then show ?case by (simp add: DO_ROUND_eq)
qed (auto simp: mod_Suc split: if_splits)

lemma zip_map_upt: "length ks = n \<Longrightarrow> zip ks (map f [0..<n]) = map (\<lambda>t. (ks ! t, f t)) [0..<n]"
  by (rule nth_equalityI) simp_all

lemma length_K: "length K = 64"
  by (simp add: K_def)

lemma SHA256Guts_eq:
  assumes "length block = 64" and "length (hash sc) = 8"
  shows "SHA256Guts sc (buffer_words block) = sc\<lparr>hash := fips_compress block (hash sc)\<rparr>"
proof -
  let ?H = "hash sc"
  have H: "?H = [?H ! 0, ?H ! 1, ?H ! 2, ?H ! 3, ?H ! 4, ?H ! 5, ?H ! 6, ?H ! 7]"
    using assms(2) by (intro nth_equalityI) (auto simp: less_Suc_eq numeral_nat)
  have r: "rounds K (schedule (buffer_words block)) r =
      fold (\<lambda>t. fips_round (K ! t) (fips_W (be_words block) t)) [0..<64] r" for r
    by (simp add: schedule_W [OF assms(1)] rounds_fold length_K zip_map_upt fold_map comp_def)
  show ?thesis
    unfolding SHA256Guts_def fips_compress_def r Let_def
    by (subst (9) H) (simp split: prod.split)
qed

section \<open>The data in blocks\<close>

text \<open>The bytes after the last full block.\<close>

definition rest :: "byte list \<Rightarrow> byte list" where
  "rest m = drop (64 * (length m div 64)) m"

lemma length_rest: "length (rest m) = length m mod 64"
  by (simp add: rest_def minus_mult_div_eq_mod)

lemma rest_short [simp]: "length m < 64 \<Longrightarrow> rest m = m"
  by (simp add: rest_def)

lemma rest_drop: "64 \<le> length m \<Longrightarrow> rest (drop 64 m) = rest m"
  by (simp add: rest_def) (metis add.commute le_div_geq mult_Suc_right zero_less_numeral)

lemma blocks_short [simp]: "length m < 64 \<Longrightarrow> blocks m = []"
  by (simp add: blocks.simps)

lemma blocks_block: "length b = 64 \<Longrightarrow> blocks b = [b]"
  by (simp add: blocks.simps [of b])

lemma blocks_rest_append: "blocks (m @ x) = blocks m @ blocks (rest m @ x) \<and> rest (m @ x) = rest (rest m @ x)"
proof (induction m rule: blocks.induct)
  case (1 m)
  show ?case
  proof (cases "length m < 64")
    case False
    then show ?thesis
      using "1.IH" blocks.simps [of "m @ x"] blocks.simps [of m] rest_drop [of "m @ x"] rest_drop [of m]
      by simp
  qed simp
qed

section \<open>The invariant of the context\<close>

text \<open>The context after \<^verbatim>\<open>sha256_init\<close> and updates with the data \<open>m\<close> in all.\<close>

definition holds :: "sha256 \<Rightarrow> byte list \<Rightarrow> bool" where
  "holds sc m \<longleftrightarrow>
     length (hash sc) = 8 \<and> length (buffer sc) = 64 \<and>
     unat (bufferLength sc) = length (rest m) \<and> take (length (rest m)) (buffer sc) = rest m \<and>
     hash sc = fold fips_compress (blocks m) fips_H0 \<and> totalLength sc = of_nat (8 * length m)"

lemma holds_init: "length garbage = 64 \<Longrightarrow> holds (sha256_init garbage) []"
  by (simp add: holds_def sha256_init_def fips_H0_def)

lemma length_fips_compress: "length H = 8 \<Longrightarrow> length (fips_compress b H) = 8"
  by (simp add: fips_compress_def Let_def split: prod.split)

text \<open>One copy into the buffer, with the compression if it is full then.\<close>

lemma holds_copy:
  assumes h: "holds sc m" and len: "unat (bufferLength sc) + length src \<le> 64"
    and c: "unat c = length src"
    and sc': "sc' = sc\<lparr>buffer := copy_at (buffer sc) (unat (bufferLength sc)) src,
      totalLength := totalLength sc + ucast c * 8, bufferLength := bufferLength sc + c\<rparr>"
  shows "holds (if bufferLength sc' = 64 then (SHA256Guts sc' (buffer_words (buffer sc')))\<lparr>bufferLength := 0\<rparr>
    else sc') (m @ src)"
proof -
  let ?r = "rest m"
  have r: "length (buffer sc) = 64" "length (hash sc) = 8" "take (length ?r) (buffer sc) = ?r"
      "unat (bufferLength sc) = length ?r" "length ?r + length src \<le> 64"
    using h len unfolding holds_def by metis+
  have take: "take (length ?r + length src) (buffer sc') = ?r @ src" "length (buffer sc') = 64"
    using r by (simp_all add: sc' copy_at_def)
  have total: "totalLength sc' = of_nat (8 * length (m @ src))"
    using h c by (simp add: sc' holds_def unsigned_ucast_eq algebra_simps flip: c)
  have bl: "unat (bufferLength sc') = length ?r + length src"
    using r c by (simp add: sc' unat_word_ariths)
  show ?thesis
  proof (cases "length ?r + length src = 64")
    case True
    then have "bufferLength sc' = 64" using bl by (simp add: word_unat_eq_iff)
    moreover have "buffer sc' = ?r @ src" using take True by simp
    ultimately show ?thesis
      using h r True total take(2) blocks_rest_append [of m src] blocks_block [of "?r @ src"]
        SHA256Guts_eq [of "?r @ src" sc'] length_fips_compress
      by (simp add: holds_def sc' rest_def [of "?r @ src"])
  next
    case False
    then have "bufferLength sc' \<noteq> 64" using bl by auto
    moreover have "rest (m @ src) = ?r @ src" "blocks (m @ src) = blocks m"
      using False r(5) blocks_rest_append [of m src] by simp_all
    ultimately show ?thesis
      using h r total take bl by (simp add: holds_def) (simp add: sc')
  qed
qed

lemma update_holds:
  "holds sc m \<Longrightarrow> unat len \<le> length data \<Longrightarrow>
   \<exists>sc'. sha256_update sc data len = Some sc' \<and> holds sc' (m @ take (unat len) data)"
proof (induction sc data len arbitrary: m rule: sha256_update.induct)
  case (1 sc data len)
  show ?case
  proof (cases "len = 0")
    case True
    then show ?thesis using "1.prems" by (simp add: sha256_update.simps)
  next
    case False
    define left where "left = 64 - bufferLength sc"
    define c where "c = (if left > len then len else left)"
    define sc' where "sc' = sc\<lparr>buffer := copy_at (buffer sc) (unat (bufferLength sc)) (take (unat c) data),
      totalLength := totalLength sc + ucast c * 8, bufferLength := bufferLength sc + c\<rparr>"
    let ?next = "if bufferLength sc' = 64
      then (SHA256Guts sc' (buffer_words (buffer sc')))\<lparr>bufferLength := 0\<rparr> else sc'"
    have bl: "unat (bufferLength sc) < 64" using "1.prems"(1) by (simp add: holds_def length_rest)
    then have left: "unat left = 64 - unat (bufferLength sc)"
      by (simp add: left_def unat_sub word_le_nat_alt)
    have c: "unat c \<le> unat len" "unat c \<le> unat left"
      by (auto simp: c_def word_le_nat_alt word_less_nat_alt)
    then have fits: "unat (bufferLength sc) + unat c \<le> 64" "unat c \<le> length data"
      using left bl "1.prems"(2) by auto
    have "holds ?next (m @ take (unat c) data)"
      by (rule holds_copy [OF "1.prems"(1) _ _ sc'_def]) (use fits in auto)
    moreover have "unat (len - c) = unat len - unat c" using c(1) by (intro unat_sub) (simp add: word_le_nat_alt)
    moreover have "take (unat c) data @ take (unat len - unat c) (drop (unat c) data) = take (unat len) data"
      using c(1) by (metis le_add_diff_inverse take_add)
    ultimately obtain s where "sha256_update ?next (drop (unat c) data) (len - c) = Some s"
        "holds s (m @ take (unat len) data)"
      using "1.IH" [OF False left_def c_def refl _ sc'_def, of "m @ take (unat c) data"] fits diff_le_mono [OF "1.prems"(2)]
      by auto
    moreover have "sha256_update sc data len =
        (if 64 < unat (bufferLength sc) + unat c \<or> length data < unat c then None
         else sha256_update ?next (drop (unat c) data) (len - c))"
      by (subst sha256_update.simps) (simp only: False if_False Let_def c_def left_def sc'_def)
    ultimately show ?thesis using fits by auto
  qed
qed

section \<open>The padding\<close>

lemma bytes_of_64_BYTESWAP64: "bytes_of_64 (BYTESWAP64 x) = rev (bytes_of_64 x)"
proof -
  have "\<forall>i<8. ucast (drop_bit (8 * i) (BYTESWAP64 x)) = (ucast (drop_bit (56 - 8 * i) x) :: byte)"
    unfolding all_less_8
    by (intro conjI; rule word8_eqI; simp add: BYTESWAP64_def BYTESWAP_bytes Let_def le_word_def byte_of_def
      all_less_8 bit_simps)
  then have byte: "ucast (drop_bit (8 * i) (BYTESWAP64 x)) = (ucast (drop_bit (56 - 8 * i) x) :: byte)"
    if "i < 8" for i using that by blast
  have nth: "bytes_of_64 y ! i = ucast (drop_bit (8 * i) y)" if "i < 8" for i y
    unfolding bytes_of_64_def using that by (subst nth_map) (simp_all only: nth_upt length_upt, simp_all)
  have len: "length (bytes_of_64 y) = 8" for y by (simp add: bytes_of_64_def)
  show ?thesis
    by (rule nth_equalityI) (simp_all add: len nth byte rev_nth diff_mult_distrib2)
qed

lemma length_bytes_of_64 [simp]: "length (bytes_of_64 x) = 8"
  by (simp add: bytes_of_64_def)

definition pad_length :: "cint \<Rightarrow> cint" where
  "pad_length b = (let p = 120 - b in if p > 64 then p - 64 else p)"

lemma unat_pad_length:
  assumes "unat b = r" and "r < 64"
  shows "unat (pad_length b) = Suc ((119 - r) mod 64)"
proof -
  have p: "unat (120 - b) = 120 - r"
    using assms by (simp add: unat_sub word_le_nat_alt)
  show ?thesis
  proof (cases "r < 56")
    case True
    then have "119 - r = 55 - r + 64" by simp
    then have "(119 - r) mod 64 = 55 - r" using True by (simp only: mod_add_self2) simp
    moreover have "unat (120 - b - 64) = 56 - r" "64 < 120 - b"
      using p assms(1) True by (simp_all add: unat_sub word_le_nat_alt word_less_nat_alt)
    ultimately show ?thesis using True by (simp add: pad_length_def)
  next
    case False
    then have "\<not> 64 < 120 - b" using p by (simp add: word_less_nat_alt)
    then show ?thesis using False p assms(2) by (simp add: pad_length_def)
  qed
qed

lemma final_holds:
  assumes "holds sc m"
  shows "sha256_final sc = Some (digest_bytes (fips_hash m))"
proof -
  define p where "p = pad_length (bufferLength sc)"
  define z where "z = (119 - length m mod 64) mod 64"
  define lengthPad where "lengthPad = bytes_of_64 (BYTESWAP64 (totalLength sc))"
  have z: "z < 64" by (simp add: z_def)
  have p: "unat p = Suc z"
    unfolding p_def z_def by (rule unat_pad_length) (use assms in \<open>simp_all add: holds_def length_rest\<close>)
  have pad: "take (Suc z) padding = 0x80 # replicate z 0" "length padding = 64"
    using z by (simp_all add: padding_def min_def)
  have l: "lengthPad = rev (bytes_of_64 (of_nat (8 * length m)))" "length lengthPad = 8"
    using assms by (simp_all add: lengthPad_def holds_def bytes_of_64_BYTESWAP64)
  obtain s where s: "sha256_update sc padding p = Some s" "holds s (m @ 0x80 # replicate z 0)"
    using update_holds [OF assms, of p padding] z unfolding p pad by auto
  obtain s' where s': "sha256_update s lengthPad 8 = Some s'" "holds s' (fips_pad m)"
    using update_holds [OF s(2), of 8 lengthPad] l by (auto simp: fips_pad_def z_def)
  have "sha256_final sc = Option.bind (sha256_update sc padding p) (\<lambda>sc.
      Option.bind (sha256_update sc lengthPad 8) (\<lambda>sc. Some (digest_bytes (hash sc))))"
    by (simp add: sha256_final_def p_def pad_length_def lengthPad_def Let_def)
  then show ?thesis using s s' by (simp add: holds_def fips_hash_def)
qed

section \<open>Properties\<close>

text \<open>A sequence of updates, each with all of its data.\<close>

primrec updates :: "byte list list \<Rightarrow> sha256 \<Rightarrow> sha256 option" where
  "updates [] sc = Some sc"
| "updates (data # ds) sc = Option.bind (sha256_update sc data (of_nat (length data))) (updates ds)"

lemma updates_holds:
  "holds sc m \<Longrightarrow> \<forall>data \<in> set ds. length data < 2 ^ 32 \<Longrightarrow>
   \<exists>sc'. updates ds sc = Some sc' \<and> holds sc' (m @ concat ds)"
proof (induction ds arbitrary: sc m)
  case (Cons data ds)
  then have "unat (of_nat (length data) :: cint) = length data"
    by (simp add: unat_of_nat)
  then obtain s where "sha256_update sc data (of_nat (length data)) = Some s" "holds s (m @ data)"
    using update_holds [OF Cons.prems(1), of "of_nat (length data)" data] by auto
  then show ?case using Cons.IH [of s "m @ data"] Cons.prems(2) by simp
qed simp

text \<open>
  C8: for every way of splitting a message into updates the code returns the hash of
  FIPS 180-4 of the whole message, and no update or padding leaves the buffer.
\<close>

theorem sha256_is_fips:
  assumes "length garbage = 64" and "\<forall>data \<in> set ds. length data < 2 ^ 32"
  shows "Option.bind (updates ds (sha256_init garbage)) sha256_final =
    Some (digest_bytes (fips_hash (concat ds)))"
  using updates_holds [OF holds_init [OF assms(1)] assms(2)] final_holds by auto

theorem sha256_is_fips_witness:
  "Option.bind (updates [[0x61], [0x62, 0x63]] (sha256_init (replicate 64 0))) sha256_final =
    Some (digest_bytes (fips_hash (concat [[0x61], [0x62, 0x63]])))"
  by (rule sha256_is_fips) simp_all

end
