(* ===== verification/Sha256_Builds.thy ===== *)
theory Sha256_Builds
  imports Sha256
begin

text \<open>
  The other builds of \<^verbatim>\<open>A3/src/sha256.c\<close>, which its macros choose between: the byte order fixed
  when compiling (\<^verbatim>\<open>WORDS_BIGENDIAN\<close>) or found out when running (\<^verbatim>\<open>RUNTIME_ENDIAN\<close>), on a
  machine of either byte order (\<open>big\<close>); copying and compressing in larger steps
  (\<^verbatim>\<open>SHA256_FAST_COPY\<close>); and the number of rounds in a step of the loop (\<^verbatim>\<open>SHA256_UNROLL\<close>).
  The test program (\<^verbatim>\<open>SHA256_TEST\<close>) is here too.

  The lemmas carry the invariant of \<open>Sha256\<close> over to every build, so that all of them compute
  the hash of the standard.
\<close>

section \<open>The macros\<close>

datatype endian_macros = WORDS_BIGENDIAN bool | RUNTIME_ENDIAN

record build =
  endian :: endian_macros
  fast_copy :: bool
  unroll :: nat

section \<open>Byte order\<close>

text \<open>A word in memory, and the words in a piece of memory, on a machine of either order.\<close>

definition word_bytes :: "bool \<Rightarrow> cint \<Rightarrow> byte list" where
  "word_bytes big w = (let bs = [byte_of 0 w, byte_of 1 w, byte_of 2 w, byte_of 3 w] in if big then rev bs else bs)"

definition long_bytes :: "bool \<Rightarrow> 64 word \<Rightarrow> byte list" where
  "long_bytes big x = (if big then rev (bytes_of_64 x) else bytes_of_64 x)"

fun words_at :: "bool \<Rightarrow> byte list \<Rightarrow> cint list" where
  "words_at big (b0 # b1 # b2 # b3 # bs) =
     (if big then le_word b3 b2 b1 b0 else le_word b0 b1 b2 b3) # words_at big bs"
| "words_at big _ = []"

text \<open>The union of \<^verbatim>\<open>setEndian\<close>: the first byte of the word 1.\<close>

definition setEndian :: "bool \<Rightarrow> cint" where
  "setEndian big = (if hd (word_bytes big 1) \<noteq> 0 then 1 else 0)"

definition byteswap :: "build \<Rightarrow> cint \<Rightarrow> cint \<Rightarrow> cint" where
  "byteswap cfg littleEndian x =
     (case endian cfg of
        WORDS_BIGENDIAN b \<Rightarrow> if b then x else BYTESWAP x
      | RUNTIME_ENDIAN \<Rightarrow> if littleEndian = 0 then x else BYTESWAP x)"

definition byteswap64 :: "build \<Rightarrow> cint \<Rightarrow> 64 word \<Rightarrow> 64 word" where
  "byteswap64 cfg littleEndian x =
     (case endian cfg of
        WORDS_BIGENDIAN b \<Rightarrow> if b then x else BYTESWAP64 x
      | RUNTIME_ENDIAN \<Rightarrow> if littleEndian = 0 then x else BYTESWAP64 x)"

section \<open>The context\<close>

record build_context = sha256 +
  little_endian :: cint

text \<open>Without \<^verbatim>\<open>RUNTIME_ENDIAN\<close> the last field does not exist; nothing depends on it then.\<close>

definition init_build :: "build \<Rightarrow> bool \<Rightarrow> byte list \<Rightarrow> build_context" where
  "init_build cfg big garbage =
     sha256.extend (sha256_init garbage) (build_context.fields (if endian cfg = RUNTIME_ENDIAN then setEndian big else 0))"

section \<open>Compression\<close>

text \<open>\<open>n\<close> times \<^verbatim>\<open>DO_ROUND()\<close>, and the loop around it.\<close>

primrec round_step :: "nat \<Rightarrow> cint list \<times> cint list \<times> regs \<Rightarrow> cint list \<times> cint list \<times> regs" where
  "round_step 0 s = s"
| "round_step (Suc n) s = (case s of (Kp, W, r) \<Rightarrow> round_step n (tl Kp, tl W, DO_ROUND (hd Kp) (hd W) r))"

primrec round_loop :: "nat \<Rightarrow> nat \<Rightarrow> cint list \<times> cint list \<times> regs \<Rightarrow> cint list \<times> cint list \<times> regs" where
  "round_loop 0 n s = s"
| "round_loop (Suc i) n s = round_loop i n (round_step n s)"

definition guts_build :: "build \<Rightarrow> build_context \<Rightarrow> cint list \<Rightarrow> build_context" where
  "guts_build cfg sc cbuf =
     (let H = hash sc;
          W = expand 48 (map (byteswap cfg (little_endian sc)) cbuf);
          (_, _, a, b, c, d, e, f, g, h) = round_loop (64 div unroll cfg) (unroll cfg)
            (K, W, H ! 0, H ! 1, H ! 2, H ! 3, H ! 4, H ! 5, H ! 6, H ! 7)
      in sc\<lparr>hash := [H ! 0 + a, H ! 1 + b, H ! 2 + c, H ! 3 + d,
                     H ! 4 + e, H ! 5 + f, H ! 6 + g, H ! 7 + h]\<rparr>)"

section \<open>Update\<close>

definition copy_bytes :: "build_context \<Rightarrow> byte list \<Rightarrow> cint \<Rightarrow> build_context option" where
  "copy_bytes sc data bytesToCopy =
     (let n = unat bytesToCopy
      in if 64 < unat (bufferLength sc) + n \<or> length data < n then None
         else Some (sc\<lparr>buffer := copy_at (buffer sc) (unat (bufferLength sc)) (take n data),
                totalLength := totalLength sc + ucast bytesToCopy * 8,
                bufferLength := bufferLength sc + bytesToCopy\<rparr>))"

definition compress_full :: "build \<Rightarrow> bool \<Rightarrow> build_context \<Rightarrow> build_context" where
  "compress_full cfg big sc =
     (if bufferLength sc = 64
      then (guts_build cfg sc (words_at big (buffer sc)))\<lparr>bufferLength := 0\<rparr> else sc)"

definition fill_buffer :: "build \<Rightarrow> bool \<Rightarrow> build_context \<Rightarrow> byte list \<Rightarrow> cint \<Rightarrow> (build_context \<times> byte list \<times> cint) option" where
  "fill_buffer cfg big sc data len =
     (let bufferBytesLeft = 64 - bufferLength sc;
          bytesToCopy = (if bufferBytesLeft > len then len else bufferBytesLeft)
      in Option.bind (copy_bytes sc data bytesToCopy) (\<lambda>sc.
           Some (compress_full cfg big sc, drop (unat bytesToCopy) data, len - bytesToCopy)))"

partial_function (option) update_loop :: "build \<Rightarrow> bool \<Rightarrow> build_context \<Rightarrow> byte list \<Rightarrow> cint \<Rightarrow> build_context option" where
  "update_loop cfg big sc data len =
     (if len = 0 then Some sc
      else Option.bind (fill_buffer cfg big sc data len) (\<lambda>(sc, data, len). update_loop cfg big sc data len))"

text \<open>The loop that compresses blocks of the data where they are.\<close>

partial_function (option) fast_blocks ::
  "build \<Rightarrow> bool \<Rightarrow> build_context \<Rightarrow> byte list \<Rightarrow> cint \<Rightarrow> (build_context \<times> byte list \<times> cint) option"
where
  "fast_blocks cfg big sc data len =
     (if len > 63 then
        if length data < 64 then None
        else fast_blocks cfg big
               (guts_build cfg (sc\<lparr>totalLength := totalLength sc + 512\<rparr>) (words_at big (take 64 data)))
               (drop 64 data) (len - 64)
      else Some (sc, data, len))"

definition update_build :: "build \<Rightarrow> bool \<Rightarrow> build_context \<Rightarrow> byte list \<Rightarrow> cint \<Rightarrow> build_context option" where
  "update_build cfg big sc data len =
     (if fast_copy cfg then
        Option.bind (if bufferLength sc \<noteq> 0 then fill_buffer cfg big sc data len else Some (sc, data, len)) (\<lambda>(sc, data, len).
        Option.bind (fast_blocks cfg big sc data len) (\<lambda>(sc, data, len).
          if len \<noteq> 0 then copy_bytes sc data len else Some sc))
      else update_loop cfg big sc data len)"

section \<open>Final\<close>

definition digest_build :: "build \<Rightarrow> bool \<Rightarrow> build_context \<Rightarrow> byte list" where
  "digest_build cfg big sc =
     (if fast_copy cfg then concat (map (\<lambda>h. word_bytes big (byteswap cfg (little_endian sc) h)) (hash sc))
      else digest_bytes (hash sc))"

definition final_build :: "build \<Rightarrow> bool \<Rightarrow> build_context \<Rightarrow> byte list option" where
  "final_build cfg big sc =
     (let bytesToPad = 120 - bufferLength sc;
          bytesToPad = (if bytesToPad > 64 then bytesToPad - 64 else bytesToPad);
          lengthPad = byteswap64 cfg (little_endian sc) (totalLength sc)
      in Option.bind (update_build cfg big sc padding bytesToPad) (\<lambda>sc.
         Option.bind (update_build cfg big sc (long_bytes big lengthPad) 8) (\<lambda>sc.
         Some (digest_build cfg big sc))))"

section \<open>The test program\<close>

text \<open>\<^verbatim>\<open>%02x\<close>, and the loop that prints a hash with a blank after every four bytes.\<close>

definition hex_digit :: "nat \<Rightarrow> char" where
  "hex_digit n = (if n < 10 then char_of (48 + n) else char_of (87 + n))"

definition print_hash :: "byte list \<Rightarrow> string" where
  "print_hash bs =
     concat (map (\<lambda>i. [hex_digit (unat (bs ! i) div 16), hex_digit (unat (bs ! i) mod 16)] @
       (if (i + 1) mod 4 = 0 then '' '' else [])) [0..<32]) @ [CHR 0x0A]"

primrec update_all :: "build \<Rightarrow> bool \<Rightarrow> byte list list \<Rightarrow> build_context \<Rightarrow> build_context option" where
  "update_all cfg big [] sc = Some sc"
| "update_all cfg big (data # ds) sc =
     Option.bind (update_build cfg big sc data (of_nat (length data))) (update_all cfg big ds)"

definition hash_line :: "build \<Rightarrow> bool \<Rightarrow> byte list \<Rightarrow> byte list list \<Rightarrow> string option" where
  "hash_line cfg big garbage ds =
     map_option print_hash
       (Option.bind (update_all cfg big ds (init_build cfg big garbage)) (final_build cfg big))"

text \<open>\<open>garbage i\<close> is what the buffer holds at the \<open>i\<close>-th call of \<^verbatim>\<open>sha256_init\<close>.\<close>

definition test_main :: "build \<Rightarrow> bool \<Rightarrow> (nat \<Rightarrow> byte list) \<Rightarrow> string option" where
  "test_main cfg big garbage =
     Option.bind (hash_line cfg big (garbage 0) [map of_char ''abc'']) (\<lambda>l1.
     Option.bind (hash_line cfg big (garbage 1)
       [map of_char ''abcdbcdecdefdefgefghfghighijhijkijkljklmklmnlmnomnopnopq'']) (\<lambda>l2.
     Option.bind (hash_line cfg big (garbage 2) (replicate 1000 (replicate 1000 0x61))) (\<lambda>l3.
     Some (l1 @ l2 @ l3))))"

section \<open>The byte order\<close>

definition valid_build :: "build \<Rightarrow> bool \<Rightarrow> bool" where
  "valid_build cfg big \<longleftrightarrow>
     (case endian cfg of WORDS_BIGENDIAN b \<Rightarrow> b = big | RUNTIME_ENDIAN \<Rightarrow> True) \<and> unroll cfg \<in> {1, 2, 4, 8, 16, 32, 64}"

definition knows_order :: "build \<Rightarrow> bool \<Rightarrow> cint \<Rightarrow> bool" where
  "knows_order cfg big le \<longleftrightarrow> (endian cfg = RUNTIME_ENDIAN \<longrightarrow> le = setEndian big)"

lemma setEndian_eq: "setEndian big = (if big then 0 else 1)"
  by (simp add: setEndian_def word_bytes_def byte_of_def drop_bit_eq_div)

lemma byteswap_eq:
  assumes "valid_build cfg big" "knows_order cfg big le"
  shows "byteswap cfg le x = (if big then x else BYTESWAP x)" "byteswap64 cfg le y = (if big then y else BYTESWAP64 y)"
  using assms by (auto simp: valid_build_def knows_order_def byteswap_def byteswap64_def setEndian_eq split: endian_macros.splits)

lemma words_at_eq:
  assumes "valid_build cfg big" "knows_order cfg big le"
  shows "map (byteswap cfg le) (words_at big bs) = be_words bs"
proof (induction bs rule: be_words.induct)
  case (1 b0 b1 b2 b3 bs)
  then show ?case by (simp add: byteswap_eq [OF assms] BYTESWAP_le_word)
qed simp_all

section \<open>The rounds\<close>

lemma round_step_spec:
  "n \<le> length Kp \<Longrightarrow> n \<le> length W \<Longrightarrow>
   round_step n (Kp, W, r) = (drop n Kp, drop n W, fold (\<lambda>(k, w). DO_ROUND k w) (zip (take n Kp) (take n W)) r)"
proof (induction n arbitrary: Kp W r)
  case (Suc n)
  then obtain k ks w ws where "Kp = k # ks" "W = w # ws" by (metis Suc_le_length_iff)
  then show ?case using Suc by simp
qed simp

lemma round_loop_spec:
  "i * n \<le> length Kp \<Longrightarrow> i * n \<le> length W \<Longrightarrow>
   round_loop i n (Kp, W, r) =
     (drop (i * n) Kp, drop (i * n) W, fold (\<lambda>(k, w). DO_ROUND k w) (zip (take (i * n) Kp) (take (i * n) W)) r)"
proof (induction i arbitrary: Kp W r)
  case (Suc i)
  have "n \<le> length Kp" "n \<le> length W" "i * n \<le> length (drop n Kp)" "i * n \<le> length (drop n W)"
    using Suc.prems by auto
  then show ?case
    by (simp add: Suc.IH round_step_spec take_add zip_append add.commute)
qed simp

lemma round_loop_rounds:
  assumes "unroll cfg \<in> {1, 2, 4, 8, 16, 32, 64}" "length W = 64"
  shows "round_loop (64 div unroll cfg) (unroll cfg) (K, W, r) = ([], [], rounds K W r)"
proof -
  have "64 div unroll cfg * unroll cfg = 64" using assms(1) by auto
  then show ?thesis
    using round_loop_spec [of "64 div unroll cfg" "unroll cfg" K W r] rounds_fold [of K W r] assms(2)
    by (simp add: length_K DO_ROUND_eq)
qed

lemma guts_build_eq:
  assumes v: "valid_build cfg big" "knows_order cfg big (little_endian sc)"
    and "length block = 64" "length (hash sc) = 8"
  shows "guts_build cfg sc (words_at big block) = sc\<lparr>hash := fips_compress block (hash sc)\<rparr>"
proof -
  let ?H = "hash sc" and ?c = "sha256.truncate sc"
  have s: "expand 48 (map (byteswap cfg (little_endian sc)) (words_at big block)) = schedule (buffer_words block)"
    by (simp add: words_at_eq [OF v] schedule_def be_words_eq)
  have l: "length (schedule (buffer_words block)) = 64" by (simp add: schedule_W [OF assms(3)])
  have u: "unroll cfg \<in> {1, 2, 4, 8, 16, 32, 64}" using v(1) by (simp add: valid_build_def)
  have "hash (SHA256Guts ?c (buffer_words block)) = fips_compress block ?H"
    using SHA256Guts_eq [of block ?c] assms(3,4) by (simp add: sha256.truncate_def)
  then show ?thesis
    unfolding guts_build_def s Let_def round_loop_rounds [OF u l]
    by (simp add: SHA256Guts_def Let_def sha256.truncate_def split: prod.splits)
qed

section \<open>The invariant\<close>

definition build_holds :: "build \<Rightarrow> bool \<Rightarrow> build_context \<Rightarrow> byte list \<Rightarrow> bool" where
  "build_holds cfg big sc m \<longleftrightarrow> holds (sha256.truncate sc) m \<and> knows_order cfg big (little_endian sc)"

lemma build_holds_context:
  assumes "build_holds cfg big sc m"
  shows "unat (bufferLength sc) = length (rest m)" "length (buffer sc) = 64" "length (hash sc) = 8" "unat (bufferLength sc) < 64"
    "totalLength sc = of_nat (8 * length m)" "hash sc = fold fips_compress (blocks m) fips_H0"
    "knows_order cfg big (little_endian sc)"
  using assms unfolding build_holds_def holds_def sha256.truncate_def sha256.simps
  by (elim conjE; simp add: length_rest; fail)+

lemma init_build_holds:
  "length garbage = 64 \<Longrightarrow> build_holds cfg big (init_build cfg big garbage) []"
  using holds_init [of garbage]
  by (simp add: build_holds_def init_build_def knows_order_def sha256.truncate_def sha256.extend_def
      build_context.fields_def sha256_init_def)

lemma copy_bytes_holds:
  assumes v: "valid_build cfg big" and h: "build_holds cfg big sc m"
    and c: "unat c \<le> length data" "unat (bufferLength sc) + unat c \<le> 64"
  shows "\<exists>sc'. copy_bytes sc data c = Some sc' \<and> bufferLength sc' = bufferLength sc + c \<and>
    build_holds cfg big (compress_full cfg big sc') (m @ take (unat c) data)"
proof -
  note C = build_holds_context [OF h]
  let ?src = "take (unat c) data"
  define sc' where "sc' = sc\<lparr>buffer := copy_at (buffer sc) (unat (bufferLength sc)) ?src,
      totalLength := totalLength sc + ucast c * 8, bufferLength := bufferLength sc + c\<rparr>"
  let ?t = "sha256.truncate sc'"
  have t: "?t = (sha256.truncate sc)\<lparr>buffer := copy_at (buffer (sha256.truncate sc)) (unat (bufferLength (sha256.truncate sc))) ?src,
      totalLength := totalLength (sha256.truncate sc) + ucast c * 8, bufferLength := bufferLength (sha256.truncate sc) + c\<rparr>"
    by (simp add: sc'_def sha256.truncate_def)
  have l: "length (buffer sc') = 64" "length (hash sc') = 8" "knows_order cfg big (little_endian sc')"
    using C c by (simp_all add: sc'_def copy_at_def)
  have "holds (if bufferLength ?t = 64 then (SHA256Guts ?t (buffer_words (buffer ?t)))\<lparr>bufferLength := 0\<rparr> else ?t) (m @ ?src)"
    by (rule holds_copy [OF _ _ _ t]) (use h c in \<open>simp_all add: build_holds_def sha256.truncate_def\<close>)
  moreover have "SHA256Guts ?t (buffer_words (buffer ?t)) = ?t\<lparr>hash := fips_compress (buffer sc') (hash sc')\<rparr>"
    using SHA256Guts_eq [of "buffer sc'" ?t] l by (simp add: sha256.truncate_def)
  moreover have "sha256.truncate (compress_full cfg big sc') =
      (if bufferLength ?t = 64 then (?t\<lparr>hash := fips_compress (buffer sc') (hash sc')\<rparr>)\<lparr>bufferLength := 0\<rparr> else ?t)"
    using guts_build_eq [OF v l(3,1,2)] by (simp add: compress_full_def sha256.truncate_def)
  moreover have "little_endian (compress_full cfg big sc') = little_endian sc'"
    by (simp add: compress_full_def guts_build_def Let_def split: prod.splits)
  ultimately have "build_holds cfg big (compress_full cfg big sc') (m @ ?src)"
    using l(3) by (simp only: build_holds_def)
  moreover have "copy_bytes sc data c = Some sc'" using c by (simp add: copy_bytes_def sc'_def)
  ultimately show ?thesis by (simp add: sc'_def)
qed

lemma fill_buffer_holds:
  assumes v: "valid_build cfg big" and h: "build_holds cfg big sc m" and len: "unat len \<le> length data"
  shows "\<exists>sc' n len'. fill_buffer cfg big sc data len = Some (sc', drop n data, len') \<and>
    build_holds cfg big sc' (m @ take n data) \<and> n \<le> unat len \<and> unat len' = unat len - n \<and>
    (len \<noteq> 0 \<longrightarrow> 0 < n) \<and> (len' \<noteq> 0 \<longrightarrow> bufferLength sc' = 0)"
proof -
  define left where "left = 64 - bufferLength sc"
  define c where "c = (if left > len then len else left)"
  have bl: "unat (bufferLength sc) < 64" by (rule build_holds_context(4) [OF h])
  then have left: "unat left = 64 - unat (bufferLength sc)" by (simp add: left_def unat_sub word_le_nat_alt)
  have c: "unat c = min (unat len) (unat left)" by (auto simp: c_def word_less_nat_alt)
  have "unat c \<le> length data" "unat (bufferLength sc) + unat c \<le> 64" using c left bl len by auto
  from copy_bytes_holds [OF v h this]
  obtain sc' where sc': "copy_bytes sc data c = Some sc'" "bufferLength sc' = bufferLength sc + c"
    "build_holds cfg big (compress_full cfg big sc') (m @ take (unat c) data)" by blast
  have sub: "unat (len - c) = unat len - unat c" using c by (intro unat_sub) (simp add: word_le_nat_alt)
  have "bufferLength (compress_full cfg big sc') = 0" if "len - c \<noteq> 0"
  proof -
    have "unat (len - c) \<noteq> 0" using that by (simp only: unat_eq_zero not_False_eq_True)
    then have "unat c = unat left" using sub c by simp
    then have "c = left" by (simp add: word_unat_eq_iff)
    then show ?thesis using sc'(2) by (simp add: compress_full_def left_def)
  qed
  moreover have "len \<noteq> 0 \<longrightarrow> 0 < unat c" using c left bl by (simp add: unat_gt_0)
  moreover have "fill_buffer cfg big sc data len = Some (compress_full cfg big sc', drop (unat c) data, len - c)"
    unfolding fill_buffer_def Let_def left_def [symmetric] c_def [symmetric] by (simp add: sc'(1))
  ultimately show ?thesis using sc'(3) sub c by auto
qed

lemma take_parts: "n \<le> k \<Longrightarrow> take n data @ take (k - n) (drop n data) = take k data"
  by (metis le_add_diff_inverse take_add)

lemma update_loop_holds:
  "valid_build cfg big \<Longrightarrow> build_holds cfg big sc m \<Longrightarrow> unat len \<le> length data \<Longrightarrow>
   \<exists>sc'. update_loop cfg big sc data len = Some sc' \<and> build_holds cfg big sc' (m @ take (unat len) data)"
proof (induction "unat len" arbitrary: sc m data len rule: less_induct)
  case less
  show ?case
  proof (cases "len = 0")
    case True
    then show ?thesis using less.prems by (simp add: update_loop.simps [of cfg big sc])
  next
    case False
    obtain sc1 n len1 where f: "fill_buffer cfg big sc data len = Some (sc1, drop n data, len1)"
      "build_holds cfg big sc1 (m @ take n data)" "n \<le> unat len" "unat len1 = unat len - n" "0 < n"
      using fill_buffer_holds [OF less.prems] False by blast
    have "unat len1 < unat len" "unat len1 \<le> length (drop n data)" using f(3-5) less.prems(3) by auto
    from less.hyps [OF this(1) less.prems(1) f(2) this(2)] show ?thesis
      using f(1,4) False take_parts [OF f(3), of data] by (simp add: update_loop.simps [of cfg big sc])
  qed
qed

text \<open>A block compressed where it is.\<close>

lemma block_holds:
  assumes v: "valid_build cfg big" and h: "build_holds cfg big sc m" "bufferLength sc = 0" and b: "length b = 64"
  shows "build_holds cfg big (guts_build cfg (sc\<lparr>totalLength := totalLength sc + 512\<rparr>) (words_at big b)) (m @ b)"
proof -
  note C = build_holds_context [OF h(1)]
  have "rest m = []" using C(1) h(2) by simp
  then have r: "blocks (m @ b) = blocks m @ [b]" "rest (m @ b) = []"
    using blocks_rest_append [of m b] blocks_block [OF b] by (simp_all add: rest_def [of b] b)
  have "guts_build cfg (sc\<lparr>totalLength := totalLength sc + 512\<rparr>) (words_at big b) =
      sc\<lparr>totalLength := totalLength sc + 512, hash := fips_compress b (hash sc)\<rparr>"
    using guts_build_eq [OF v _ b, of "sc\<lparr>totalLength := totalLength sc + 512\<rparr>"] C(3,7) by simp
  then show ?thesis
    using C h(2) r b length_fips_compress by (simp add: build_holds_def holds_def sha256.truncate_def)
qed

lemma fast_blocks_holds:
  "valid_build cfg big \<Longrightarrow> build_holds cfg big sc m \<Longrightarrow> unat len \<le> length data \<Longrightarrow> len \<noteq> 0 \<longrightarrow> bufferLength sc = 0 \<Longrightarrow>
   \<exists>sc' n len'. fast_blocks cfg big sc data len = Some (sc', drop n data, len') \<and>
    build_holds cfg big sc' (m @ take n data) \<and> n \<le> unat len \<and> unat len' = unat len - n \<and>
    unat len' < 64 \<and> (len' \<noteq> 0 \<longrightarrow> bufferLength sc' = 0)"
proof (induction "unat len" arbitrary: sc m data len rule: less_induct)
  case less
  show ?case
  proof (cases "len > 63")
    case False
    then have "unat len < 64" by (simp add: word_less_nat_alt)
    then show ?thesis
      using False less.prems by (intro exI [of _ sc] exI [of _ 0] exI [of _ len]) (simp add: fast_blocks.simps [of cfg big sc])
  next
    case True
    then have long: "64 \<le> unat len" by (simp add: word_less_nat_alt)
    let ?sc1 = "guts_build cfg (sc\<lparr>totalLength := totalLength sc + 512\<rparr>) (words_at big (take 64 data))"
    have bl: "bufferLength sc = 0" using long less.prems(4) by auto
    have h: "build_holds cfg big ?sc1 (m @ take 64 data)"
      using block_holds [OF less.prems(1,2) bl] long less.prems(3) by simp
    have sub: "unat (len - 64) = unat len - 64" using long by (simp add: unat_sub word_le_nat_alt)
    have "bufferLength ?sc1 = 0" using bl by (simp add: guts_build_def Let_def split: prod.splits)
    then obtain sc' n len' where f: "fast_blocks cfg big ?sc1 (drop 64 data) (len - 64) = Some (sc', drop n (drop 64 data), len')"
      "build_holds cfg big sc' ((m @ take 64 data) @ take n (drop 64 data))" "n \<le> unat (len - 64)"
      "unat len' = unat (len - 64) - n" "unat len' < 64" "len' \<noteq> 0 \<longrightarrow> bufferLength sc' = 0"
      using less.hyps [OF _ less.prems(1) h, of "len - 64" "drop 64 data"] less.prems(3) long sub by fastforce
    have "fast_blocks cfg big sc data len = Some (sc', drop (n + 64) data, len')"
      using f(1) True long less.prems(3) by (simp add: fast_blocks.simps [of cfg big sc])
    moreover have "take 64 data @ take n (drop 64 data) = take (n + 64) data" by (metis add.commute take_add)
    ultimately show ?thesis
      using f(2-6) sub long by (intro exI [of _ sc'] exI [of _ "n + 64"] exI [of _ len']) (simp, linarith)
  qed
qed

lemma update_build_holds:
  assumes v: "valid_build cfg big" and h: "build_holds cfg big sc m" and len: "unat len \<le> length data"
  shows "\<exists>sc'. update_build cfg big sc data len = Some sc' \<and> build_holds cfg big sc' (m @ take (unat len) data)"
proof (cases "fast_copy cfg")
  case False
  then show ?thesis using update_loop_holds [OF assms] by (simp add: update_build_def)
next
  case True
  obtain sc1 n len1 where 1: "(if bufferLength sc \<noteq> 0 then fill_buffer cfg big sc data len else Some (sc, data, len)) =
      Some (sc1, drop n data, len1)" "build_holds cfg big sc1 (m @ take n data)" "n \<le> unat len" "unat len1 = unat len - n"
    "len1 \<noteq> 0 \<longrightarrow> bufferLength sc1 = 0"
  proof (cases "bufferLength sc = 0")
    case True
    then show thesis using that [of sc 0 len] h by simp
  next
    case False
    then show thesis using fill_buffer_holds [OF assms] that by auto
  qed
  have "unat len1 \<le> length (drop n data)" using 1(3,4) len by simp
  from fast_blocks_holds [OF v 1(2) this 1(5)]
  obtain sc2 k len2 where 2: "fast_blocks cfg big sc1 (drop n data) len1 = Some (sc2, drop k (drop n data), len2)"
    "build_holds cfg big sc2 ((m @ take n data) @ take k (drop n data))" "k \<le> unat len1" "unat len2 = unat len1 - k"
    "unat len2 < 64" "len2 \<noteq> 0 \<longrightarrow> bufferLength sc2 = 0" by blast
  have nk: "take n data @ take k (drop n data) = take (n + k) data" by (simp add: take_add)
  show ?thesis
  proof (cases "len2 = 0")
    case True
    then have "n + k = unat len" using 1(3,4) 2(3,4) by simp
    then show ?thesis using \<open>fast_copy cfg\<close> 1(1) 2(1,2) nk True by (simp add: update_build_def)
  next
    case False
    let ?data = "drop k (drop n data)"
    have b: "bufferLength sc2 = 0" using 2(6) False by simp
    have "unat len2 \<le> length ?data" using 1(3,4) 2(3,4) len by simp
    from copy_bytes_holds [OF v 2(2) this] obtain sc3 where 3: "copy_bytes sc2 ?data len2 = Some sc3"
      "bufferLength sc3 = len2" "build_holds cfg big (compress_full cfg big sc3) (((m @ take n data) @ take k (drop n data)) @ take (unat len2) ?data)"
      using b 2(5) by auto
    have "bufferLength sc3 \<noteq> 64" using 3(2) 2(5) by auto
    then have "build_holds cfg big sc3 (m @ take (n + k) data @ take (unat len2) (drop (n + k) data))"
      using 3(3) nk by (simp add: compress_full_def add.commute)
    moreover have "unat len2 = unat len - (n + k)" "n + k \<le> unat len" using 1(3,4) 2(3,4) by simp_all
    ultimately have "build_holds cfg big sc3 (m @ take (unat len) data)" using take_parts [of "n + k" "unat len" data] by simp
    then show ?thesis using \<open>fast_copy cfg\<close> 1(1) 2(1) 3(1) False by (simp add: update_build_def)
  qed
qed

section \<open>The hash\<close>

lemma digest_build_eq:
  assumes "valid_build cfg big" "knows_order cfg big (little_endian sc)"
  shows "digest_build cfg big sc = digest_bytes (hash sc)"
proof -
  have "word_bytes big (byteswap cfg (little_endian sc) h) =
      [ucast (drop_bit 24 h), ucast (drop_bit 16 h), ucast (drop_bit 8 h), ucast h]" for h
    unfolding byteswap_eq(1) [OF assms]
    by (simp add: word_bytes_def BYTESWAP_bytes byte_simps) (simp add: byte_of_def)
  then show ?thesis by (simp add: digest_build_def digest_bytes_def)
qed

lemma final_build_holds:
  assumes v: "valid_build cfg big" and h: "build_holds cfg big sc m"
  shows "final_build cfg big sc = Some (digest_bytes (fips_hash m))"
proof -
  define p where "p = pad_length (bufferLength sc)"
  define z where "z = (119 - length m mod 64) mod 64"
  define lengthPad where "lengthPad = long_bytes big (byteswap64 cfg (little_endian sc) (totalLength sc))"
  note C = build_holds_context [OF h]
  have z: "z < 64" by (simp add: z_def)
  have p: "unat p = Suc z"
    unfolding p_def z_def by (rule unat_pad_length) (use C(1) in \<open>simp_all add: length_rest\<close>)
  have pad: "take (Suc z) padding = 0x80 # replicate z 0" "length padding = 64"
    using z by (simp_all add: padding_def min_def)
  have l: "lengthPad = rev (bytes_of_64 (of_nat (8 * length m)))" "length lengthPad = 8"
    unfolding lengthPad_def byteswap_eq(2) [OF v C(7)] C(5) by (simp_all add: long_bytes_def bytes_of_64_BYTESWAP64)
  obtain s where s: "update_build cfg big sc padding p = Some s" "build_holds cfg big s (m @ 0x80 # replicate z 0)"
    using update_build_holds [OF v h, of p padding] z unfolding p pad by auto
  obtain s' where s': "update_build cfg big s lengthPad 8 = Some s'" "build_holds cfg big s' (fips_pad m)"
    using update_build_holds [OF v s(2), of 8 lengthPad] l by (auto simp: fips_pad_def z_def)
  have "final_build cfg big sc = Option.bind (update_build cfg big sc padding p) (\<lambda>sc.
      Option.bind (update_build cfg big sc lengthPad 8) (\<lambda>sc. Some (digest_build cfg big sc)))"
    by (simp add: final_build_def p_def pad_length_def lengthPad_def Let_def)
  then show ?thesis
    using s s' digest_build_eq [OF v build_holds_context(7) [OF s'(2)]] build_holds_context(6) [OF s'(2)]
    by (simp add: fips_hash_def)
qed

lemma update_all_holds:
  "valid_build cfg big \<Longrightarrow> build_holds cfg big sc m \<Longrightarrow> \<forall>data \<in> set ds. length data < 2 ^ 32 \<Longrightarrow>
   \<exists>sc'. update_all cfg big ds sc = Some sc' \<and> build_holds cfg big sc' (m @ concat ds)"
proof (induction ds arbitrary: sc m)
  case (Cons data ds)
  then have "unat (of_nat (length data) :: cint) = length data" by (simp add: unat_of_nat)
  then obtain s where "update_build cfg big sc data (of_nat (length data)) = Some s" "build_holds cfg big s (m @ data)"
    using update_build_holds [OF Cons.prems(1,2), of "of_nat (length data)" data] by auto
  then show ?case using Cons.IH [of s "m @ data"] Cons.prems(1,3) by simp
qed simp

lemma every_build_hashes:
  assumes "valid_build cfg big" "length garbage = 64" "\<forall>data \<in> set ds. length data < 2 ^ 32"
  shows "Option.bind (update_all cfg big ds (init_build cfg big garbage)) (final_build cfg big) =
    Some (digest_bytes (fips_hash (concat ds)))"
  using update_all_holds [OF assms(1) init_build_holds [OF assms(2)] assms(3)] final_build_holds [OF assms(1)] by auto

section \<open>Properties\<close>

text \<open>
  C9: whatever the macros choose, on a machine of either byte order, and however the message is
  split into updates, the code returns the hash of FIPS 180-4 of the whole message. A byte
  order that is fixed when compiling has to be the one of the machine.
\<close>

theorem sha256_every_build:
  assumes "valid_build cfg big" and "length garbage = 64" and "\<forall>data \<in> set ds. length data < 2 ^ 32"
  shows "Option.bind (update_all cfg big ds (init_build cfg big garbage)) (final_build cfg big) =
    Some (digest_bytes (fips_hash (concat ds)))"
  using assms by (rule every_build_hashes)

theorem sha256_every_build_witness:
  "Option.bind (update_all \<lparr>endian = RUNTIME_ENDIAN, fast_copy = True, unroll = 16\<rparr> True [[0x61], [0x62, 0x63]]
      (init_build \<lparr>endian = RUNTIME_ENDIAN, fast_copy = True, unroll = 16\<rparr> True (replicate 64 0)))
      (final_build \<lparr>endian = RUNTIME_ENDIAN, fast_copy = True, unroll = 16\<rparr> True) =
    Some (digest_bytes (fips_hash (concat [[0x61], [0x62, 0x63]])))"
  by (rule sha256_every_build) (simp_all add: valid_build_def)

text \<open>
  The test program prints the hashes of its three messages in hexadecimal digits, the last of
  which is a million letters, in every build.
\<close>

theorem test_prints_hashes:
  assumes "valid_build cfg big" and "\<forall>i. length (garbage i) = 64"
  shows "test_main cfg big garbage = Some (concat (map (\<lambda>m. print_hash (digest_bytes (fips_hash m)))
    [map of_char ''abc'', map of_char ''abcdbcdecdefdefgefghfghighijhijkijkljklmklmnlmnomnopnopq'', replicate 1000000 0x61]))"
proof -
  have line: "hash_line cfg big (garbage i) ds = Some (print_hash (digest_bytes (fips_hash (concat ds))))"
    if "\<forall>data \<in> set ds. length data < 2 ^ 32" for i ds
    using every_build_hashes [OF assms(1) _ that, of "garbage i"] assms(2) by (simp add: hash_line_def)
  have "concat (replicate k (replicate n x)) = replicate (k * n) x" for k n and x :: byte
    by (induction k) (simp_all add: replicate_add)
  then have "concat (replicate 1000 (replicate 1000 (0x61 :: byte))) = replicate 1000000 0x61" by simp
  then show ?thesis by (simp add: test_main_def line)
qed

theorem test_prints_hashes_witness:
  "test_main \<lparr>endian = WORDS_BIGENDIAN False, fast_copy = False, unroll = 4\<rparr> False (\<lambda>i. replicate 64 0) =
    Some (concat (map (\<lambda>m. print_hash (digest_bytes (fips_hash m)))
      [map of_char ''abc'', map of_char ''abcdbcdecdefdefgefghfghighijhijkijkljklmklmnlmnomnopnopq'', replicate 1000000 0x61]))"
  by (rule test_prints_hashes) (simp_all add: valid_build_def)

end
