(* ===== verification/Config.thy ===== *)
theory Config
  imports Records Tiny_Lib
begin

text \<open>
  The configuration files of the network programs: \<^verbatim>\<open>is_valid_ip\<close>, \<^verbatim>\<open>is_valid_port\<close> and
  \<^verbatim>\<open>starts_with\<close> of \<^verbatim>\<open>common.c\<close> (the same in \<^verbatim>\<open>A3/src\<close> and \<^verbatim>\<open>A4/src\<close>) and the loops of
  \<^verbatim>\<open>A4/src/peer.c\<close> and \<^verbatim>\<open>A3/src/networking.c\<close> that read them, which differ in their keys only.
  A string argument is the list of its characters before the zero, a buffer the list of
  all its characters. The outer \<open>None\<close> of a result is an access outside a buffer, \<open>Inl ()\<close> the
  exit with \<^verbatim>\<open>EXIT_FAILURE\<close>.

  The lemmas show which addresses and ports are accepted, that a file that was written
  in the format is read back, and that a shorter value leaves the end of an older one.
\<close>

section \<open>The checks\<close>

text \<open>
  The conversion \<^verbatim>\<open>%d\<close> of \<^verbatim>\<open>sscanf\<close>: the number, as \<^verbatim>\<open>strtol\<close> reads it and converted to
  \<^verbatim>\<open>int\<close>, and the text behind it.
\<close>

definition scan_int :: "string \<Rightarrow> (cint \<times> string) option" where
  "scan_int s =
     (let s1 = dropWhile is_space s;
          s2 = (if s1 \<noteq> [] \<and> (hd s1 = CHR ''-'' \<or> hd s1 = CHR ''+'') then tl s1 else s1)
      in if s2 = [] \<or> \<not> is_digit (hd s2) then None
         else Some (word_of_int (strtol s), dropWhile is_digit s2))"

text \<open>The numbers stored by \<^verbatim>\<open>%d.%d.%d.%d\<close>, or by its last \<open>k\<close> conversions.\<close>

fun scan_dotted :: "nat \<Rightarrow> string \<Rightarrow> cint list" where
  "scan_dotted 0 s = []"
| "scan_dotted (Suc k) s =
     (case scan_int s of None \<Rightarrow> []
      | Some (v, rest) \<Rightarrow>
          v # (if k \<noteq> 0 \<and> rest \<noteq> [] \<and> hd rest = CHR ''.'' then scan_dotted k (tl rest) else []))"

definition starts_with :: "string \<Rightarrow> string \<Rightarrow> bool" where
  "starts_with a b \<longleftrightarrow> take (length b) a = b"

text \<open>
  The macro \<^verbatim>\<open>string_equal\<close> compares as many characters as its second argument has. \<open>None\<close> is
  the exit of the program when there is nothing to scan.
\<close>

definition is_valid_ip :: "string \<Rightarrow> bool option" where
  "is_valid_ip ip_string =
     (let ip = scan_dotted 4 ip_string
      in if dropWhile is_space ip_string = [] then None
         else if length ip \<noteq> 4 then Some (starts_with ip_string ''localhost'')
         else Some (\<not> (\<exists>v \<in> set ip. 255 < sint v \<or> sint v < 0)))"

definition is_valid_port :: "string \<Rightarrow> bool option" where
  "is_valid_port port_string =
     (if dropWhile is_space port_string = [] then None
      else Some (case scan_int port_string of None \<Rightarrow> False
                 | Some (port, _) \<Rightarrow> \<not> (sint port < 0 \<or> 65535 < sint port)))"

section \<open>Reading the file\<close>

record config =
  own_ip :: string
  own_port :: string
  other_ip :: string
  other_port :: string

record keys =
  OWN_IP :: string
  OWN_PORT :: string
  OTHER_IP :: string
  OTHER_PORT :: string

definition peer_keys :: keys where
  "peer_keys = \<lparr>OWN_IP = ''my_ip: '', OWN_PORT = ''my_port: '', OTHER_IP = ''peer_ip: '', OTHER_PORT = ''peer_port: ''\<rparr>"

definition networking_keys :: keys where
  "networking_keys = \<lparr>OWN_IP = ''client_ip: '', OWN_PORT = ''client_port: '',
     OTHER_IP = ''server_ip: '', OTHER_PORT = ''server_port: ''\<rparr>"

text \<open>\<^verbatim>\<open>memcpy\<close> of a value into a buffer, and the string the buffer then holds.\<close>

definition set_field :: "string \<Rightarrow> string \<Rightarrow> string option" where
  "set_field buf v = (if length buf < length v then None else Some (v @ drop (length v) buf))"

definition text_of :: "string \<Rightarrow> string option" where
  "text_of buf = (if CHR 0x00 \<in> set buf then Some (takeWhile (\<lambda>c. c \<noteq> CHR 0x00) buf) else None)"

definition store_checked :: "(string \<Rightarrow> bool option) \<Rightarrow> string \<Rightarrow> string \<Rightarrow> (unit + string) option" where
  "store_checked valid buf v =
     Option.bind (set_field buf v) (\<lambda>buf.
     Option.bind (text_of buf) (\<lambda>s.
     Some (if valid s = Some True then Inr buf else Inl ())))"

definition set_result :: "(string \<Rightarrow> config) \<Rightarrow> (unit + string) option \<Rightarrow> (unit + config) option" where
  "set_result f r = map_option (\<lambda>x. case x of Inl u \<Rightarrow> Inl u | Inr buf \<Rightarrow> Inr (f buf)) r"

definition config_line :: "keys \<Rightarrow> config \<Rightarrow> string \<Rightarrow> (unit + config) option" where
  "config_line k c buffer =
     (let line = takeWhile (\<lambda>c. c \<noteq> CHR 0x00) buffer;
          value = (\<lambda>key. drop (length key) (takeWhile (\<lambda>c. c \<noteq> CHR 0x0D \<and> c \<noteq> CHR 0x0A) line))
      in if starts_with line (OWN_IP k)
         then set_result (\<lambda>f. c\<lparr>own_ip := f\<rparr>) (store_checked is_valid_ip (own_ip c) (value (OWN_IP k)))
         else if starts_with line (OWN_PORT k)
         then set_result (\<lambda>f. c\<lparr>own_port := f\<rparr>) (store_checked is_valid_port (own_port c) (value (OWN_PORT k)))
         else if starts_with line (OTHER_IP k)
         then set_result (\<lambda>f. c\<lparr>other_ip := f\<rparr>) (store_checked is_valid_ip (other_ip c) (value (OTHER_IP k)))
         else if starts_with line (OTHER_PORT k)
         then set_result (\<lambda>f. c\<lparr>other_port := f\<rparr>) (store_checked is_valid_port (other_port c) (value (OTHER_PORT k)))
         else Some (Inr c))"

function read_config :: "keys \<Rightarrow> config \<Rightarrow> string \<Rightarrow> (unit + config) option" where
  "read_config k c content =
     (if content = [] then Some (Inr c)
      else let (buffer, rest) = fgets 127 content
           in case config_line k c buffer of
                None \<Rightarrow> None | Some (Inl u) \<Rightarrow> Some (Inl u) | Some (Inr c) \<Rightarrow> read_config k c rest)"
  by pat_completeness auto
termination
proof (relation "measure (\<lambda>(_, _, content). length content)")
  fix k c content p buffer rest r x c'
  assume "content \<noteq> []" "p = fgets 127 content" "(buffer, rest) = p"
  then have "rest = snd (fgets 127 content)" "content \<noteq> []" by (metis snd_conv, simp)
  then show "((k, c', rest), k, c, content) \<in> measure (\<lambda>(_, _, content). length content)"
    using length_fgets [of 127 content] fgets_nonempty [of content 127]
    by (cases "fst (fgets 127 content)"; cases content) (auto simp del: fgets.simps)
qed simp

declare read_config.simps [simp del]

text \<open>The configuration before the file is read.\<close>

definition peer_config :: config where
  "peer_config = \<lparr>own_ip = replicate 16 (CHR 0x00), own_port = replicate 8 (CHR 0x00),
     other_ip = ''x'' @ replicate 15 (CHR 0x00), other_port = ''x'' @ replicate 7 (CHR 0x00)\<rparr>"

definition networking_config :: config where
  "networking_config = \<lparr>own_ip = replicate 16 (CHR 0x00), own_port = replicate 8 (CHR 0x00),
     other_ip = replicate 16 (CHR 0x00), other_port = replicate 8 (CHR 0x00)\<rparr>"

definition read_peer_config :: "string \<Rightarrow> (unit + config) option" where
  "read_peer_config content = read_config peer_keys peer_config content"

definition read_networking_config :: "string \<Rightarrow> (unit + config) option" where
  "read_networking_config content = read_config networking_keys networking_config content"

section \<open>Scanning decimal numbers\<close>

lemma decimal_is_digit: "c \<in> set (decimal n) \<Longrightarrow> is_digit c"
  by (auto dest!: decimal_digit simp: is_digit_def code_char_of)

lemma foldl_decimal: "foldl (\<lambda>v c. v * 10 + (code c - 48)) 0 (decimal n) = int n"
proof (induction n rule: decimal.induct)
  case (1 n)
  show ?case
  proof (cases "n < 10")
    case True
    then show ?thesis by (simp add: decimal.simps [of n] code_char_of)
  next
    case False
    have "48 + n mod 10 < 256" using mod_less_divisor [of 10 n] by linarith
    moreover have "int (n div 10) * 10 + int (n mod 10) = int n"
      by (metis div_mult_mod_eq of_nat_add of_nat_mult of_nat_numeral)
    ultimately show ?thesis using 1 False by (simp add: decimal.simps [of n] code_char_of)
  qed
qed

definition ends_number :: "string \<Rightarrow> bool" where
  "ends_number rest \<longleftrightarrow> rest = [] \<or> \<not> is_digit (hd rest)"

lemma takeWhile_decimal: "ends_number rest \<Longrightarrow> takeWhile is_digit (decimal n @ rest) = decimal n"
  "ends_number rest \<Longrightarrow> dropWhile is_digit (decimal n @ rest) = rest"
  by (cases rest; simp add: ends_number_def takeWhile_append2 dropWhile_append2 decimal_is_digit)+

lemma decimal_head: "\<exists>c cs. decimal n = c # cs \<and> is_digit c \<and> \<not> is_space c \<and> c \<noteq> CHR ''-'' \<and> c \<noteq> CHR ''+''"
proof -
  obtain c cs where d: "decimal n = c # cs" using decimal_nonempty by (cases "decimal n") auto
  then have "is_digit c" using decimal_is_digit [of c n] by simp
  moreover from this have "\<not> is_space c" "c \<noteq> CHR ''-''" "c \<noteq> CHR ''+''" by (auto simp: is_digit_def is_space_def)
  ultimately show ?thesis using d by blast
qed

lemma strtol_decimal: "n < 2 ^ 63 \<Longrightarrow> ends_number rest \<Longrightarrow> strtol (decimal n @ rest) = int n"
  using decimal_head [of n] takeWhile_decimal(1) [of rest n] foldl_decimal [of n]
  by (auto simp: strtol_def Let_def)

lemma scan_int_decimal:
  "n < 2 ^ 31 \<Longrightarrow> ends_number rest \<Longrightarrow> scan_int (decimal n @ rest) = Some (word_of_nat n, rest)"
  using decimal_head [of n] takeWhile_decimal(2) [of rest n] strtol_decimal [of n rest]
  by (auto simp: scan_int_def Let_def)

text \<open>Dotted decimal notation.\<close>

fun dotted :: "nat \<times> nat \<times> nat \<times> nat \<Rightarrow> string" where
  "dotted (a, b, c, d) = decimal a @ ''.'' @ decimal b @ ''.'' @ decimal c @ ''.'' @ decimal d"

lemma is_digit_dot [simp]: "\<not> is_digit (CHR ''.'')"
  by (simp add: is_digit_def)

lemma dotted_not_blank: "dropWhile is_space (decimal a @ rest) \<noteq> []"
  using decimal_head [of a] by auto

lemma is_valid_ip_dotted:
  assumes "a < 2 ^ 31" "b < 2 ^ 31" "c < 2 ^ 31" "d < 2 ^ 31" and rest: "ends_number rest"
  shows "is_valid_ip (dotted (a, b, c, d) @ rest) = Some (a < 256 \<and> b < 256 \<and> c < 256 \<and> d < 256)"
proof -
  have dot: "ends_number (CHR ''.'' # xs)" for xs by (simp add: ends_number_def)
  have "scan_dotted (Suc (Suc (Suc (Suc 0)))) (dotted (a, b, c, d) @ rest) =
      [word_of_nat a, word_of_nat b, word_of_nat c, word_of_nat d]"
    using assms by (simp add: scan_int_decimal dot)
  then have "scan_dotted 4 (dotted (a, b, c, d) @ rest) = [word_of_nat a, word_of_nat b, word_of_nat c, word_of_nat d]"
    by (simp only: eval_nat_numeral BitM.simps)
  moreover have "sint (word_of_nat x :: cint) = int x" if "x < 2 ^ 31" for x using sint_of_nat [OF that] .
  ultimately show ?thesis
    using assms(1-4) dotted_not_blank [of a] by (auto simp: is_valid_ip_def Let_def)
qed

lemma is_valid_port_decimal:
  assumes "n < 2 ^ 31" "ends_number rest"
  shows "is_valid_port (decimal n @ rest) = Some (n < 65536)"
  using assms dotted_not_blank [of n rest] sint_of_nat [OF assms(1)]
  by (auto simp: is_valid_port_def scan_int_decimal)

section \<open>Reading back a file\<close>

lemma starts_with_refl [simp]: "starts_with (b @ xs) b"
  by (simp add: starts_with_def)

text \<open>A value that fits, in a buffer of which at most the first character is not zero.\<close>

definition fresh :: "nat \<Rightarrow> string \<Rightarrow> bool" where
  "fresh n buf \<longleftrightarrow> (\<exists>x. buf = x # replicate (n - 1) (CHR 0x00)) \<and> 0 < n"

lemma store_fresh:
  assumes "fresh n buf" "v \<noteq> []" "length v < n" "CHR 0x00 \<notin> set v" "valid v = Some True"
  shows "store_checked valid buf v = Some (Inr (v @ replicate (n - length v) (CHR 0x00)))"
    and "text_of (v @ replicate (n - length v) (CHR 0x00)) = Some v"
proof -
  obtain x where x: "buf = x # replicate (n - 1) (CHR 0x00)" using assms(1) by (auto simp: fresh_def)
  obtain y ys where v: "v = y # ys" using assms(2) by (cases v) auto
  have "set_field buf v = Some (v @ replicate (n - length v) (CHR 0x00))"
    using assms(3) by (simp add: set_field_def x v)
  moreover show t: "text_of (v @ replicate (n - length v) (CHR 0x00)) = Some v"
  proof -
    have "takeWhile (\<lambda>c. c \<noteq> CHR 0x00) (v @ replicate (n - length v) (CHR 0x00)) = v"
      using assms(3,4) by (subst takeWhile_append2) (auto simp: takeWhile_replicate)
    then show ?thesis using assms(3) by (simp add: text_of_def)
  qed
  ultimately show "store_checked valid buf v = Some (Inr (v @ replicate (n - length v) (CHR 0x00)))"
    using assms(5) by (simp add: store_checked_def)
qed

text \<open>The value of a line that fits into the buffer of \<^verbatim>\<open>fgets\<close>.\<close>

definition plain :: "string \<Rightarrow> bool" where
  "plain v \<longleftrightarrow> (\<forall>c \<in> set v. c \<noteq> CHR 0x00 \<and> c \<noteq> CHR 0x0D \<and> c \<noteq> CHR 0x0A)"

lemma line_value:
  assumes "plain key" "plain v"
  shows "takeWhile (\<lambda>c. c \<noteq> CHR 0x00) (key @ v @ [newline]) = key @ v @ [newline]"
    and "drop (length key) (takeWhile (\<lambda>c. c \<noteq> CHR 0x0D \<and> c \<noteq> CHR 0x0A) (key @ v @ [newline])) = v"
proof -
  show "takeWhile (\<lambda>c. c \<noteq> CHR 0x00) (key @ v @ [newline]) = key @ v @ [newline]"
    using assms by (auto simp: plain_def takeWhile_eq_all_conv)
  have "takeWhile (\<lambda>c. c \<noteq> CHR 0x0D \<and> c \<noteq> CHR 0x0A) ((key @ v) @ [newline]) = key @ v"
    using assms by (subst takeWhile_append2) (auto simp: plain_def)
  then show "drop (length key) (takeWhile (\<lambda>c. c \<noteq> CHR 0x0D \<and> c \<noteq> CHR 0x0A) (key @ v @ [newline])) = v" by simp
qed

lemma read_config_line:
  assumes "plain key" "plain v" "length (key @ v) < 127" "config_line k c (key @ v @ [newline]) = Some (Inr c')"
  shows "read_config k c (key @ v @ newline # rest) = read_config k c' rest"
proof -
  have "newline \<notin> set (key @ v)" using assms(1,2) by (auto simp: plain_def)
  then have "fgets 127 ((key @ v) @ newline # rest) = ((key @ v) @ [newline], rest)"
    using assms(3) by (intro fgets_line) simp_all
  then show ?thesis using assms(4) by (subst read_config.simps) simp
qed

lemma plain_decimal: "plain (decimal n)"
  by (auto simp: plain_def dest!: decimal_is_digit) (auto simp: is_digit_def)

lemma plain_append: "plain (xs @ ys) \<longleftrightarrow> plain xs \<and> plain ys"
  by (auto simp: plain_def)

lemma plain_Cons: "plain (x # xs) \<longleftrightarrow> x \<noteq> CHR 0x00 \<and> x \<noteq> CHR 0x0D \<and> x \<noteq> CHR 0x0A \<and> plain xs"
  by (auto simp: plain_def)

lemma plain_dotted: "plain (dotted (a, b, c, d))"
  by (simp add: plain_append plain_Cons plain_decimal)

text \<open>An address and a port that the checks accept.\<close>

definition address :: "nat \<times> nat \<times> nat \<times> nat \<Rightarrow> nat \<Rightarrow> bool" where
  "address q p \<longleftrightarrow> (case q of (a, b, c, d) \<Rightarrow> a < 256 \<and> b < 256 \<and> c < 256 \<and> d < 256) \<and> p < 65536"

lemma address_facts:
  assumes "address q p"
  shows "is_valid_ip (dotted q) = Some True" "length (dotted q) < 16" "dotted q \<noteq> []" "plain (dotted q)"
    "is_valid_port (decimal p) = Some True" "length (decimal p) < 8" "plain (decimal p)" "decimal p \<noteq> []"
proof -
  obtain a b c d where q: "q = (a, b, c, d)" by (cases q)
  then have l: "a < 256" "b < 256" "c < 256" "d < 256" "p < 65536" using assms by (simp_all add: address_def)
  show "is_valid_ip (dotted q) = Some True" using is_valid_ip_dotted [of a b c d "[]"] l q by (simp add: ends_number_def)
  have three: "length (decimal x) \<le> 3" if "x < 256" for x using that by (intro length_decimal) simp_all
  then show "length (dotted q) < 16" using three [OF l(1)] three [OF l(2)] three [OF l(3)] three [OF l(4)] q by simp
  show "dotted q \<noteq> []" "plain (dotted q)" "plain (decimal p)" "decimal p \<noteq> []"
    using q plain_dotted plain_decimal decimal_nonempty by auto
  show "is_valid_port (decimal p) = Some True"
    using is_valid_port_decimal [of p "[]"] l by (simp add: ends_number_def)
  have "length (decimal p) \<le> 5" using l by (intro length_decimal) simp_all
  then show "length (decimal p) < 8" by simp
qed

text \<open>A configuration file.\<close>

definition config_file :: "keys \<Rightarrow> nat \<times> nat \<times> nat \<times> nat \<Rightarrow> nat \<Rightarrow> nat \<times> nat \<times> nat \<times> nat \<Rightarrow> nat \<Rightarrow> string" where
  "config_file k q1 p1 q2 p2 =
     OWN_IP k @ dotted q1 @ newline # OWN_PORT k @ decimal p1 @ newline #
     OTHER_IP k @ dotted q2 @ newline # OTHER_PORT k @ decimal p2 @ newline # []"

definition keys_ok :: "keys \<Rightarrow> bool" where
  "keys_ok k \<longleftrightarrow> (\<forall>key \<in> {OWN_IP k, OWN_PORT k, OTHER_IP k, OTHER_PORT k}. plain key \<and> length key < 100) \<and>
     (\<forall>v. \<not> starts_with (OWN_PORT k @ v) (OWN_IP k) \<and> \<not> starts_with (OTHER_IP k @ v) (OWN_IP k) \<and>
       \<not> starts_with (OTHER_IP k @ v) (OWN_PORT k) \<and> \<not> starts_with (OTHER_PORT k @ v) (OWN_IP k) \<and>
       \<not> starts_with (OTHER_PORT k @ v) (OWN_PORT k) \<and> \<not> starts_with (OTHER_PORT k @ v) (OTHER_IP k))"

lemma config_lines:
  assumes "keys_ok k" "plain v"
  shows "config_line k c (OWN_IP k @ v @ [newline]) =
      set_result (\<lambda>f. c\<lparr>own_ip := f\<rparr>) (store_checked is_valid_ip (own_ip c) v)"
    and "config_line k c (OWN_PORT k @ v @ [newline]) =
      set_result (\<lambda>f. c\<lparr>own_port := f\<rparr>) (store_checked is_valid_port (own_port c) v)"
    and "config_line k c (OTHER_IP k @ v @ [newline]) =
      set_result (\<lambda>f. c\<lparr>other_ip := f\<rparr>) (store_checked is_valid_ip (other_ip c) v)"
    and "config_line k c (OTHER_PORT k @ v @ [newline]) =
      set_result (\<lambda>f. c\<lparr>other_port := f\<rparr>) (store_checked is_valid_port (other_port c) v)"
  using assms line_value [OF _ assms(2), of "OWN_IP k"] line_value [OF _ assms(2), of "OWN_PORT k"]
    line_value [OF _ assms(2), of "OTHER_IP k"] line_value [OF _ assms(2), of "OTHER_PORT k"]
  by (simp_all add: config_line_def Let_def keys_ok_def)

definition zero_padded :: "nat \<Rightarrow> string \<Rightarrow> string" where
  "zero_padded n v = v @ replicate (n - length v) (CHR 0x00)"

lemma config_read_back:
  assumes "keys_ok k" "address q1 p1" "address q2 p2"
    and "fresh 16 (own_ip c)" "fresh 8 (own_port c)" "fresh 16 (other_ip c)" "fresh 8 (other_port c)"
  shows "\<exists>c'. read_config k c (config_file k q1 p1 q2 p2) = Some (Inr c') \<and>
    own_ip c' = zero_padded 16 (dotted q1) \<and> own_port c' = zero_padded 8 (decimal p1) \<and>
    other_ip c' = zero_padded 16 (dotted q2) \<and> other_port c' = zero_padded 8 (decimal p2) \<and>
    text_of (own_ip c') = Some (dotted q1) \<and> text_of (own_port c') = Some (decimal p1) \<and>
    text_of (other_ip c') = Some (dotted q2) \<and> text_of (other_port c') = Some (decimal p2)"
proof -
  note A = address_facts [OF assms(2)] and B = address_facts [OF assms(3)]
  have nul: "CHR 0x00 \<notin> set v" if "plain v" for v using that by (auto simp: plain_def)
  have keys: "plain (OWN_IP k)" "plain (OWN_PORT k)" "plain (OTHER_IP k)" "plain (OTHER_PORT k)"
    "length (OWN_IP k) < 100" "length (OWN_PORT k) < 100" "length (OTHER_IP k) < 100" "length (OTHER_PORT k) < 100"
    using assms(1) by (auto simp: keys_ok_def)
  note s1 = store_fresh [where valid = is_valid_ip, OF assms(4) A(3,2) nul [OF A(4)] A(1)]
    and s2 = store_fresh [where valid = is_valid_port, OF assms(5) A(8,6) nul [OF A(7)] A(5)]
    and s3 = store_fresh [where valid = is_valid_ip, OF assms(6) B(3,2) nul [OF B(4)] B(1)]
    and s4 = store_fresh [where valid = is_valid_port, OF assms(7) B(8,6) nul [OF B(7)] B(5)]
  let ?pad = "\<lambda>n v. v @ replicate (n - length v) (CHR 0x00)"
  let ?c1 = "c\<lparr>own_ip := ?pad 16 (dotted q1)\<rparr>"
  let ?c2 = "?c1\<lparr>own_port := ?pad 8 (decimal p1)\<rparr>"
  let ?c3 = "?c2\<lparr>other_ip := ?pad 16 (dotted q2)\<rparr>"
  let ?c4 = "?c3\<lparr>other_port := ?pad 8 (decimal p2)\<rparr>"
  note L = config_lines [OF assms(1)]
  have "read_config k c (config_file k q1 p1 q2 p2) = Some (Inr ?c4)"
    unfolding config_file_def
    using keys A B s1(1) s2(1) s3(1) s4(1)
    by (simp add: read_config_line [where c' = ?c1] read_config_line [where c' = ?c2]
        read_config_line [where c' = ?c3] read_config_line [where c' = ?c4] L set_result_def
        read_config.simps [of _ _ "[]"] del: dotted.simps)
  then show ?thesis using s1(2) s2(2) s3(2) s4(2) by (simp add: zero_padded_def del: dotted.simps)
qed

lemma peer_keys_ok: "keys_ok peer_keys"
  by (simp add: keys_ok_def peer_keys_def starts_with_def plain_def)

lemma networking_keys_ok: "keys_ok networking_keys"
  by (simp add: keys_ok_def networking_keys_def starts_with_def plain_def)

lemma fresh_initial: "0 < n \<Longrightarrow> fresh n (replicate n (CHR 0x00))" "0 < n \<Longrightarrow> fresh n (x # replicate (n - 1) (CHR 0x00))"
  by (cases n; simp add: fresh_def)+

lemma peer_config_fresh: "fresh 16 (own_ip peer_config)" "fresh 8 (own_port peer_config)"
  "fresh 16 (other_ip peer_config)" "fresh 8 (other_port peer_config)"
  using fresh_initial [of 16] fresh_initial [of 8] by (simp_all add: peer_config_def)

lemma networking_config_fresh: "fresh 16 (own_ip networking_config)" "fresh 8 (own_port networking_config)"
  "fresh 16 (other_ip networking_config)" "fresh 8 (other_port networking_config)"
  using fresh_initial(1) [of 16] fresh_initial(1) [of 8] by (simp_all add: networking_config_def)

section \<open>Properties\<close>

text \<open>
  C22: a configuration file with two addresses in dotted decimal notation and two port numbers
  is read back: both programs exit neither with a complaint nor leave a buffer, and then
  hold exactly these four strings.
\<close>

theorem config_files_read_back:
  assumes "address q1 p1" and "address q2 p2"
  shows "(\<exists>c. read_peer_config (config_file peer_keys q1 p1 q2 p2) = Some (Inr c) \<and>
      text_of (own_ip c) = Some (dotted q1) \<and> text_of (own_port c) = Some (decimal p1) \<and>
      text_of (other_ip c) = Some (dotted q2) \<and> text_of (other_port c) = Some (decimal p2)) \<and>
    (\<exists>c. read_networking_config (config_file networking_keys q1 p1 q2 p2) = Some (Inr c) \<and>
      text_of (own_ip c) = Some (dotted q1) \<and> text_of (own_port c) = Some (decimal p1) \<and>
      text_of (other_ip c) = Some (dotted q2) \<and> text_of (other_port c) = Some (decimal p2))"
  unfolding read_peer_config_def read_networking_config_def
  using config_read_back [OF peer_keys_ok assms peer_config_fresh]
    config_read_back [OF networking_keys_ok assms networking_config_fresh] by blast

theorem config_files_read_back_witness:
  "(\<exists>c. read_peer_config (config_file peer_keys (127, 0, 0, 1) 5000 (192, 168, 0, 255) 65535) = Some (Inr c) \<and>
      text_of (own_ip c) = Some (dotted (127, 0, 0, 1)) \<and> text_of (own_port c) = Some (decimal 5000) \<and>
      text_of (other_ip c) = Some (dotted (192, 168, 0, 255)) \<and> text_of (other_port c) = Some (decimal 65535)) \<and>
    (\<exists>c. read_networking_config (config_file networking_keys (127, 0, 0, 1) 5000 (192, 168, 0, 255) 65535) = Some (Inr c) \<and>
      text_of (own_ip c) = Some (dotted (127, 0, 0, 1)) \<and> text_of (own_port c) = Some (decimal 5000) \<and>
      text_of (other_ip c) = Some (dotted (192, 168, 0, 255)) \<and> text_of (other_port c) = Some (decimal 65535))"
  by (rule config_files_read_back) (simp_all add: address_def)

text \<open>
  Of texts that start with four numbers in dotted notation \<^verbatim>\<open>is_valid_ip\<close> accepts exactly
  those with numbers below 256, and \<^verbatim>\<open>is_valid_port\<close> of texts that start with a number
  exactly those below 65536, whatever follows the last digit.
\<close>

theorem addresses_accepted:
  assumes "a < 2 ^ 31" "b < 2 ^ 31" "c < 2 ^ 31" "d < 2 ^ 31" and "rest = [] \<or> \<not> is_digit (hd rest)"
  shows "is_valid_ip (dotted (a, b, c, d) @ rest) = Some (a < 256 \<and> b < 256 \<and> c < 256 \<and> d < 256) \<and>
    is_valid_port (decimal a @ rest) = Some (a < 65536)"
  using is_valid_ip_dotted [OF assms(1-4)] is_valid_port_decimal [OF assms(1)] assms(5)
  by (simp add: ends_number_def del: dotted.simps)

theorem addresses_accepted_witness:
  "is_valid_ip (dotted (10, 0, 0, 300) @ ''.x'') = Some (10 < (256 :: nat) \<and> 0 < (256 :: nat) \<and> 0 < (256 :: nat) \<and> 300 < (256 :: nat)) \<and>
    is_valid_port (decimal 10 @ ''.x'') = Some (10 < (65536 :: nat))"
  by (rule addresses_accepted) (simp_all add: is_digit_def)

text \<open>
  A second line for the same key that has a shorter value overwrites the start of the first
  value only, because \<^verbatim>\<open>memcpy\<close> writes no zero behind it.
\<close>

theorem second_value_keeps_tail:
  assumes "length v2 \<le> length v1" and "length v1 < n" and "CHR 0x00 \<notin> set v1" "CHR 0x00 \<notin> set v2"
  shows "\<exists>buf. set_field (v1 @ replicate (n - length v1) (CHR 0x00)) v2 = Some buf \<and>
    text_of buf = Some (v2 @ drop (length v2) v1)"
proof -
  let ?t = "v2 @ drop (length v2) v1"
  have buf: "set_field (v1 @ replicate (n - length v1) (CHR 0x00)) v2 = Some (?t @ replicate (n - length v1) (CHR 0x00))"
    using assms(1,2) by (simp add: set_field_def)
  have "CHR 0x00 \<notin> set ?t" using assms(3,4) by (auto dest: in_set_dropD)
  then have "takeWhile (\<lambda>c. c \<noteq> CHR 0x00) (?t @ replicate (n - length v1) (CHR 0x00)) = ?t"
    by (subst takeWhile_append2) (auto simp: takeWhile_replicate)
  then have "text_of (?t @ replicate (n - length v1) (CHR 0x00)) = Some ?t"
    using assms(2) by (simp add: text_of_def)
  then show ?thesis using buf by blast
qed

text \<open>Everything that starts with \<^verbatim>\<open>localhost\<close> is accepted as an address.\<close>

lemma localhost_prefix: "is_valid_ip (''localhost'' @ rest) = Some True"
  by (simp add: is_valid_ip_def eval_nat_numeral scan_int_def is_space_def is_digit_def starts_with_def)

end
