(* ===== verification/Robust_IO.thy ===== *)
theory Robust_IO
  imports Prelude
begin

text \<open>
  The robust input and output of \<^verbatim>\<open>A3/src/compsys_helpers.c\<close> (the same file as
  \<^verbatim>\<open>A4/src/compsys_helpers.c\<close>): \<^verbatim>\<open>compsys_helper_read\<close> with its internal buffer, the loops
  \<^verbatim>\<open>readn\<close>, \<^verbatim>\<open>readnb\<close> and \<^verbatim>\<open>readlineb\<close> that read in spite of short reads and interruptions, and
  \<^verbatim>\<open>writen\<close>. The system calls \<^verbatim>\<open>read\<close> and \<^verbatim>\<open>write\<close> are parameters on the state of the
  descriptor; what the manual pages promise of \<^verbatim>\<open>read\<close> is the locale \<open>byte_source\<close>, with the
  bytes still to come as \<open>stream\<close>. \<open>None\<close> is a call that does not return, or is undefined.

  The lemmas show that the buffered reader is again a byte source whose stream is what is
  left in the buffer and then the descriptor's, and that the loops deliver exactly the
  next bytes of the stream.
\<close>

section \<open>Sources of bytes\<close>

text \<open>
  The outcome of \<^verbatim>\<open>read\<close>: the bytes stored, none of them at the end of the file; -1 with
  \<^verbatim>\<open>EINTR\<close>; -1 with another \<^verbatim>\<open>errno\<close>.
\<close>

datatype got = Got "byte list" | Eintr | Failed

type_synonym 's source = "nat \<Rightarrow> 's \<Rightarrow> (got \<times> 's) option"

section \<open>The buffered reader\<close>

record 's rio =
  rio_fd :: 's
  rio_cnt :: int
  rio_bufptr :: nat
  rio_buf :: "byte list"

definition BUFSIZE :: nat where "BUFSIZE = 8192"

definition rio_readinitb :: "'s \<Rightarrow> 's rio \<Rightarrow> 's rio" where
  "rio_readinitb fd rp = rp\<lparr>rio_fd := fd, rio_cnt := 0, rio_bufptr := 0\<rparr>"

text \<open>The cast \<^verbatim>\<open>(int) n\<close> of a \<^verbatim>\<open>size_t\<close>.\<close>

definition to_int :: "nat \<Rightarrow> int" where
  "to_int n = sint (of_nat n :: cint)"

text \<open>The copy after the loop, at most \<open>n\<close> of the unread bytes.\<close>

definition rio_copy :: "nat \<Rightarrow> 's rio \<Rightarrow> (got \<times> 's rio) option" where
  "rio_copy n rp =
     (let cnt = (if rio_cnt rp < to_int n then rio_cnt rp else to_int n)
      in if cnt < 0 \<or> length (rio_buf rp) < rio_bufptr rp + nat cnt then None
         else Some (Got (take (nat cnt) (drop (rio_bufptr rp) (rio_buf rp))),
           rp\<lparr>rio_bufptr := rio_bufptr rp + nat cnt, rio_cnt := rio_cnt rp - cnt\<rparr>))"

partial_function (option) rio_read :: "'s source \<Rightarrow> nat \<Rightarrow> 's rio \<Rightarrow> (got \<times> 's rio) option" where
  "rio_read read n rp =
     (if rio_cnt rp \<le> 0 then
        (case read BUFSIZE (rio_fd rp) of
           None \<Rightarrow> None
         | Some (Got bs, fd) \<Rightarrow>
             if bs = [] then Some (Got [], rp\<lparr>rio_fd := fd, rio_cnt := 0\<rparr>)
             else rio_read read n (rp\<lparr>rio_fd := fd, rio_cnt := int (length bs),
               rio_buf := bs @ drop (length bs) (rio_buf rp), rio_bufptr := 0\<rparr>)
         | Some (Eintr, fd) \<Rightarrow> rio_read read n (rp\<lparr>rio_fd := fd, rio_cnt := - 1\<rparr>)
         | Some (Failed, fd) \<Rightarrow> Some (Failed, rp\<lparr>rio_fd := fd, rio_cnt := - 1\<rparr>))
      else rio_copy n rp)"

section \<open>Reading exactly\<close>

text \<open>
  The loop of \<^verbatim>\<open>readn\<close> and \<^verbatim>\<open>readnb\<close>: the bytes stored and whether the result is their
  number (or else -1). Only \<^verbatim>\<open>readn\<close> calls \<^verbatim>\<open>read\<close> again after an interruption.
\<close>

partial_function (option) rio_loop ::
    "bool \<Rightarrow> 's source \<Rightarrow> nat \<Rightarrow> 's \<Rightarrow> ((byte list \<times> bool) \<times> 's) option" where
  "rio_loop retry rd nleft s =
     (if nleft = 0 then Some (([], True), s)
      else case rd nleft s of
        None \<Rightarrow> None
      | Some (Got bs, s) \<Rightarrow>
          if bs = [] then Some (([], True), s)
          else Option.bind (rio_loop retry rd (nleft - length bs) s)
            (\<lambda>((stored, r), s). Some ((bs @ stored, r), s))
      | Some (Eintr, s) \<Rightarrow> if retry then rio_loop retry rd nleft s else Some (([], False), s)
      | Some (Failed, s) \<Rightarrow> Some (([], False), s))"

definition rio_readn :: "'s source \<Rightarrow> nat \<Rightarrow> 's \<Rightarrow> ((byte list \<times> bool) \<times> 's) option" where
  "rio_readn read n s = rio_loop True read n s"

definition rio_readnb :: "'s source \<Rightarrow> nat \<Rightarrow> 's rio \<Rightarrow> ((byte list \<times> bool) \<times> 's rio) option" where
  "rio_readnb read n rp = rio_loop False (rio_read read) n rp"

text \<open>
  The loop of \<^verbatim>\<open>readlineb\<close> with \<open>k\<close> characters of room left; \<open>first\<close> is \<^verbatim>\<open>n == 1\<close>. The end of
  the file before the first character gives the result 0 and no terminating zero.
\<close>

datatype line_result = Line "byte list" | End_of_file | Error

primrec cons_line :: "byte \<Rightarrow> line_result \<Rightarrow> line_result" where
  "cons_line c (Line cs) = Line (c # cs)"
| "cons_line c End_of_file = End_of_file"
| "cons_line c Error = Error"

primrec readline_loop :: "'s source \<Rightarrow> nat \<Rightarrow> bool \<Rightarrow> 's rio \<Rightarrow> (line_result \<times> 's rio) option" where
  "readline_loop read 0 first rp = Some (Line [], rp)"
| "readline_loop read (Suc k) first rp =
     (case rio_read read 1 rp of
        None \<Rightarrow> None
      | Some (Got [], rp) \<Rightarrow> Some (if first then End_of_file else Line [], rp)
      | Some (Got (c # _), rp) \<Rightarrow>
          if c = 10 then Some (Line [c], rp)
          else Option.bind (readline_loop read k False rp) (\<lambda>(l, rp). Some (cons_line c l, rp))
      | Some (_, rp) \<Rightarrow> Some (Error, rp))"

text \<open>With \<open>maxlen = 0\<close> the terminating zero is stored outside the buffer.\<close>

definition rio_readlineb :: "'s source \<Rightarrow> nat \<Rightarrow> 's rio \<Rightarrow> (line_result \<times> 's rio) option" where
  "rio_readlineb read maxlen rp =
     (if maxlen = 0 then None else readline_loop read (maxlen - 1) True rp)"

section \<open>Writing\<close>

text \<open>
  The outcome of \<^verbatim>\<open>write\<close>: how many bytes were taken, at least one; a result of 0 or -1 is
  judged by \<^verbatim>\<open>errno\<close>.
\<close>

datatype put = Put nat | Put_eintr | Put_failed

partial_function (option) rio_writen ::
    "(byte list \<Rightarrow> 's \<Rightarrow> put \<times> 's) \<Rightarrow> byte list \<Rightarrow> 's \<Rightarrow> (bool \<times> 's) option" where
  "rio_writen write bufp s =
     (if bufp = [] then Some (True, s)
      else case write bufp s of
        (Put nwritten, s) \<Rightarrow> rio_writen write (drop nwritten bufp) s
      | (Put_eintr, s) \<Rightarrow> rio_writen write bufp s
      | (Put_failed, s) \<Rightarrow> Some (False, s))"

section \<open>What a source promises\<close>

text \<open>
  The bytes come from the stream in order, at most as many as asked for and none only at
  its end; failures and interruptions take none, and interruptions do not go on for ever.
\<close>

locale byte_source =
  fixes rd :: "'s source"
    and ok :: "'s \<Rightarrow> bool"
    and stream :: "'s \<Rightarrow> byte list"
    and interrupts :: "'s \<Rightarrow> nat"
  assumes rd: "ok s \<Longrightarrow> 0 < n \<Longrightarrow> n < 2 ^ 31 \<Longrightarrow>
    \<exists>g s'. rd n s = Some (g, s') \<and> ok s' \<and>
      (case g of
         Got bs \<Rightarrow> length bs \<le> n \<and> stream s = bs @ stream s' \<and> (bs = [] \<longrightarrow> stream s = [])
       | Eintr \<Rightarrow> stream s' = stream s \<and> interrupts s' < interrupts s
       | Failed \<Rightarrow> stream s' = stream s)"
begin

lemma rd_cases:
  assumes "ok s" "0 < n" "n < 2 ^ 31"
  obtains bs s' where "rd n s = Some (Got bs, s')" "ok s'" "length bs \<le> n" "stream s = bs @ stream s'"
      "bs = [] \<Longrightarrow> stream s = []"
  | s' where "rd n s = Some (Eintr, s')" "ok s'" "stream s' = stream s" "interrupts s' < interrupts s"
  | s' where "rd n s = Some (Failed, s')" "ok s'" "stream s' = stream s"
proof -
  obtain g s' where "rd n s = Some (g, s')" "ok s'"
    "case g of Got bs \<Rightarrow> length bs \<le> n \<and> stream s = bs @ stream s' \<and> (bs = [] \<longrightarrow> stream s = [])
     | Eintr \<Rightarrow> stream s' = stream s \<and> interrupts s' < interrupts s | Failed \<Rightarrow> stream s' = stream s"
    using rd [OF assms] by blast
  then show thesis by (cases g) (auto intro: that)
qed

text \<open>Reading \<open>n\<close> bytes gives the next \<open>n\<close> bytes of the stream or all there are, or fails.\<close>

definition delivers :: "nat \<Rightarrow> 's \<Rightarrow> (byte list \<times> bool) \<times> 's \<Rightarrow> bool" where
  "delivers n s = (\<lambda>((stored, r), s'). ok s' \<and> length stored \<le> n \<and> stream s = stored @ stream s' \<and>
     (r \<longrightarrow> stored = take n (stream s)))"

lemma rio_loop_delivers:
  assumes "ok s" and "n < 2 ^ 31"
  shows "\<exists>r. rio_loop retry rd n s = Some r \<and> delivers n s r"
  using assms
proof (induction "(n, interrupts s)" arbitrary: n s rule: wf_induct_rule [OF wf_lex_prod [OF wf_less wf_less]])
  case (1 n s)
  show ?case
  proof (cases "n = 0")
    case True
    then show ?thesis using "1.prems" by (simp add: rio_loop.simps delivers_def)
  next
    case False
    then have n: "0 < n" by simp
    show ?thesis
    proof (rule rd_cases [OF "1.prems"(1) n "1.prems"(2)])
      fix bs s'
      assume g: "rd n s = Some (Got bs, s')" "ok s'" "length bs \<le> n" "stream s = bs @ stream s'"
        and e: "bs = [] \<Longrightarrow> stream s = []"
      show ?thesis
      proof (cases "bs = []")
        case True
        then show ?thesis using g e n by (simp add: rio_loop.simps [of _ _ n s] delivers_def)
      next
        case False
        then have "n - length bs < n" "n - length bs < 2 ^ 31" using n "1.prems"(2) by auto
        then have "\<exists>r. rio_loop retry rd (n - length bs) s' = Some r \<and> delivers (n - length bs) s' r"
          by (intro "1.hyps") (use g(2) in auto)
        then obtain st r s'' where r: "rio_loop retry rd (n - length bs) s' = Some ((st, r), s'')"
            "delivers (n - length bs) s' ((st, r), s'')"
          by (metis surj_pair)
        have "rio_loop retry rd n s = Some ((bs @ st, r), s'')"
          using g n False r(1) by (simp add: rio_loop.simps [of _ _ n s])
        moreover have "delivers n s ((bs @ st, r), s'')"
        proof -
          note d = r(2) [unfolded delivers_def prod.case]
          have "take n (stream s) = bs @ take (n - length bs) (stream s')" using g(3,4) by simp
          moreover have "stream s = (bs @ st) @ stream s''" using g(4) d by (metis append.assoc)
          moreover have "length (bs @ st) \<le> n" using g(3) d unfolding length_append by linarith
          ultimately show ?thesis unfolding delivers_def prod.case using d by metis
        qed
        ultimately show ?thesis by blast
      qed
    next
      fix s' assume g: "rd n s = Some (Eintr, s')" "ok s'" "stream s' = stream s" "interrupts s' < interrupts s"
      obtain r where r: "rio_loop retry rd n s' = Some r" "delivers n s' r"
        using "1.hyps" [of n s'] "1.prems"(2) g by auto
      then have "delivers n s r" unfolding delivers_def g(3) by simp
      then show ?thesis
        using r n g by (cases retry) (simp_all add: rio_loop.simps [of _ _ n s] delivers_def)
    next
      fix s' assume "rd n s = Some (Failed, s')" "ok s'" "stream s' = stream s"
      then show ?thesis using n by (simp add: rio_loop.simps [of _ _ n s] delivers_def)
    qed
  qed
qed

end

section \<open>The buffered reader is a source\<close>

text \<open>The bytes between \<^verbatim>\<open>bufptr\<close> and \<^verbatim>\<open>bufptr + cnt\<close>.\<close>

definition unread :: "'s rio \<Rightarrow> byte list" where
  "unread rp = take (nat (rio_cnt rp)) (drop (rio_bufptr rp) (rio_buf rp))"

definition rio_ok :: "('s \<Rightarrow> bool) \<Rightarrow> 's rio \<Rightarrow> bool" where
  "rio_ok ok rp \<longleftrightarrow> ok (rio_fd rp) \<and>
     (0 < rio_cnt rp \<longrightarrow> rio_bufptr rp + nat (rio_cnt rp) \<le> length (rio_buf rp))"

definition rio_stream :: "('s \<Rightarrow> byte list) \<Rightarrow> 's rio \<Rightarrow> byte list" where
  "rio_stream stream rp = unread rp @ stream (rio_fd rp)"

lemma to_int_small: "n < 2 ^ 31 \<Longrightarrow> to_int n = int n"
  by (simp add: to_int_def signed_of_nat signed_take_bit_int_eq_self)

lemma rio_copy_spec:
  assumes "rio_ok ok rp" and "0 < rio_cnt rp" and "0 < n" and "n < 2 ^ 31"
  shows "\<exists>bs rp'. rio_copy n rp = Some (Got bs, rp') \<and> rio_ok ok rp' \<and> bs \<noteq> [] \<and> length bs \<le> n \<and>
    unread rp = bs @ unread rp' \<and> rio_fd rp' = rio_fd rp"
proof -
  define k where "k = min (nat (rio_cnt rp)) n"
  have cnt: "(if rio_cnt rp < to_int n then rio_cnt rp else to_int n) = int k"
    using assms(2,4) by (auto simp: k_def to_int_small)
  have k: "0 < k" "k \<le> n" "int k \<le> rio_cnt rp" using assms(2,3) by (auto simp: k_def)
  have fits: "rio_bufptr rp + nat (rio_cnt rp) \<le> length (rio_buf rp)" using assms(1,2) by (simp add: rio_ok_def)
  let ?rp = "rp\<lparr>rio_bufptr := rio_bufptr rp + k, rio_cnt := rio_cnt rp - int k\<rparr>"
  have "k + nat (rio_cnt rp - int k) = nat (rio_cnt rp)" using k by simp
  then have "unread rp = take k (drop (rio_bufptr rp) (rio_buf rp)) @ unread ?rp"
    by (simp add: unread_def) (metis drop_drop take_add add.commute)
  moreover have "rio_copy n rp = Some (Got (take k (drop (rio_bufptr rp) (rio_buf rp))), ?rp)"
    using k fits by (simp add: rio_copy_def cnt Let_def)
  moreover have "rio_ok ok ?rp" using assms(1) k fits by (auto simp: rio_ok_def)
  ultimately show ?thesis using k fits by auto
qed

locale buffered_source = byte_source rd ok stream interrupts
  for rd :: "'s source" and ok and stream and interrupts
begin

lemma rio_read_spec:
  assumes "rio_ok ok rp" and n: "0 < n" "n < 2 ^ 31"
  shows "\<exists>g rp'. rio_read rd n rp = Some (g, rp') \<and> rio_ok ok rp' \<and>
    (case g of
       Got bs \<Rightarrow> length bs \<le> n \<and> rio_stream stream rp = bs @ rio_stream stream rp' \<and>
         (bs = [] \<longrightarrow> rio_stream stream rp = [])
     | Eintr \<Rightarrow> False
     | Failed \<Rightarrow> rio_stream stream rp' = rio_stream stream rp)"
  using assms(1)
proof (induction "interrupts (rio_fd rp)" arbitrary: rp rule: less_induct)
  case less
  show ?case
  proof (cases "0 < rio_cnt rp")
    case True
    then show ?thesis using rio_copy_spec [OF less.prems True n]
      by (auto simp: rio_read.simps [of _ n rp] rio_stream_def)
  next
    case False
    then have empty: "unread rp = []" by (simp add: unread_def)
    have fd: "ok (rio_fd rp)" using less.prems by (simp add: rio_ok_def)
    show ?thesis
    proof (rule rd_cases [OF fd, of BUFSIZE])
      fix bs fd' assume g: "rd BUFSIZE (rio_fd rp) = Some (Got bs, fd')" "ok fd'"
        "stream (rio_fd rp) = bs @ stream fd'" and e: "bs = [] \<Longrightarrow> stream (rio_fd rp) = []"
      show ?thesis
      proof (cases "bs = []")
        case True
        then show ?thesis using False g e empty
          by (auto simp: rio_read.simps [of _ n rp] rio_ok_def rio_stream_def unread_def)
      next
        case bs: False
        let ?rp = "rp\<lparr>rio_fd := fd', rio_cnt := int (length bs),
          rio_buf := bs @ drop (length bs) (rio_buf rp), rio_bufptr := 0\<rparr>"
        have "rio_ok ok ?rp" "0 < rio_cnt ?rp" using g bs by (simp_all add: rio_ok_def)
        moreover have "rio_stream stream ?rp = rio_stream stream rp"
          using g empty by (simp add: rio_stream_def unread_def)
        moreover have "rio_read rd n rp = rio_copy n ?rp"
          using False g bs by (simp add: rio_read.simps [of _ n rp] rio_read.simps [of _ n ?rp])
        moreover obtain bs' rp' where "rio_copy n ?rp = Some (Got bs', rp')" "rio_ok ok rp'" "bs' \<noteq> []"
            "length bs' \<le> n" "rio_stream stream ?rp = bs' @ rio_stream stream rp'"
          using rio_copy_spec [OF calculation(1,2) n] by (auto simp: rio_stream_def)
        ultimately show ?thesis by simp
      qed
    next
      fix fd' assume g: "rd BUFSIZE (rio_fd rp) = Some (Eintr, fd')" "ok fd'"
        "stream fd' = stream (rio_fd rp)" "interrupts fd' < interrupts (rio_fd rp)"
      let ?rp = "rp\<lparr>rio_fd := fd', rio_cnt := - 1\<rparr>"
      have ok: "rio_ok ok ?rp" and st: "rio_stream stream ?rp = rio_stream stream rp"
        using g empty by (simp_all add: rio_ok_def rio_stream_def unread_def)
      have "rio_read rd n rp = rio_read rd n ?rp"
        using False g by (simp add: rio_read.simps [of _ n rp])
      then show ?thesis using less.hyps [OF _ ok] g(4) unfolding st by simp
    next
      fix fd' assume "rd BUFSIZE (rio_fd rp) = Some (Failed, fd')" "ok fd'"
        "stream fd' = stream (rio_fd rp)"
      then show ?thesis using False empty
        by (auto simp: rio_read.simps [of _ n rp] rio_ok_def rio_stream_def unread_def)
    qed (simp_all add: BUFSIZE_def)
  qed
qed

end

sublocale buffered_source \<subseteq> buffered: byte_source "rio_read rd" "rio_ok ok" "rio_stream stream" "\<lambda>_. 0"
proof
  fix rp :: "'s rio" and n :: nat
  assume "rio_ok ok rp" "0 < n" "n < 2 ^ 31"
  from rio_read_spec [OF this] show "\<exists>g rp'. rio_read rd n rp = Some (g, rp') \<and> rio_ok ok rp' \<and>
      (case g of
         Got bs \<Rightarrow> length bs \<le> n \<and> rio_stream stream rp = bs @ rio_stream stream rp' \<and>
           (bs = [] \<longrightarrow> rio_stream stream rp = [])
       | Eintr \<Rightarrow> rio_stream stream rp' = rio_stream stream rp \<and> 0 < (0 :: nat)
       | Failed \<Rightarrow> rio_stream stream rp' = rio_stream stream rp)"
    by (metis (no_types, lifting) got.case(1) got.case(3) got.exhaust got.simps(9))
qed

section \<open>Lines\<close>

text \<open>The next line with its newline, cut off after \<open>k\<close> bytes.\<close>

fun line_of :: "nat \<Rightarrow> byte list \<Rightarrow> byte list" where
  "line_of 0 cs = []"
| "line_of (Suc k) [] = []"
| "line_of (Suc k) (c # cs) = (if c = 10 then [c] else c # line_of k cs)"

context buffered_source
begin

definition reads_line :: "nat \<Rightarrow> bool \<Rightarrow> 's rio \<Rightarrow> line_result \<times> 's rio \<Rightarrow> bool" where
  "reads_line k first rp = (\<lambda>(l, rp'). rio_ok ok rp' \<and>
     (case l of
        Line cs \<Rightarrow> cs = line_of k (rio_stream stream rp) \<and> rio_stream stream rp = cs @ rio_stream stream rp'
      | End_of_file \<Rightarrow> first \<and> rio_stream stream rp = [] \<and> rio_stream stream rp' = []
      | Error \<Rightarrow> \<exists>taken. rio_stream stream rp = taken @ rio_stream stream rp'))"

lemma readline_loop_reads:
  "rio_ok ok rp \<Longrightarrow> \<exists>r. readline_loop rd k first rp = Some r \<and> reads_line k first rp r"
proof (induction k arbitrary: first rp)
  case 0
  then show ?case by (simp add: reads_line_def)
next
  case (Suc k)
  obtain g rp' where g: "rio_read rd 1 rp = Some (g, rp')" "rio_ok ok rp'"
    and spec: "case g of
       Got bs \<Rightarrow> length bs \<le> 1 \<and> rio_stream stream rp = bs @ rio_stream stream rp' \<and>
         (bs = [] \<longrightarrow> rio_stream stream rp = [])
     | Eintr \<Rightarrow> False | Failed \<Rightarrow> rio_stream stream rp' = rio_stream stream rp"
    using rio_read_spec [OF Suc.prems, of 1] by auto
  show ?case
  proof (cases g)
    case (Got bs)
    show ?thesis
    proof (cases bs)
      case Nil
      then show ?thesis using g spec Got by (auto simp: reads_line_def)
    next
      case (Cons c cs)
      then have c: "bs = [c]" "rio_stream stream rp = c # rio_stream stream rp'" using spec Got by auto
      show ?thesis
      proof (cases "c = 10")
        case True
        then show ?thesis using g c Got by (auto simp: reads_line_def)
      next
        case False
        obtain l rp'' where r: "readline_loop rd k False rp' = Some (l, rp'')" "reads_line k False rp' (l, rp'')"
          using Suc.IH [OF g(2), of False] by (metis surj_pair)
        have "reads_line (Suc k) first rp (cons_line c l, rp'')"
        proof (cases l)
          case (Line cs)
          then have f: "rio_ok ok rp''" "cs = line_of k (rio_stream stream rp')"
              "rio_stream stream rp' = cs @ rio_stream stream rp''"
            using r(2) unfolding reads_line_def Line prod.case line_result.case by blast+
          have lo: "line_of (Suc k) (rio_stream stream rp) = c # cs" unfolding c(2) f(2) using False by simp
          have st: "rio_stream stream rp = (c # cs) @ rio_stream stream rp''" using c(2) f(3) by simp
          show ?thesis
            unfolding reads_line_def Line prod.case cons_line.simps line_result.case
            by (intro conjI f(1) lo [symmetric] st)
        next
          case Error
          then obtain taken where "rio_stream stream rp' = taken @ rio_stream stream rp''" "rio_ok ok rp''"
            using r(2) by (auto simp: reads_line_def)
          then show ?thesis using c(2) Error by (auto simp: reads_line_def intro: exI [of _ "c # taken"])
        qed (use r(2) in \<open>simp add: reads_line_def\<close>)
        then show ?thesis using g c Got r(1) False by auto
      qed
    qed
  qed (use g spec in \<open>auto simp: reads_line_def\<close>)
qed

end

section \<open>What a sink promises\<close>

text \<open>
  \<open>accepted\<close> is what was written so far: \<^verbatim>\<open>write\<close> takes the first of the bytes offered, at
  least one unless it fails or is interrupted, and interruptions do not go on for ever.
\<close>

locale byte_sink =
  fixes wr :: "byte list \<Rightarrow> 's \<Rightarrow> put \<times> 's"
    and accepted :: "'s \<Rightarrow> byte list"
    and interrupts :: "'s \<Rightarrow> nat"
  assumes wr: "bs \<noteq> [] \<Longrightarrow> wr bs s = (p, s') \<Longrightarrow>
    (case p of
       Put k \<Rightarrow> 0 < k \<and> k \<le> length bs \<and> accepted s' = accepted s @ take k bs
     | Put_eintr \<Rightarrow> accepted s' = accepted s \<and> interrupts s' < interrupts s
     | Put_failed \<Rightarrow> accepted s' = accepted s)"
begin

lemma writen_writes:
  "\<exists>ok s'. rio_writen wr bs s = Some (ok, s') \<and>
     (\<exists>done todo. bs = done @ todo \<and> accepted s' = accepted s @ done \<and> (ok \<longrightarrow> todo = []))"
proof (induction "(length bs, interrupts s)" arbitrary: bs s
    rule: wf_induct_rule [OF wf_lex_prod [OF wf_less wf_less]])
  case (1 bs s)
  show ?case
  proof (cases "bs = []")
    case True
    then show ?thesis by (auto simp: rio_writen.simps)
  next
    case False
    obtain p s1 where p: "wr bs s = (p, s1)" by (cases "wr bs s")
    show ?thesis
    proof (cases p)
      case (Put k)
      then have k: "0 < k" "k \<le> length bs" "accepted s1 = accepted s @ take k bs"
        using wr [OF False p] by simp_all
      have "\<exists>ok s'. rio_writen wr (drop k bs) s1 = Some (ok, s') \<and> (\<exists>done todo. drop k bs = done @ todo \<and>
          accepted s' = accepted s1 @ done \<and> (ok \<longrightarrow> todo = []))"
        by (rule "1.hyps") (use k False in auto)
      then obtain ok s' d t where r: "rio_writen wr (drop k bs) s1 = Some (ok, s')" "drop k bs = d @ t"
          "accepted s' = accepted s1 @ d" "ok \<longrightarrow> t = []" by blast
      have "bs = (take k bs @ d) @ t" using r(2) by (metis append.assoc append_take_drop_id)
      moreover have "rio_writen wr bs s = Some (ok, s')"
        using r(1) False p Put by (simp add: rio_writen.simps [of _ bs s])
      moreover have "accepted s' = accepted s @ (take k bs @ d)" using r(3) k(3) by simp
      ultimately show ?thesis using r(4) by blast
    next
      case Put_eintr
      then have "accepted s1 = accepted s" "interrupts s1 < interrupts s" using wr [OF False p] by simp_all
      then show ?thesis using "1.hyps" [of bs s1] False p Put_eintr
        by (simp add: rio_writen.simps [of _ bs s])
    next
      case Put_failed
      then show ?thesis using wr [OF False p] False p
        by (auto simp: rio_writen.simps [of _ bs s])
    qed
  qed
qed

end

context buffered_source
begin

lemma readn_spec:
  assumes "ok s" and "n < 2 ^ 31"
  shows "\<exists>stored r s'. rio_readn rd n s = Some ((stored, r), s') \<and> ok s' \<and>
    length stored \<le> n \<and> stream s = stored @ stream s' \<and> (r \<longrightarrow> stored = take n (stream s))"
  using rio_loop_delivers [OF assms, of True] by (auto simp: rio_readn_def delivers_def)

lemma readnb_spec:
  assumes "rio_ok ok rp" and "n < 2 ^ 31"
  shows "\<exists>stored r rp'. rio_readnb rd n rp = Some ((stored, r), rp') \<and> rio_ok ok rp' \<and>
    length stored \<le> n \<and> rio_stream stream rp = stored @ rio_stream stream rp' \<and>
    (r \<longrightarrow> stored = take n (rio_stream stream rp))"
  using buffered.rio_loop_delivers [OF assms, of False]
  by (auto simp: rio_readnb_def buffered.delivers_def)

lemma readlineb_spec:
  assumes "rio_ok ok rp" and "0 < maxlen"
  shows "\<exists>l rp'. rio_readlineb rd maxlen rp = Some (l, rp') \<and> rio_ok ok rp' \<and>
    (case l of
       Line cs \<Rightarrow> cs = line_of (maxlen - 1) (rio_stream stream rp) \<and>
         rio_stream stream rp = cs @ rio_stream stream rp'
     | End_of_file \<Rightarrow> rio_stream stream rp = [] \<and> rio_stream stream rp' = []
     | Error \<Rightarrow> \<exists>taken. rio_stream stream rp = taken @ rio_stream stream rp')"
proof -
  obtain l rp' where r: "readline_loop rd (maxlen - 1) True rp = Some (l, rp')"
      "reads_line (maxlen - 1) True rp (l, rp')"
    using readline_loop_reads [OF assms(1)] by (metis surj_pair)
  have "rio_readlineb rd maxlen rp = Some (l, rp')"
    using assms(2) r(1) by (simp add: rio_readlineb_def)
  moreover note r(2) [unfolded reads_line_def prod.case simp_thms]
  ultimately show ?thesis by (intro exI conjI) (assumption | elim conjE)+
qed

end

section \<open>Descriptors that do not fail\<close>

context byte_source
begin

lemma rio_loop_reliable:
  assumes "\<And>n s g s'. ok s \<Longrightarrow> 0 < n \<Longrightarrow> n < 2 ^ 31 \<Longrightarrow> rd n s = Some (g, s') \<Longrightarrow> \<exists>bs. g = Got bs"
    and "ok s" and "n < 2 ^ 31" and "rio_loop retry rd n s = Some ((stored, r), s')"
  shows "r"
  using assms(2-)
proof (induction n arbitrary: s stored rule: less_induct)
  case (less n)
  show ?case
  proof (cases "n = 0")
    case True
    then show ?thesis using less.prems(3) by (simp add: rio_loop.simps)
  next
    case False
    then have n: "0 < n" by simp
    obtain bs s1 where g: "rd n s = Some (Got bs, s1)" "ok s1"
      by (rule rd_cases [OF less.prems(1) n less.prems(2)])
        (use assms(1) [OF less.prems(1) n less.prems(2)] in blast)+
    show ?thesis
    proof (cases "bs = []")
      case True
      then show ?thesis using g n less.prems(3) by (simp add: rio_loop.simps [of _ _ n s])
    next
      case False
      then obtain st where "rio_loop retry rd (n - length bs) s1 = Some ((st, r), s')"
        using g n less.prems(3) by (auto simp: rio_loop.simps [of _ _ n s] bind_eq_Some_conv)
      then show ?thesis
        using less.IH [of "n - length bs" s1 st] g(2) n less.prems(2) False by simp
    qed
  qed
qed

end

locale reliable_source = buffered_source +
  assumes no_failure: "ok s \<Longrightarrow> rd n s \<noteq> Some (Failed, s')"
begin

lemma rio_read_reliable:
  "rio_ok ok rp \<Longrightarrow> rio_read rd n rp = Some (g, rp') \<Longrightarrow> \<exists>bs. g = Got bs"
proof (induction "interrupts (rio_fd rp)" arbitrary: rp rule: less_induct)
  case less
  show ?case
  proof (cases "0 < rio_cnt rp")
    case True
    then show ?thesis using less.prems(2)
      by (auto simp: rio_read.simps [of _ n rp] rio_copy_def Let_def split: if_splits)
  next
    case False
    have fd: "ok (rio_fd rp)" using less.prems(1) by (simp add: rio_ok_def)
    show ?thesis
    proof (rule rd_cases [OF fd, of BUFSIZE])
      fix bs fd' assume "rd BUFSIZE (rio_fd rp) = Some (Got bs, fd')"
      then show ?thesis using less.prems(2) False
        by (auto simp: rio_read.simps [of _ n] rio_copy_def Let_def split: if_splits)
    next
      fix fd' assume f: "rd BUFSIZE (rio_fd rp) = Some (Eintr, fd')" "ok fd'"
        "interrupts fd' < interrupts (rio_fd rp)"
      then have "rio_ok ok (rp\<lparr>rio_fd := fd', rio_cnt := - 1\<rparr>)" by (simp add: rio_ok_def)
      moreover have "rio_read rd n (rp\<lparr>rio_fd := fd', rio_cnt := - 1\<rparr>) = Some (g, rp')"
        using less.prems(2) False f by (simp add: rio_read.simps [of _ n rp])
      ultimately show ?thesis
        using less.hyps [of "rp\<lparr>rio_fd := fd', rio_cnt := - 1\<rparr>"] f by simp
    next
      fix fd' assume "rd BUFSIZE (rio_fd rp) = Some (Failed, fd')"
      then show ?thesis using no_failure [OF fd] by simp
    qed (simp_all add: BUFSIZE_def)
  qed
qed

lemma readnb_reliable:
  assumes "rio_ok ok rp" and "n < 2 ^ 31"
  shows "\<exists>rp'. rio_readnb rd n rp = Some ((take n (rio_stream stream rp), True), rp') \<and> rio_ok ok rp' \<and>
    rio_stream stream rp' = drop n (rio_stream stream rp)"
proof -
  obtain st r rp' where r: "rio_readnb rd n rp = Some ((st, r), rp')" "rio_ok ok rp'"
      "rio_stream stream rp = st @ rio_stream stream rp'" "r \<longrightarrow> st = take n (rio_stream stream rp)"
    using readnb_spec [OF assms] by blast
  have r
    using buffered.rio_loop_reliable [OF rio_read_reliable assms] r(1)
    by (auto simp: rio_readnb_def)
  then show ?thesis using r by (metis append_eq_conv_conj append_take_drop_id)
qed

end

section \<open>A scripted descriptor\<close>

text \<open>
  A file whose calls go as a list of numbers says: 0 is an interruption, \<open>k\<close> a transfer of
  at most \<open>k\<close> bytes; after that all that is asked for. The interpretations show that the
  contracts can be met, with short transfers and interruptions.
\<close>

type_synonym scripted = "byte list \<times> nat list"

definition scripted_read :: "scripted source" where
  "scripted_read n = (\<lambda>(bs, ks).
     (case ks of
        [] \<Rightarrow> Some (Got (take n bs), (drop n bs, []))
      | k # ks \<Rightarrow>
          if k = 0 then Some (Eintr, (bs, ks)) else Some (Got (take (min n k) bs), (drop (min n k) bs, ks))))"

definition scripted_write :: "byte list \<Rightarrow> scripted \<Rightarrow> put \<times> scripted" where
  "scripted_write bs = (\<lambda>(out, ks).
     (case ks of
        [] \<Rightarrow> (Put (length bs), (out @ bs, []))
      | k # ks \<Rightarrow>
          if k = 0 then (Put_eintr, (out, ks))
          else (Put (min (length bs) k), (out @ take (min (length bs) k) bs, ks))))"

interpretation scripted: reliable_source scripted_read "\<lambda>_. True" fst "\<lambda>s. length (snd s)"
proof
  fix s :: scripted and n :: nat
  assume "0 < n"
  then show "\<exists>g s'. scripted_read n s = Some (g, s') \<and> True \<and>
      (case g of
         Got bs \<Rightarrow> length bs \<le> n \<and> fst s = bs @ fst s' \<and> (bs = [] \<longrightarrow> fst s = [])
       | Eintr \<Rightarrow> fst s' = fst s \<and> length (snd s') < length (snd s)
       | Failed \<Rightarrow> fst s' = fst s)"
    by (cases s; cases "snd s") (auto simp: scripted_read_def)
qed (auto simp: scripted_read_def split: list.splits if_splits)

interpretation scripted: byte_sink scripted_write fst "\<lambda>s. length (snd s)"
  by unfold_locales (auto simp: scripted_write_def split: list.splits if_splits)

section \<open>Properties\<close>

text \<open>
  C17: \<^verbatim>\<open>readn\<close> and \<^verbatim>\<open>readnb\<close> return, however short the reads are and however often they are
  interrupted; the bytes stored are the next ones of the stream, none of it lost or read
  twice, whatever is in the internal buffer; and unless a read fails they are the next
  \<open>n\<close> bytes, or all that are left.
\<close>

theorem robust_read_exact:
  assumes "byte_source read ok stream interrupts" and "ok s" and "rio_ok ok rp" and "n < 2 ^ 31"
  shows "(\<exists>stored r s'. rio_readn read n s = Some ((stored, r), s') \<and> ok s' \<and>
      length stored \<le> n \<and> stream s = stored @ stream s' \<and> (r \<longrightarrow> stored = take n (stream s))) \<and>
    (\<exists>stored r rp'. rio_readnb read n rp = Some ((stored, r), rp') \<and> rio_ok ok rp' \<and>
      length stored \<le> n \<and> rio_stream stream rp = stored @ rio_stream stream rp' \<and>
      (r \<longrightarrow> stored = take n (rio_stream stream rp)))"
  using buffered_source.readn_spec [OF buffered_source.intro [OF assms(1)] assms(2,4)]
    buffered_source.readnb_spec [OF buffered_source.intro [OF assms(1)] assms(3,4)] by blast

text \<open>A reader that has just been attached to a scripted descriptor.\<close>

definition fresh_rio :: "scripted \<Rightarrow> scripted rio" where
  "fresh_rio fd = rio_readinitb fd \<lparr>rio_fd = fd, rio_cnt = 0, rio_bufptr = 0, rio_buf = []\<rparr>"

lemma fresh_rio [simp]: "rio_ok (\<lambda>_. True) (fresh_rio fd)" "rio_stream fst (fresh_rio fd) = fst fd"
  by (simp_all add: fresh_rio_def rio_readinitb_def rio_ok_def rio_stream_def unread_def)

theorem robust_read_exact_witness:
  "(\<exists>stored r s'. rio_readn scripted_read 3 ([1, 2, 3, 4], [1, 0]) = Some ((stored, r), s') \<and> True \<and>
      length stored \<le> 3 \<and> fst ([1, 2, 3, 4], [1, 0 :: nat]) = stored @ fst s' \<and>
      (r \<longrightarrow> stored = take 3 (fst ([1, 2, 3, 4], [1, 0 :: nat])))) \<and>
    (\<exists>stored r rp'. rio_readnb scripted_read 3 (fresh_rio ([1, 2, 3, 4], [1, 0])) = Some ((stored, r), rp') \<and>
      rio_ok (\<lambda>_. True) rp' \<and> length stored \<le> 3 \<and>
      rio_stream fst (fresh_rio ([1, 2, 3, 4], [1, 0])) = stored @ rio_stream fst rp' \<and>
      (r \<longrightarrow> stored = take 3 (rio_stream fst (fresh_rio ([1, 2, 3, 4], [1, 0])))))"
  by (rule robust_read_exact [OF scripted.byte_source_axioms]) simp_all

text \<open>
  \<^verbatim>\<open>readlineb\<close> returns and stores the next line of the stream with its newline, cut off
  after \<^verbatim>\<open>maxlen - 1\<close> bytes, and takes exactly these bytes; the result 0 without a terminating
  zero is given exactly for an empty stream.
\<close>

theorem robust_read_line:
  assumes "byte_source read ok stream interrupts" and "rio_ok ok rp" and "0 < maxlen"
  shows "\<exists>l rp'. rio_readlineb read maxlen rp = Some (l, rp') \<and> rio_ok ok rp' \<and>
    (case l of
       Line cs \<Rightarrow> cs = line_of (maxlen - 1) (rio_stream stream rp) \<and>
         rio_stream stream rp = cs @ rio_stream stream rp'
     | End_of_file \<Rightarrow> rio_stream stream rp = [] \<and> rio_stream stream rp' = []
     | Error \<Rightarrow> \<exists>taken. rio_stream stream rp = taken @ rio_stream stream rp')"
  by (rule buffered_source.readlineb_spec [OF buffered_source.intro [OF assms(1)] assms(2,3)])

theorem robust_read_line_witness:
  "\<exists>l rp'. rio_readlineb scripted_read 100 (fresh_rio ([65, 10, 66], [1, 0])) = Some (l, rp') \<and>
    rio_ok (\<lambda>_. True) rp' \<and>
    (case l of
       Line cs \<Rightarrow> cs = line_of (100 - 1) (rio_stream fst (fresh_rio ([65, 10, 66], [1, 0]))) \<and>
         rio_stream fst (fresh_rio ([65, 10, 66], [1, 0])) = cs @ rio_stream fst rp'
     | End_of_file \<Rightarrow> rio_stream fst (fresh_rio ([65, 10, 66], [1, 0])) = [] \<and> rio_stream fst rp' = []
     | Error \<Rightarrow> \<exists>taken. rio_stream fst (fresh_rio ([65, 10, 66], [1, 0])) = taken @ rio_stream fst rp')"
  by (rule robust_read_line [OF scripted.byte_source_axioms]) simp_all

text \<open>
  \<^verbatim>\<open>writen\<close> returns, and unless a write fails exactly the given bytes are written, in
  order, however short the writes are and however often they are interrupted; after a
  failure it is a prefix of them.
\<close>

theorem robust_write_all:
  assumes "byte_sink write accepted interrupts"
  shows "\<exists>ok s'. rio_writen write bs s = Some (ok, s') \<and>
    (\<exists>done todo. bs = done @ todo \<and> accepted s' = accepted s @ done \<and> \<not> (ok \<and> todo \<noteq> []))"
  using byte_sink.writen_writes [OF assms, of bs s] by fast

theorem robust_write_all_witness:
  "\<exists>ok s'. rio_writen scripted_write [1, 2, 3] ([], [0, 2]) = Some (ok, s') \<and>
    (\<exists>done todo. [1, 2, 3] = done @ todo \<and> fst s' = fst ([], [0, 2 :: nat]) @ done \<and> \<not> (ok \<and> todo \<noteq> []))"
  by (rule robust_write_all [OF scripted.byte_sink_axioms])

end
