(* ===== verification/Peer.thy ===== *)
theory Peer
  imports Sha256 Robust_IO
begin

text \<open>
  The client of the peer-to-peer program \<^verbatim>\<open>A4/src/peer.c\<close>: \<^verbatim>\<open>send_message\<close> with its request,
  the loop over the blocks of the reply, the checks of hashes and counts and the output
  file, on top of the buffered reader and the hash function. The connection is a state
  with the system calls \<^verbatim>\<open>read\<close> and \<^verbatim>\<open>write\<close> as parameters, the output file is the list of
  its bytes. A result is \<open>None\<close> if a call does not return or is undefined (for instance when
  a reply does not fit into \<^verbatim>\<open>msg_buf\<close>), \<open>Some (Inl v)\<close> for an early return with a message
  and \<open>Some (Inr x)\<close> otherwise.

  The lemmas show that a reply with the blocks of a file, in any order, is put together to
  this file, that a retrieval accepted by the code has the announced hash, and what the
  code does with replies that are too long and with the list of peers.
\<close>

section \<open>Messages\<close>

definition COMMAND_REGISTER :: cint where "COMMAND_REGISTER = 1"
definition COMMAND_RETREIVE :: cint where "COMMAND_RETREIVE = 2"
definition COMMAND_INFORM :: cint where "COMMAND_INFORM = 3"
definition STATUS_OK :: cint where "STATUS_OK = 1"
definition STATUS_PEER_EXISTS :: cint where "STATUS_PEER_EXISTS = 2"
definition IP_LEN :: nat where "IP_LEN = 16"
definition REPLY_HEADER_LEN :: nat where "REPLY_HEADER_LEN = 80"
definition MAX_MSG_LEN :: nat where "MAX_MSG_LEN = 8196"

text \<open>The bytes of \<^verbatim>\<open>htonl(x)\<close> in memory, and \<^verbatim>\<open>ntohl\<close> of the four bytes at an index.\<close>

definition htonl_bytes :: "cint \<Rightarrow> byte list" where
  "htonl_bytes x = [byte_of 3 x, byte_of 2 x, byte_of 1 x, byte_of 0 x]"

definition ntohl_at :: "byte list \<Rightarrow> nat \<Rightarrow> cint" where
  "ntohl_at buf i = le_word (buf ! (i + 3)) (buf ! (i + 2)) (buf ! (i + 1)) (buf ! i)"

text \<open>\<^verbatim>\<open>strncpy(dst, s, n)\<close>: at most \<open>n\<close> characters, the rest of the \<open>n\<close> bytes zero.\<close>

definition strncpy :: "byte list \<Rightarrow> nat \<Rightarrow> byte list" where
  "strncpy s n = take n s @ replicate (n - length s) 0"

text \<open>The request: the address, \<^verbatim>\<open>atoi\<close> of the port, the command, the length and the body.\<close>

definition request :: "byte list \<Rightarrow> cint \<Rightarrow> cint \<Rightarrow> byte list \<Rightarrow> byte list" where
  "request ip port command body =
     strncpy ip IP_LEN @ htonl_bytes port @ htonl_bytes command @
     htonl_bytes (of_nat (length body)) @ body"

record reply =
  reply_length :: cint
  reply_status :: cint
  this_block :: cint
  block_count :: cint
  block_hash :: "byte list"
  total_hash :: "byte list"

definition reply_of :: "byte list \<Rightarrow> reply" where
  "reply_of header =
     \<lparr>reply_length = ntohl_at header 0, reply_status = ntohl_at header 4,
      this_block = ntohl_at header 8, block_count = ntohl_at header 12,
      block_hash = take 32 (drop 16 header), total_hash = take 32 (drop 48 header)\<rparr>"

section \<open>Hashes of data and files\<close>

text \<open>The buffer of the context is uninitialised; zeros stand for it (see \<open>sha_of_data\<close>).\<close>

definition get_data_sha :: "byte list \<Rightarrow> cint \<Rightarrow> byte list option" where
  "get_data_sha sourcedata data_size =
     Option.bind (sha256_update (sha256_init (replicate 64 0)) sourcedata data_size) sha256_final"

definition get_file_sha :: "byte list \<Rightarrow> byte list option" where
  "get_file_sha content = get_data_sha content (of_nat (length content))"

section \<open>One reply\<close>

record 's session =
  rio :: "'s rio"
  msg_buf :: "byte list"
  outfile :: "byte list"
  header :: reply

datatype verdict =
  Sent | Bad_counts | Bad_total_hash | Bad_status | Bad_payload_hash | Bad_file_hash

type_synonym 'a result = "(verdict + 'a) option"

definition andthen :: "'a result \<Rightarrow> ('a \<Rightarrow> 'b result) \<Rightarrow> 'b result" where
  "andthen m f = (case m of None \<Rightarrow> None | Some (Inl v) \<Rightarrow> Some (Inl v) | Some (Inr x) \<Rightarrow> f x)"

text \<open>\<^verbatim>\<open>compsys_helper_readnb(&state, msg_buf, n)\<close>, its result ignored.\<close>

definition receive :: "'s source \<Rightarrow> nat \<Rightarrow> 's session \<Rightarrow> 's session result" where
  "receive read n ses =
     (case rio_readnb read n (rio ses) of
        None \<Rightarrow> None
      | Some ((stored, _), rp) \<Rightarrow>
          if MAX_MSG_LEN < length stored then None
          else Some (Inr (ses\<lparr>rio := rp, msg_buf := copy_at (msg_buf ses) 0 stored\<rparr>)))"

definition receive_header :: "'s source \<Rightarrow> 's session \<Rightarrow> 's session result" where
  "receive_header read ses =
     andthen (receive read REPLY_HEADER_LEN ses) (\<lambda>ses.
       Some (Inr (ses\<lparr>header := reply_of (take REPLY_HEADER_LEN (msg_buf ses))\<rparr>)))"

text \<open>Reading the header of a further block, with the checks against the first one.\<close>

definition next_header :: "'s source \<Rightarrow> cint \<Rightarrow> byte list \<Rightarrow> 's session \<Rightarrow> 's session result" where
  "next_header read ref_count ref_hash ses =
     andthen (receive_header read ses) (\<lambda>ses.
       if ref_count \<noteq> block_count (header ses) then Some (Inl Bad_counts)
       else if ref_hash \<noteq> total_hash (header ses) then Some (Inl Bad_total_hash)
       else Some (Inr ses))"

text \<open>\<^verbatim>\<open>fseek(fp, offset, SEEK_SET)\<close> and \<^verbatim>\<open>fputs(payload, fp)\<close>, which ends at the first zero.\<close>

definition write_at :: "byte list \<Rightarrow> nat \<Rightarrow> byte list \<Rightarrow> byte list" where
  "write_at file offset bs =
     (if bs = [] then file
      else let file = file @ replicate (offset - length file) 0
           in take offset file @ bs @ drop (offset + length bs) file)"

definition fputs_at :: "byte list \<Rightarrow> cint \<Rightarrow> byte list \<Rightarrow> byte list" where
  "fputs_at file offset payload = write_at file (unat offset) (takeWhile (\<lambda>b. b \<noteq> 0) payload)"

definition status_ok :: "cint \<Rightarrow> cint \<Rightarrow> bool" where
  "status_ok command status \<longleftrightarrow>
     status = STATUS_OK \<or> command = COMMAND_REGISTER \<and> status = STATUS_PEER_EXISTS"

text \<open>The payload of a block; \<^verbatim>\<open>memcpy\<close> from \<^verbatim>\<open>msg_buf\<close> is undefined if it is longer than that.\<close>

definition receive_block :: "'s source \<Rightarrow> cint \<Rightarrow> 's session \<Rightarrow> 's session result" where
  "receive_block read command ses =
     (if \<not> status_ok command (reply_status (header ses)) then Some (Inl Bad_status)
      else let n = unat (reply_length (header ses))
           in andthen (receive read n ses) (\<lambda>ses.
              if MAX_MSG_LEN < n then None
              else let payload = take n (msg_buf ses)
                   in case get_data_sha payload (reply_length (header ses)) of
                        None \<Rightarrow> None
                      | Some payload_hash \<Rightarrow>
                          if payload_hash \<noteq> block_hash (header ses) then Some (Inl Bad_payload_hash)
                          else if command = COMMAND_RETREIVE
                          then let offset = this_block (header ses) * of_nat (MAX_MSG_LEN - REPLY_HEADER_LEN)
                               in Some (Inr (ses\<lparr>outfile := fputs_at (outfile ses) offset payload\<rparr>))
                          else Some (Inr ses)))"

text \<open>The loop over the blocks; the header of the first one has been read before.\<close>

primrec block_loop :: "'s source \<Rightarrow> cint \<Rightarrow> cint \<Rightarrow> byte list \<Rightarrow> bool \<Rightarrow> nat \<Rightarrow> 's session \<Rightarrow> 's session result" where
  "block_loop read command ref_count ref_hash first 0 ses = Some (Inr ses)"
| "block_loop read command ref_count ref_hash first (Suc k) ses =
     andthen (if first then Some (Inr ses) else next_header read ref_count ref_hash ses) (\<lambda>ses.
     andthen (receive_block read command ses) (\<lambda>ses.
     block_loop read command ref_count ref_hash False k ses))"

definition check_file :: "'s session \<Rightarrow> 's session result" where
  "check_file ses =
     (case get_file_sha (outfile ses) of
        None \<Rightarrow> None
      | Some file_hash \<Rightarrow>
          if file_hash \<noteq> total_hash (header ses) then Some (Inl Bad_file_hash) else Some (Inr ses))"

definition receive_reply :: "'s source \<Rightarrow> cint \<Rightarrow> 's session \<Rightarrow> 's session result" where
  "receive_reply read command ses =
     andthen (receive_header read ses) (\<lambda>ses.
     andthen (block_loop read command (block_count (header ses)) (total_hash (header ses)) True
        (unat (block_count (header ses))) ses) (\<lambda>ses.
     if command = COMMAND_RETREIVE then check_file ses else Some (Inr ses)))"

text \<open>
  \<^verbatim>\<open>send_message\<close> up to the treatment of a \<open>REGISTER\<close> reply. \<open>ses\<close> holds the uninitialised
  locals and the output file, which was created empty if it did not exist.
\<close>

definition send_message :: "'s source \<Rightarrow> (byte list \<Rightarrow> 's \<Rightarrow> put \<times> 's) \<Rightarrow> byte list \<Rightarrow> cint \<Rightarrow>
    cint \<Rightarrow> byte list \<Rightarrow> 's \<Rightarrow> 's session \<Rightarrow> 's session result" where
  "send_message read write ip port command request_body socket ses =
     (let msg = request ip port command request_body
      in if MAX_MSG_LEN < length msg then None
         else case rio_writen write msg socket of
           None \<Rightarrow> None
         | Some (_, socket) \<Rightarrow>
             if command = COMMAND_INFORM then Some (Inl Sent)
             else receive_reply read command
               (ses\<lparr>rio := rio_readinitb socket (rio ses), msg_buf := copy_at (msg_buf ses) 0 msg\<rparr>))"

section \<open>Choosing a peer\<close>

record peer_address =
  ip :: "byte list"
  port :: "byte list"

text \<open>The string in a buffer, for \<^verbatim>\<open>strcmp\<close>.\<close>

definition c_string :: "byte list \<Rightarrow> byte list" where
  "c_string buf = takeWhile (\<lambda>b. b \<noteq> 0) buf"

text \<open>\<open>r\<close> is the value of \<^verbatim>\<open>rand()\<close>; without another peer the remainder is taken by zero.\<close>

definition get_random_peer :: "peer_address list \<Rightarrow> peer_address \<Rightarrow> nat \<Rightarrow> peer_address option" where
  "get_random_peer network my_address r =
     (let potential_peers = filter (\<lambda>p. c_string (ip p) \<noteq> c_string (ip my_address) \<or>
        c_string (port p) \<noteq> c_string (port my_address)) network
      in if potential_peers = [] then None else Some (potential_peers ! (r mod length potential_peers)))"

lemma pick_member:
  assumes "(if ps = [] then None else Some (ps ! (r mod length ps))) = Some p"
  shows "p \<in> set ps"
  using assms by (cases "ps = []") auto

lemma get_random_peer_other:
  assumes "get_random_peer network my_address r = Some p"
  shows "p \<in> set network" and
    "c_string (ip p) \<noteq> c_string (ip my_address) \<or> c_string (port p) \<noteq> c_string (port my_address)"
  using pick_member [OF assms [unfolded get_random_peer_def Let_def]] by simp_all

section \<open>Hashes and headers\<close>

definition sha :: "byte list \<Rightarrow> byte list" where
  "sha m = digest_bytes (fips_hash m)"

lemma length_digest_bytes: "length (digest_bytes hs) = 4 * length hs"
  by (induction hs) (simp_all add: digest_bytes_def)

lemma length_fold_compress: "length H = 8 \<Longrightarrow> length (fold fips_compress bs H) = 8"
  by (induction bs arbitrary: H) (simp_all add: length_fips_compress)

lemma length_sha [simp]: "length (sha m) = 32"
  by (simp add: sha_def length_digest_bytes fips_hash_def length_fold_compress fips_H0_def)

text \<open>Whatever the context held before, the result is the hash of the standard.\<close>

lemma sha_of_data:
  assumes "length garbage = 64" and "unat len \<le> length data"
  shows "Option.bind (sha256_update (sha256_init garbage) data len) sha256_final = Some (sha (take (unat len) data))"
  using update_holds [OF holds_init [OF assms(1)] assms(2)] final_holds by (force simp: sha_def)

lemma get_data_sha_eq: "unat len \<le> length data \<Longrightarrow> get_data_sha data len = Some (sha (take (unat len) data))"
  by (simp add: get_data_sha_def sha_of_data)

lemma get_file_sha_eq: "length content < 2 ^ 32 \<Longrightarrow> get_file_sha content = Some (sha content)"
  by (simp add: get_file_sha_def get_data_sha_eq unat_of_nat)

lemma length_htonl_bytes [simp]: "length (htonl_bytes x) = 4"
  by (simp add: htonl_bytes_def)

lemma ntohl_htonl:
  "length pre = i \<Longrightarrow> ntohl_at (pre @ htonl_bytes x @ post) i = x"
  by (simp add: ntohl_at_def htonl_bytes_def nth_append nth_Cons' byte_simps)

text \<open>The header as a peer sends it.\<close>

definition reply_bytes :: "reply \<Rightarrow> byte list" where
  "reply_bytes r = htonl_bytes (reply_length r) @ htonl_bytes (reply_status r) @
     htonl_bytes (this_block r) @ htonl_bytes (block_count r) @ block_hash r @ total_hash r"

lemma length_reply_bytes:
  "length (block_hash r) = 32 \<Longrightarrow> length (total_hash r) = 32 \<Longrightarrow> length (reply_bytes r) = REPLY_HEADER_LEN"
  by (simp add: reply_bytes_def REPLY_HEADER_LEN_def)

lemma reply_of_bytes:
  assumes "length (block_hash r) = 32" and "length (total_hash r) = 32"
  shows "reply_of (reply_bytes r) = r"
  using assms
    ntohl_htonl [of "[]" 0 "reply_length r" "drop 4 (reply_bytes r)"]
    ntohl_htonl [of "take 4 (reply_bytes r)" 4 "reply_status r" "drop 8 (reply_bytes r)"]
    ntohl_htonl [of "take 8 (reply_bytes r)" 8 "this_block r" "drop 12 (reply_bytes r)"]
    ntohl_htonl [of "take 12 (reply_bytes r)" 12 "block_count r" "drop 16 (reply_bytes r)"]
  by (simp add: reply_of_def reply_bytes_def)

section \<open>Receiving from a reliable connection\<close>

lemma andthen_simps [simp]:
  "andthen None f = None" "andthen (Some (Inl v)) f = Some (Inl v)" "andthen (Some (Inr x)) f = f x"
  by (simp_all add: andthen_def)

lemma andthen_eq_Inr: "andthen m f = Some (Inr y) \<longleftrightarrow> (\<exists>x. m = Some (Inr x) \<and> f x = Some (Inr y))"
  by (auto simp: andthen_def split: option.splits sum.splits)

definition session_ok :: "('s \<Rightarrow> bool) \<Rightarrow> 's session \<Rightarrow> bool" where
  "session_ok ok ses \<longleftrightarrow> rio_ok ok (rio ses) \<and> length (msg_buf ses) = MAX_MSG_LEN"

text \<open>The bytes still to come.\<close>

definition incoming :: "('s \<Rightarrow> byte list) \<Rightarrow> 's session \<Rightarrow> byte list" where
  "incoming stream ses = rio_stream stream (rio ses)"

context reliable_source
begin

lemma receive_exact:
  assumes "session_ok ok ses" and "incoming stream ses = xs @ ys" and "length xs = n" and "n \<le> MAX_MSG_LEN"
  shows "\<exists>ses'. receive rd n ses = Some (Inr ses') \<and> session_ok ok ses' \<and> take n (msg_buf ses') = xs \<and>
    incoming stream ses' = ys \<and> outfile ses' = outfile ses \<and> header ses' = header ses"
proof -
  have n: "n < 2 ^ 31" using assms(4) by (simp add: MAX_MSG_LEN_def)
  obtain rp where rp: "rio_readnb rd n (rio ses) = Some ((xs, True), rp)" "rio_ok ok rp" "rio_stream stream rp = ys"
    using readnb_reliable [OF _ n, of "rio ses"] assms by (auto simp: session_ok_def incoming_def)
  have buf: "length (msg_buf ses) = MAX_MSG_LEN" using assms(1) by (simp add: session_ok_def)
  show ?thesis
    by (rule exI [of _ "ses\<lparr>rio := rp, msg_buf := copy_at (msg_buf ses) 0 xs\<rparr>"])
      (use rp buf assms(3,4) in \<open>simp add: receive_def session_ok_def incoming_def copy_at_def\<close>)
qed

lemma receive_header_bytes:
  assumes "session_ok ok ses" and "incoming stream ses = reply_bytes r @ ys"
    and "length (block_hash r) = 32" and "length (total_hash r) = 32"
  shows "\<exists>ses'. receive_header rd ses = Some (Inr ses') \<and> session_ok ok ses' \<and> header ses' = r \<and>
    incoming stream ses' = ys \<and> outfile ses' = outfile ses"
proof -
  have len: "length (reply_bytes r) = REPLY_HEADER_LEN" using assms(3,4) by (rule length_reply_bytes)
  moreover have "REPLY_HEADER_LEN \<le> MAX_MSG_LEN" by (simp add: REPLY_HEADER_LEN_def MAX_MSG_LEN_def)
  ultimately obtain s where s: "receive rd REPLY_HEADER_LEN ses = Some (Inr s)" "session_ok ok s"
      "take REPLY_HEADER_LEN (msg_buf s) = reply_bytes r" "incoming stream s = ys" "outfile s = outfile ses"
    using receive_exact [OF assms(1,2)] by blast
  show ?thesis
    by (rule exI [of _ "s\<lparr>header := r\<rparr>"])
      (use s assms(3,4) in \<open>simp add: receive_header_def reply_of_bytes session_ok_def incoming_def\<close>)
qed

lemma receive_block_bytes:
  assumes "session_ok ok ses" and "incoming stream ses = payload @ ys"
    and "unat (reply_length (header ses)) = length payload" and "length payload \<le> MAX_MSG_LEN"
    and "reply_status (header ses) = STATUS_OK" and "block_hash (header ses) = sha payload"
  shows "\<exists>ses'. receive_block rd COMMAND_RETREIVE ses = Some (Inr ses') \<and> session_ok ok ses' \<and>
    incoming stream ses' = ys \<and> header ses' = header ses \<and>
    outfile ses' = fputs_at (outfile ses) (this_block (header ses) * of_nat (MAX_MSG_LEN - REPLY_HEADER_LEN)) payload"
proof -
  obtain s where s: "receive rd (length payload) ses = Some (Inr s)" "session_ok ok s"
      "take (length payload) (msg_buf s) = payload" "incoming stream s = ys" "outfile s = outfile ses"
      "header s = header ses"
    using receive_exact [OF assms(1,2) refl assms(4)] by blast
  have "get_data_sha payload (reply_length (header s)) = Some (sha payload)"
    using assms(3) s(6) by (simp add: get_data_sha_eq)
  then show ?thesis
    using s assms(3-) by (simp add: receive_block_def status_ok_def Let_def session_ok_def incoming_def)
qed

end

section \<open>A file in blocks\<close>

definition BLOCK_LEN :: nat where "BLOCK_LEN = MAX_MSG_LEN - REPLY_HEADER_LEN"

lemma BLOCK_LEN_eq: "BLOCK_LEN = 8116"
  by (simp add: BLOCK_LEN_def MAX_MSG_LEN_def REPLY_HEADER_LEN_def)

definition block_of :: "byte list \<Rightarrow> nat \<Rightarrow> byte list" where
  "block_of content i = take BLOCK_LEN (drop (i * BLOCK_LEN) content)"

definition num_blocks :: "byte list \<Rightarrow> nat" where
  "num_blocks content = (length content + (BLOCK_LEN - 1)) div BLOCK_LEN"

text \<open>The message with block \<open>i\<close> that a peer sends.\<close>

definition block_reply :: "byte list \<Rightarrow> nat \<Rightarrow> reply" where
  "block_reply content i =
     \<lparr>reply_length = of_nat (length (block_of content i)), reply_status = STATUS_OK, this_block = of_nat i,
      block_count = of_nat (num_blocks content), block_hash = sha (block_of content i), total_hash = sha content\<rparr>"

definition block_message :: "byte list \<Rightarrow> nat \<Rightarrow> byte list" where
  "block_message content i = reply_bytes (block_reply content i) @ block_of content i"

text \<open>Block \<open>i\<close> lies in the file at its place.\<close>

definition in_place :: "byte list \<Rightarrow> byte list \<Rightarrow> nat \<Rightarrow> bool" where
  "in_place content file i \<longleftrightarrow>
     i * BLOCK_LEN + length (block_of content i) \<le> length file \<and>
     take (length (block_of content i)) (drop (i * BLOCK_LEN) file) = block_of content i"

lemma length_block_of: "length (block_of content i) = min BLOCK_LEN (length content - i * BLOCK_LEN)"
  by (simp add: block_of_def)

lemma num_blocks_bound: "i < num_blocks content \<Longrightarrow> i * BLOCK_LEN < length content"
proof -
  assume "i < num_blocks content"
  then have "Suc i \<le> (length content + 8115) div 8116" by (simp add: num_blocks_def BLOCK_LEN_eq)
  then have "Suc i * 8116 \<le> length content + 8115" by (simp only: less_eq_div_iff_mult_less_eq)
  then show ?thesis by (simp add: BLOCK_LEN_eq)
qed

lemma num_blocks_covers: "j < length content \<Longrightarrow> j div BLOCK_LEN < num_blocks content"
  by (simp add: num_blocks_def BLOCK_LEN_eq div_less_iff_less_mult)

lemma take_drop_eq_iff:
  "p + n \<le> length f \<Longrightarrow> take n (drop p f) = xs \<longleftrightarrow> length xs = n \<and> (\<forall>j<n. f ! (p + j) = xs ! j)"
  by (auto simp: list_eq_iff_nth_eq)

lemma nth_write_at:
  assumes "bs \<noteq> []"
  shows "length (write_at f p bs) = max (length f) (p + length bs)"
    and "j < length bs \<Longrightarrow> write_at f p bs ! (p + j) = bs ! j"
    and "j < length f \<Longrightarrow> j < p \<or> p + length bs \<le> j \<Longrightarrow> write_at f p bs ! j = f ! j"
proof -
  let ?F = "f @ replicate (p - length f) 0"
  have t: "length (take p ?F) = p" by auto
  have w: "write_at f p bs = take p ?F @ bs @ drop (p + length bs) ?F"
    using assms by (simp add: write_at_def Let_def)
  show "length (write_at f p bs) = max (length f) (p + length bs)"
    unfolding w by auto
  show "write_at f p bs ! (p + j) = bs ! j" if "j < length bs"
    unfolding w using that nth_append_length_plus [of "take p ?F"] unfolding t by (simp add: nth_append)
  show "write_at f p bs ! j = f ! j" if "j < length f" "j < p \<or> p + length bs \<le> j"
    using that(2)
  proof
    assume "j < p"
    then show ?thesis unfolding w nth_append t using that(1) by (simp add: nth_append)
  next
    assume j: "p + length bs \<le> j"
    then have "drop (p + length bs) ?F ! (j - p - length bs) = ?F ! j"
      using that(1) by (subst nth_drop) auto
    moreover have "\<not> j < p" "\<not> j - p < length bs" using j assms by auto
    ultimately show ?thesis unfolding w nth_append t using that(1) by (simp add: nth_append)
  qed
qed

lemma in_place_write:
  assumes "i < num_blocks content"
  shows "in_place content (write_at f (i * BLOCK_LEN) (block_of content i)) i"
    and "k \<noteq> i \<Longrightarrow> in_place content f k \<Longrightarrow>
      in_place content (write_at f (i * BLOCK_LEN) (block_of content i)) k"
    and "length f \<le> length content \<Longrightarrow>
      length (write_at f (i * BLOCK_LEN) (block_of content i)) \<le> length content"
proof -
  let ?b = "block_of content i"
  let ?w = "write_at f (i * BLOCK_LEN) ?b"
  have "i * BLOCK_LEN < length content" using num_blocks_bound [OF assms] .
  then have ne: "?b \<noteq> []" and le: "i * BLOCK_LEN + length ?b \<le> length content"
    by (auto simp: block_of_def BLOCK_LEN_eq)
  note w = nth_write_at [OF ne, where f = f and p = "i * BLOCK_LEN"]
  show "in_place content ?w i"
    using w by (auto simp: in_place_def take_drop_eq_iff)
  show "length ?w \<le> length content" if "length f \<le> length content"
    using that le by (simp add: w(1))
  show "in_place content ?w k" if "k \<noteq> i" "in_place content f k"
  proof -
    have k: "k * BLOCK_LEN + length (block_of content k) \<le> length f"
        "\<forall>j<length (block_of content k). f ! (k * BLOCK_LEN + j) = block_of content k ! j"
      using that(2) by (auto simp: in_place_def take_drop_eq_iff)
    have "?w ! (k * BLOCK_LEN + j) = block_of content k ! j" if j: "j < length (block_of content k)" for j
    proof -
      have "j < BLOCK_LEN" "length ?b \<le> BLOCK_LEN" using j by (simp_all add: length_block_of)
      moreover have "k * BLOCK_LEN + BLOCK_LEN \<le> i * BLOCK_LEN \<or> i * BLOCK_LEN + BLOCK_LEN \<le> k * BLOCK_LEN"
        using \<open>k \<noteq> i\<close> mult_le_mono1 [of "Suc k" i BLOCK_LEN] mult_le_mono1 [of "Suc i" k BLOCK_LEN]
        by (cases "k < i") simp_all
      ultimately have "k * BLOCK_LEN + j < i * BLOCK_LEN \<or> i * BLOCK_LEN + length ?b \<le> k * BLOCK_LEN + j"
        by linarith
      then show ?thesis using w(3) [of "k * BLOCK_LEN + j"] k j by simp
    qed
    then show ?thesis using k(1) w(1) by (auto simp: in_place_def take_drop_eq_iff)
  qed
qed

lemma all_in_place:
  assumes "\<forall>i<num_blocks content. in_place content file i" and "length file \<le> length content"
  shows "file = content"
proof -
  have at: "j < length file \<and> file ! j = content ! j" if j: "j < length content" for j
  proof -
    define i q where "i = j div BLOCK_LEN" and "q = j mod BLOCK_LEN"
    have jo: "j = i * BLOCK_LEN + q" by (simp add: i_def q_def)
    have p: "in_place content file i" using assms(1) num_blocks_covers [OF j] by (simp add: i_def)
    have "q < BLOCK_LEN" by (simp add: q_def BLOCK_LEN_eq)
    then have q: "q < length (block_of content i)" using j jo by (simp add: length_block_of)
    then have "block_of content i ! q = content ! j" using j by (simp add: block_of_def jo)
    then show ?thesis using p q by (auto simp: in_place_def take_drop_eq_iff jo)
  qed
  have "length content \<le> length file"
    using at [of "length content - 1"] by (cases content) auto
  then show ?thesis using assms(2) at by (intro nth_equalityI) auto
qed

section \<open>Retrieving a file\<close>

lemma block_reply_simps:
  "reply_status (block_reply content i) = STATUS_OK" "block_hash (block_reply content i) = sha (block_of content i)"
  "total_hash (block_reply content i) = sha content" "block_count (block_reply content i) = of_nat (num_blocks content)"
  "this_block (block_reply content i) = of_nat i" "unat (reply_length (block_reply content i)) = length (block_of content i)"
  by (simp_all add: block_reply_def length_block_of unat_of_nat BLOCK_LEN_eq)

text \<open>A block without zero bytes is written completely and at its place.\<close>

lemma fputs_block:
  assumes "i < num_blocks content" and "0 \<notin> set content" and "length content < 2 ^ 31"
  shows "fputs_at file (of_nat i * of_nat (MAX_MSG_LEN - REPLY_HEADER_LEN)) (block_of content i) =
    write_at file (i * BLOCK_LEN) (block_of content i)"
proof -
  have "set (block_of content i) \<subseteq> set content"
    unfolding block_of_def by (meson set_drop_subset set_take_subset order_trans)
  then have "takeWhile (\<lambda>b. b \<noteq> 0) (block_of content i) = block_of content i"
    using assms(2) by (auto simp: takeWhile_eq_all_conv)
  moreover have "i * BLOCK_LEN < 2 ^ 32" using num_blocks_bound [OF assms(1)] assms(3) by simp
  then have "unat (of_nat (i * BLOCK_LEN) :: cint) = i * BLOCK_LEN"
    by (simp add: unat_of_nat del: of_nat_mult)
  ultimately show ?thesis
    unfolding fputs_at_def BLOCK_LEN_def [symmetric] by (simp only: of_nat_mult)
qed

context reliable_source
begin

lemma next_header_block:
  assumes "session_ok ok ses" and "incoming stream ses = reply_bytes (block_reply content i) @ ys"
  shows "\<exists>ses'. next_header rd (of_nat (num_blocks content)) (sha content) ses = Some (Inr ses') \<and> session_ok ok ses' \<and>
    header ses' = block_reply content i \<and> incoming stream ses' = ys \<and> outfile ses' = outfile ses"
proof -
  obtain s where "receive_header rd ses = Some (Inr s)" "session_ok ok s" "header s = block_reply content i"
      "incoming stream s = ys" "outfile s = outfile ses"
    using receive_header_bytes [OF assms] by (auto simp: block_reply_simps)
  then show ?thesis by (simp add: next_header_def block_reply_simps)
qed

lemma receive_block_reply:
  assumes "session_ok ok ses" and "header ses = block_reply content i" and "incoming stream ses = block_of content i @ ys"
    and "i < num_blocks content" and "0 \<notin> set content" and "length content < 2 ^ 31"
  shows "\<exists>ses'. receive_block rd COMMAND_RETREIVE ses = Some (Inr ses') \<and> session_ok ok ses' \<and>
    incoming stream ses' = ys \<and> header ses' = block_reply content i \<and>
    outfile ses' = write_at (outfile ses) (i * BLOCK_LEN) (block_of content i)"
proof -
  have "length (block_of content i) \<le> MAX_MSG_LEN"
    by (simp add: length_block_of BLOCK_LEN_def min.coboundedI1)
  then show ?thesis
    using receive_block_bytes [OF assms(1,3)] assms(2) fputs_block [OF assms(4-6)]
    by (simp add: block_reply_simps)
qed

lemma block_loop_blocks:
  assumes "0 \<notin> set content" and "length content < 2 ^ 31"
  shows "set is \<subseteq> {..<num_blocks content} \<Longrightarrow> session_ok ok ses \<Longrightarrow>
    incoming stream ses = concat (map (block_message content) is) @ ys \<Longrightarrow>
    length (outfile ses) \<le> length content \<Longrightarrow> total_hash (header ses) = sha content \<Longrightarrow>
    \<exists>ses'. block_loop rd COMMAND_RETREIVE (of_nat (num_blocks content)) (sha content) False (length is) ses =
        Some (Inr ses') \<and> total_hash (header ses') = sha content \<and> length (outfile ses') \<le> length content \<and>
      (\<forall>k<num_blocks content. in_place content (outfile ses) k \<or> k \<in> set is \<longrightarrow> in_place content (outfile ses') k)"
proof (induction "is" arbitrary: ses)
  case (Cons i "is")
  have i: "i < num_blocks content" using Cons.prems(1) by simp
  obtain s where s: "next_header rd (of_nat (num_blocks content)) (sha content) ses = Some (Inr s)"
      "session_ok ok s" "header s = block_reply content i"
      "incoming stream s = block_of content i @ concat (map (block_message content) is) @ ys"
      "outfile s = outfile ses"
    using next_header_block [OF Cons.prems(2), of content i "block_of content i @ concat (map (block_message content) is) @ ys"]
      Cons.prems(3) by (auto simp: block_message_def [of content i])
  obtain t where t: "receive_block rd COMMAND_RETREIVE s = Some (Inr t)" "session_ok ok t"
      "incoming stream t = concat (map (block_message content) is) @ ys" "header t = block_reply content i"
      "outfile t = write_at (outfile ses) (i * BLOCK_LEN) (block_of content i)"
    using receive_block_reply [OF s(2-4) i assms] s(5) by auto
  note w = in_place_write [OF i]
  obtain u where "block_loop rd COMMAND_RETREIVE (of_nat (num_blocks content)) (sha content) False (length is) t =
        Some (Inr u)" "total_hash (header u) = sha content" "length (outfile u) \<le> length content"
      and k: "\<forall>k<num_blocks content. in_place content (outfile t) k \<or> k \<in> set is \<longrightarrow> in_place content (outfile u) k"
    using Cons.IH [of t] Cons.prems(1,4) t w(3) by (auto simp: block_reply_simps)
  moreover have "in_place content (outfile u) k"
    if "k < num_blocks content" "in_place content (outfile ses) k \<or> k \<in> set (i # is)" for k
    using that k t(5) w(1) w(2) [of k "outfile ses"] by (cases "k = i") auto
  ultimately show ?case using s(1) t(1) by (intro exI [of _ u]) simp
qed simp

end

context reliable_source
begin

lemma receive_reply_file:
  assumes c: "content \<noteq> []" "0 \<notin> set content" "length content < 2 ^ 31"
    and "is": "mset is = mset [0..<num_blocks content]"
    and ses: "session_ok ok ses" "outfile ses = []"
    and msg: "incoming stream ses = concat (map (block_message content) is) @ ys"
  shows "\<exists>ses'. receive_reply rd COMMAND_RETREIVE ses = Some (Inr ses') \<and> outfile ses' = content"
proof -
  have set: "set is = {..<num_blocks content}" using mset_eq_setD [OF "is"] by (simp add: atLeast0LessThan)
  have len: "length is = num_blocks content" using mset_eq_length [OF "is"] by simp
  have "0 < num_blocks content" using num_blocks_covers [of 0 content] c(1) by simp
  then obtain i js where js: "is = i # js" using len by (cases "is") auto
  have i: "i < num_blocks content" using set js by auto
  obtain s where s: "receive_header rd ses = Some (Inr s)" "session_ok ok s" "header s = block_reply content i"
      "incoming stream s = block_of content i @ concat (map (block_message content) js) @ ys" "outfile s = []"
    using receive_header_bytes [OF ses(1), of "block_reply content i"
      "block_of content i @ concat (map (block_message content) js) @ ys"] msg ses(2)
    by (auto simp: block_reply_simps js block_message_def [of content i])
  obtain t where t: "receive_block rd COMMAND_RETREIVE s = Some (Inr t)" "session_ok ok t"
      "incoming stream t = concat (map (block_message content) js) @ ys" "header t = block_reply content i"
      "outfile t = write_at [] (i * BLOCK_LEN) (block_of content i)"
    using receive_block_reply [OF s(2-4) i c(2,3)] s(5) by auto
  note w = in_place_write [OF i, where f = "[]"]
  obtain u where u: "block_loop rd COMMAND_RETREIVE (of_nat (num_blocks content)) (sha content) False (length js) t =
        Some (Inr u)" "total_hash (header u) = sha content" "length (outfile u) \<le> length content"
      "\<forall>k<num_blocks content. in_place content (outfile t) k \<or> k \<in> set js \<longrightarrow> in_place content (outfile u) k"
    using block_loop_blocks [OF c(2,3), of js t ys] t set js w(3) by (auto simp: block_reply_simps)
  have "in_place content (outfile u) k" if "k < num_blocks content" for k
  proof -
    have "k = i \<or> k \<in> set js" using that set js by auto
    then show ?thesis using u(4) that w(1) t(5) by metis
  qed
  then have fl: "outfile u = content" using all_in_place u(3) by blast
  have "num_blocks content < 2 ^ 32"
    using c(3) by (simp add: num_blocks_def BLOCK_LEN_eq div_less_iff_less_mult)
  then have n: "unat (of_nat (num_blocks content) :: cint) = Suc (length js)"
    using len js by (simp add: unat_of_nat)
  have "receive_reply rd COMMAND_RETREIVE ses = check_file u"
    using s t(1) u(1) n by (simp add: receive_reply_def block_reply_simps)
  also have "\<dots> = Some (Inr u)" using c(3) u(2) fl by (simp add: check_file_def get_file_sha_eq)
  finally show ?thesis using fl by blast
qed

text \<open>A payload of more than \<^verbatim>\<open>MAX_MSG_LEN\<close> bytes is stored beyond \<^verbatim>\<open>msg_buf\<close>.\<close>

lemma receive_reply_overflow:
  assumes "session_ok ok ses" and "incoming stream ses = reply_bytes r @ ys"
    and "length (block_hash r) = 32" and "length (total_hash r) = 32"
    and "reply_status r = STATUS_OK" and "block_count r \<noteq> 0" and "MAX_MSG_LEN < unat (reply_length r)"
  shows "receive_reply rd command ses = None"
proof -
  obtain s where s: "receive_header rd ses = Some (Inr s)" "header s = r"
    using receive_header_bytes [OF assms(1-4)] by blast
  have "receive_block rd command s = None"
    using assms(5,7) s(2)
    by (auto simp: receive_block_def status_ok_def Let_def andthen_def receive_def split: option.splits prod.splits)
  moreover obtain k where "unat (block_count r) = Suc k"
    using assms(6) by (metis not0_implies_Suc unat_eq_zero)
  ultimately show ?thesis using s by (simp add: receive_reply_def)
qed

end

section \<open>What a retrieval accepts\<close>

lemma receive_block_header:
  "receive_block read command ses = Some (Inr ses') \<Longrightarrow> header ses' = header ses"
  by (auto simp: receive_block_def receive_def Let_def andthen_def split: if_splits option.splits sum.splits prod.splits)

lemma next_header_hash:
  "next_header read ref_count ref_hash ses = Some (Inr ses') \<Longrightarrow> total_hash (header ses') = ref_hash"
  by (auto simp: next_header_def andthen_eq_Inr split: if_splits)

lemma block_loop_hash:
  "block_loop read command ref_count ref_hash first k ses = Some (Inr ses') \<Longrightarrow>
   total_hash (header ses) = ref_hash \<Longrightarrow> total_hash (header ses') = ref_hash"
proof (induction k arbitrary: first ses)
  case (Suc k)
  then obtain s t where st: "(if first then Some (Inr ses) else next_header read ref_count ref_hash ses) = Some (Inr s)"
      "receive_block read command s = Some (Inr t)"
      "block_loop read command ref_count ref_hash False k t = Some (Inr ses')"
    by (auto simp: andthen_eq_Inr)
  have "total_hash (header s) = ref_hash" using st(1) Suc.prems(2) next_header_hash by (auto split: if_splits)
  then show ?case using Suc.IH [OF st(3)] receive_block_header [OF st(2)] by simp
qed simp

section \<open>Properties\<close>

text \<open>
  C12: a reply with the blocks of a file, in any order, is put together to exactly this file,
  if the file is not empty, has no zero bytes and less than 2^31 bytes, the file it is written
  to is empty and the connection reliable: every check passes, through the buffered reader, the
  hash function and the writes at the offsets of the blocks. Files with zero bytes are
  excluded because a block is written with \<^verbatim>\<open>fputs\<close>, which ends at the first of them.
\<close>

theorem retrieve_assembles_file:
  assumes "reliable_source read ok stream interrupts"
    and "content \<noteq> []" and "0 \<notin> set content" and "length content < 2 ^ 31"
    and "mset order = mset [0..<num_blocks content]"
    and "session_ok ok ses" and "outfile ses = []"
    and "incoming stream ses = concat (map (block_message content) order) @ ys"
  shows "\<exists>ses'. receive_reply read COMMAND_RETREIVE ses = Some (Inr ses') \<and> outfile ses' = content"
  by (rule reliable_source.receive_reply_file [OF assms])

text \<open>A session that has just been set up on a scripted connection.\<close>

definition fresh_session :: "byte list \<Rightarrow> scripted session" where
  "fresh_session bs = \<lparr>rio = fresh_rio (bs, [100, 0, 1]), msg_buf = replicate MAX_MSG_LEN 0, outfile = [],
     header = reply_of (replicate 80 0)\<rparr>"

lemma fresh_session [simp]:
  "session_ok (\<lambda>_. True) (fresh_session bs)" "incoming fst (fresh_session bs) = bs" "outfile (fresh_session bs) = []"
  by (simp_all add: fresh_session_def session_ok_def incoming_def)

theorem retrieve_assembles_file_witness:
  "\<exists>ses'. receive_reply scripted_read COMMAND_RETREIVE (fresh_session (block_message [65, 66] 0)) = Some (Inr ses') \<and>
    outfile ses' = [65, 66]"
  by (rule retrieve_assembles_file [OF scripted.reliable_source_axioms, where order = "[0]" and ys = "[]"])
    (simp_all add: num_blocks_def BLOCK_LEN_eq)

text \<open>
  C33: whatever the connection does, a retrieval that ends without a complaint has written
  a file with the total hash announced in the first reply header.
\<close>

theorem accepted_file_has_hash:
  assumes "receive_header read ses = Some (Inr ses1)"
    and "receive_reply read COMMAND_RETREIVE ses = Some (Inr ses')" and "length (outfile ses') < 2 ^ 31"
  shows "sha (outfile ses') = total_hash (header ses1)"
proof -
  obtain s where s: "block_loop read COMMAND_RETREIVE (block_count (header ses1)) (total_hash (header ses1)) True
      (unat (block_count (header ses1))) ses1 = Some (Inr s)" "check_file s = Some (Inr ses')"
    using assms(1,2) by (auto simp: receive_reply_def andthen_eq_Inr)
  have "total_hash (header s) = total_hash (header ses1)" using block_loop_hash [OF s(1)] by simp
  moreover have "s = ses'" using s(2) by (auto simp: check_file_def split: option.splits if_splits)
  moreover have "get_file_sha (outfile ses') = Some (sha (outfile ses'))" using assms(3) by (simp add: get_file_sha_eq)
  ultimately show ?thesis using s(2) by (auto simp: check_file_def split: if_splits)
qed

theorem accepted_file_has_hash_witness:
  "\<exists>(ses1 :: scripted session) ses'. receive_reply scripted_read COMMAND_RETREIVE (fresh_session (block_message [65, 66] 0)) = Some (Inr ses') \<and>
    sha (outfile ses') = total_hash (header ses1) \<and> header ses1 = block_reply [65, 66] 0"
proof -
  obtain ses1 where h: "receive_header scripted_read (fresh_session (block_message [65, 66] 0)) = Some (Inr ses1)"
      "header ses1 = block_reply [65, 66] 0"
    using scripted.receive_header_bytes [of "fresh_session (block_message [65, 66] 0)" "block_reply [65, 66] 0"]
    by (auto simp: block_message_def block_reply_simps)
  obtain ses' where r: "receive_reply scripted_read COMMAND_RETREIVE (fresh_session (block_message [65, 66] 0)) = Some (Inr ses')"
      "outfile ses' = [65, 66]"
    using scripted.receive_reply_file [of "[65, 66]" "[0]" "fresh_session (block_message [65, 66] 0)" "[]"]
    by (auto simp: num_blocks_def BLOCK_LEN_eq)
  then show ?thesis using accepted_file_has_hash [OF h(1) r(1)] h(2)
    by (intro exI [of _ ses1] exI [of _ ses']) simp
qed

text \<open>
  A peer that announces a payload of more than 8196 bytes makes the client store
  outside of its message buffer.
\<close>

theorem overlong_reply_overflows:
  assumes "reliable_source read ok stream interrupts" and "session_ok ok ses"
    and "incoming stream ses = reply_bytes r @ ys"
    and "length (block_hash r) = 32" and "length (total_hash r) = 32"
    and "reply_status r = STATUS_OK" and "block_count r \<noteq> 0" and "MAX_MSG_LEN < unat (reply_length r)"
  shows "receive_reply read command ses = None"
  by (rule reliable_source.receive_reply_overflow [OF assms])

theorem overlong_reply_overflows_witness:
  "receive_reply scripted_read COMMAND_REGISTER (fresh_session (reply_bytes
    \<lparr>reply_length = 9000, reply_status = STATUS_OK, this_block = 0, block_count = 1,
      block_hash = replicate 32 0, total_hash = replicate 32 0\<rparr> @ replicate 9000 65)) = None"
  by (rule overlong_reply_overflows [OF scripted.reliable_source_axioms _ fresh_session(2)])
    (simp_all add: MAX_MSG_LEN_def)

end
