(* ===== verification/Peer_Network.thy ===== *)
theory Peer_Network
  imports Peer Records Tiny_Lib
begin

text \<open>
  The list of peers of \<^verbatim>\<open>A4/src/peer.c\<close>: what \<^verbatim>\<open>send_message\<close> makes of the reply to a
  registration, and \<^verbatim>\<open>client_thread\<close>, which registers, chooses a peer and retrieves a file, twice.
  \<^verbatim>\<open>network\<close> is the list of the slots of its memory, \<open>None\<close> for a pointer that was never
  stored. \<^verbatim>\<open>malloc(n)\<close> and \<^verbatim>\<open>realloc(_, n)\<close> reserve \<open>n\<close> bytes, no more; an access beyond them is
  undefined, the result \<open>None\<close>. \<open>junk\<close> are the uninitialised bytes of the local buffer of a port.

  The lemmas show which replies to a registration are noted without an access beyond the
  reserved blocks, that the client thread never gets past the choice of a peer, and that a
  request for a file on its own is answered with the file.
\<close>

section \<open>The reply to a registration\<close>

definition PORT_LEN :: nat where "PORT_LEN = 8"

definition ascii :: "string \<Rightarrow> byte list" where
  "ascii s = map of_char s"

text \<open>\<^verbatim>\<open>sizeof(PeerAddress_t*)\<close>\<close>

definition POINTER_LEN :: nat where "POINTER_LEN = 8"

text \<open>\<^verbatim>\<open>sprintf(reply_port, "%u", p)\<close>\<close>

definition sprint_port :: "byte list \<Rightarrow> cint \<Rightarrow> byte list option" where
  "sprint_port junk p =
     (let s = ascii (decimal (unat p)) @ [0]
      in if PORT_LEN < length s then None else Some (s @ drop (length s) junk))"

text \<open>A buffer that may be printed with \<^verbatim>\<open>%s\<close>.\<close>

definition terminated :: "byte list \<Rightarrow> bool" where
  "terminated buf \<longleftrightarrow> 0 \<in> set buf"

type_synonym slots = "peer_address option list"

text \<open>The comparison with the own address: four bytes of the port, the whole address.\<close>

definition is_own :: "peer_address \<Rightarrow> peer_address \<Rightarrow> bool" where
  "is_own my p \<longleftrightarrow> take 4 (port p) = take 4 (port my) \<and> c_string (ip p) = c_string (ip my)"

text \<open>
  A peer other than the own one gets a block of the size of a pointer, into which its 24
  bytes are copied.
\<close>

definition register_entry ::
    "(nat \<Rightarrow> byte list) \<Rightarrow> peer_address \<Rightarrow> byte list \<Rightarrow> nat \<Rightarrow> slots \<Rightarrow> slots option" where
  "register_entry junk my reply_body i network =
     (case sprint_port (junk i) (ntohl_at reply_body (i * 20 + 16)) of
        None \<Rightarrow> None
      | Some reply_port \<Rightarrow>
          let tmp = \<lparr>ip = take 16 (drop (i * 20) reply_body), port = reply_port\<rparr>
          in if \<not> terminated (ip tmp) \<or> \<not> terminated (ip my) \<or> \<not> terminated (port my) then None
             else if is_own my tmp then Some network
             else if POINTER_LEN < IP_LEN + PORT_LEN \<or> length network \<le> i + 1 then None
             else Some (network[i + 1 := Some tmp]))"

primrec register_entries ::
    "(nat \<Rightarrow> byte list) \<Rightarrow> peer_address \<Rightarrow> byte list \<Rightarrow> nat list \<Rightarrow> slots \<Rightarrow> slots option" where
  "register_entries junk my reply_body [] network = Some network"
| "register_entries junk my reply_body (i # is) network =
     Option.bind (register_entry junk my reply_body i network) (register_entries junk my reply_body is)"

text \<open>The loop that prints the first entries of the list.\<close>

definition printable :: "peer_address option \<Rightarrow> bool" where
  "printable slot \<longleftrightarrow> (case slot of None \<Rightarrow> False | Some p \<Rightarrow> terminated (ip p) \<and> terminated (port p))"

definition print_peers :: "slots \<Rightarrow> nat \<Rightarrow> unit option" where
  "print_peers network peer_count =
     (if peer_count \<le> length network \<and> list_all printable (take peer_count network) then Some () else None)"

record peers =
  network :: slots
  peer_count :: nat

definition note_network ::
    "(nat \<Rightarrow> byte list) \<Rightarrow> peer_address \<Rightarrow> byte list \<Rightarrow> nat \<Rightarrow> peers \<Rightarrow> peers option" where
  "note_network junk my reply_body reply_len ps =
     (let n = reply_len div 20;
          slots = (POINTER_LEN * n + 1) div POINTER_LEN;
          net = take slots (network ps) @ replicate (slots - length (network ps)) None
      in Option.bind (register_entries junk my reply_body [0..<n] net) (\<lambda>net.
         Option.bind (print_peers net n) (\<lambda>_.
         Some \<lparr>network = net, peer_count = n\<rparr>)))"

text \<open>The end of \<^verbatim>\<open>send_message\<close>: \<^verbatim>\<open>reply_body\<close> is copied from \<^verbatim>\<open>msg_buf\<close>.\<close>

definition note_reply ::
    "(nat \<Rightarrow> byte list) \<Rightarrow> peer_address \<Rightarrow> cint \<Rightarrow> 's session \<Rightarrow> peers \<Rightarrow> peers option" where
  "note_reply junk my command ses ps =
     (let n = unat (reply_length (session.header ses))
      in if MAX_MSG_LEN < n then None
         else if reply_status (session.header ses) = STATUS_OK \<and> command = COMMAND_REGISTER
         then note_network junk my (take n (msg_buf ses) @ [0]) n ps
         else Some ps)"

section \<open>The client thread\<close>

text \<open>The host: the system calls on a connection and the contents of uninitialised locals.\<close>

record 's host =
  sys_read :: "'s source"
  sys_write :: "byte list \<Rightarrow> 's \<Rightarrow> put \<times> 's"
  stack_junk :: "nat \<Rightarrow> byte list"

definition port_number :: "peer_address \<Rightarrow> cint" where
  "port_number my = atoi (map (\<lambda>b. char_of (unat b)) (c_string (port my)))"

definition message_to :: "'s host \<Rightarrow> peer_address \<Rightarrow> cint \<Rightarrow> byte list \<Rightarrow> 's \<Rightarrow> 's session \<Rightarrow> peers \<Rightarrow>
    ('s session \<times> peers) result" where
  "message_to h my command request_body socket ses ps =
     andthen (send_message (sys_read h) (sys_write h) (c_string (ip my)) (port_number my) command request_body socket ses)
       (\<lambda>ses. map_option (\<lambda>ps. Inr (ses, ps)) (note_reply (stack_junk h) my command ses ps))"

text \<open>The peers that are known after a call, whether it has complained or not.\<close>

definition peers_after :: "peers \<Rightarrow> verdict + 's session \<times> peers \<Rightarrow> peers" where
  "peers_after ps r = (case r of Inl _ \<Rightarrow> ps | Inr (_, ps) \<Rightarrow> ps)"

definition choose_peer :: "peers \<Rightarrow> peer_address \<Rightarrow> nat \<Rightarrow> peer_address option" where
  "choose_peer ps my r =
     (let net = take (peer_count ps) (network ps)
      in if length net < peer_count ps \<or> None \<in> set net then None else get_random_peer (map the net) my r)"

text \<open>
  \<open>connect k p\<close> is the connection of call \<open>k\<close> to the peer \<open>p\<close>, \<open>ses k\<close> its uninitialised locals
  and the file it writes, \<open>r k\<close> a value of \<^verbatim>\<open>rand()\<close>.
\<close>

definition client_thread :: "'s host \<Rightarrow> (nat \<Rightarrow> peer_address \<Rightarrow> 's) \<Rightarrow> (nat \<Rightarrow> 's session) \<Rightarrow> (nat \<Rightarrow> nat) \<Rightarrow>
    peer_address \<Rightarrow> peers \<Rightarrow> peer_address \<Rightarrow> ((verdict + 's session \<times> peers) \<times> (verdict + 's session \<times> peers)) option" where
  "client_thread h connect ses r my ps peer =
     Option.bind (message_to h my COMMAND_REGISTER [] (connect 0 peer) (ses 0) ps) (\<lambda>registered.
     let ps = peers_after ps registered in
     Option.bind (choose_peer ps my (r 0)) (\<lambda>peer.
     Option.bind (message_to h my COMMAND_RETREIVE (ascii ''tiny.txt'') (connect 1 peer) (ses 1) ps) (\<lambda>tiny.
     let ps = peers_after ps tiny in
     Option.bind (choose_peer ps my (r 1)) (\<lambda>peer.
     Option.bind (message_to h my COMMAND_RETREIVE (ascii ''hamlet.txt'') (connect 2 peer) (ses 2) ps) (\<lambda>hamlet.
     Some (tiny, hamlet))))))"

text \<open>\<^verbatim>\<open>main\<close>: one slot, the own address.\<close>

definition initial_peers :: "peer_address \<Rightarrow> peers" where
  "initial_peers my = \<lparr>network = (replicate (POINTER_LEN div POINTER_LEN) None)[0 := Some my], peer_count = 1\<rparr>"

section \<open>Entries of the list\<close>

text \<open>An entry as it is sent and what is made of it.\<close>

fun entry_bytes :: "byte list \<times> nat \<Rightarrow> byte list" where
  "entry_bytes (s, p) = strncpy s IP_LEN @ htonl_bytes (of_nat p)"

fun stored_entry :: "byte list \<Rightarrow> byte list \<times> nat \<Rightarrow> peer_address" where
  "stored_entry junk (s, p) =
     \<lparr>ip = strncpy s IP_LEN, port = ascii (decimal p) @ [0] @ drop (length (decimal p) + 1) junk\<rparr>"

text \<open>An address that fits and a port of three to seven digits.\<close>

fun entry_ok :: "byte list \<times> nat \<Rightarrow> bool" where
  "entry_ok (s, p) \<longleftrightarrow> 0 \<notin> set s \<and> length s < 16 \<and> 100 \<le> p \<and> p < 10000000"

fun foreign :: "peer_address \<Rightarrow> byte list \<times> nat \<Rightarrow> bool" where
  "foreign my (s, p) \<longleftrightarrow> \<not> (take 4 (ascii (decimal p) @ [0]) = take 4 (port my) \<and> s = c_string (ip my))"

lemma length_ascii [simp]: "length (ascii s) = length s"
  by (simp add: ascii_def)

lemma byte_of_char: "n < 256 \<Longrightarrow> (of_char (char_of n) :: byte) = word_of_nat n" for n :: nat
proof -
  assume "n < 256"
  then have "(of_char (char_of n) :: nat) = n" by simp
  moreover have "(of_char (char_of n) :: byte) = word_of_nat (of_char (char_of n))" by (simp add: of_char_def)
  ultimately show ?thesis by simp
qed

lemma ascii_decimal_nonzero: "0 \<notin> set (ascii (decimal n))"
proof
  assume "0 \<in> set (ascii (decimal n))"
  then obtain c where "c \<in> set (decimal n)" "(of_char c :: byte) = 0" by (auto simp: ascii_def)
  then obtain d where d: "d < 10" "(of_char (char_of (48 + d :: nat)) :: byte) = 0" by (auto dest!: decimal_digit)
  then have "word_of_nat (48 + d) = (0 :: byte)" by (simp only: byte_of_char)
  then have "unat (word_of_nat (48 + d) :: byte) = 0" by simp
  then show False using d(1) by (simp only: unat_of_nat) simp
qed

lemma length_decimal_ge: "100 \<le> n \<Longrightarrow> 3 \<le> length (decimal n)"
proof -
  assume "100 \<le> n"
  then have "\<not> n < 10" "\<not> n div 10 < 10" by simp_all
  then have "decimal n = (decimal (n div 10 div 10) @ [char_of (48 + n div 10 mod 10)]) @ [char_of (48 + n mod 10)]"
    by (simp only: decimal.simps [of n] decimal.simps [of "n div 10"] if_False)
  then show ?thesis using decimal_nonempty [of "n div 10 div 10"] by (cases "decimal (n div 10 div 10)") auto
qed

lemma c_string_zero: "0 \<notin> set s \<Longrightarrow> c_string (s @ 0 # ys) = s"
  unfolding c_string_def by (subst takeWhile_append2) auto

lemma c_string_strncpy: "0 \<notin> set s \<Longrightarrow> length s < n \<Longrightarrow> c_string (strncpy s n) = s"
  using c_string_zero [of s "replicate (n - length s - 1) 0"]
  by (cases "n - length s") (simp_all add: strncpy_def)

lemma stored_terminated: "entry_ok e \<Longrightarrow> terminated (ip (stored_entry junk e)) \<and> terminated (port (stored_entry junk e))"
  by (cases e) (auto simp: terminated_def strncpy_def IP_LEN_def)

lemma stored_own:
  assumes "entry_ok e"
  shows "is_own my (stored_entry junk e) \<longleftrightarrow> \<not> foreign my e"
proof -
  obtain s p where e: "e = (s, p)" by (cases e)
  have "4 - length (decimal p) \<le> 1" using assms e length_decimal_ge [of p] by simp
  then have "take (4 - length (decimal p)) (0 # drop (Suc (length (decimal p))) junk) =
      take (4 - length (decimal p)) [0]"
    by (cases "4 - length (decimal p)") simp_all
  then show ?thesis using assms e by (simp add: is_own_def c_string_strncpy IP_LEN_def)
qed

lemma sprint_port_decimal:
  assumes "p < 10000000"
  shows "sprint_port junk (of_nat p) = Some (ascii (decimal p) @ [0] @ drop (length (decimal p) + 1) junk)"
proof -
  have "length (decimal p) \<le> 7" using assms by (intro length_decimal) simp_all
  moreover have "unat (of_nat p :: cint) = p" using assms by (simp add: unat_of_nat)
  ultimately show ?thesis by (simp add: sprint_port_def Let_def PORT_LEN_def)
qed

text \<open>Entry \<open>i\<close> of the body.\<close>

lemma length_entry: "entry_ok e \<Longrightarrow> length (entry_bytes e) = 20"
  by (cases e) (simp add: strncpy_def IP_LEN_def)

lemma length_entries: "list_all entry_ok es \<Longrightarrow> length (concat (map entry_bytes es)) = 20 * length es"
  by (induction es) (simp_all add: length_entry)

lemma body_entry:
  assumes "list_all entry_ok es" and "i < length es"
  shows "take 16 (drop (i * 20) (concat (map entry_bytes es) @ ys)) = strncpy (fst (es ! i)) IP_LEN"
    and "ntohl_at (concat (map entry_bytes es) @ ys) (i * 20 + 16) = of_nat (snd (es ! i))"
proof -
  obtain s p where e: "es ! i = (s, p)" by (cases "es ! i")
  define es1 es2 where "es1 = take i es" and "es2 = drop (Suc i) es"
  define pre post where "pre = concat (map entry_bytes es1)" and "post = concat (map entry_bytes es2) @ ys"
  have "list_all entry_ok (take i es)" using assms(1) by (auto simp: list_all_iff dest: in_set_takeD)
  then have len: "length pre = i * 20" using assms(2) by (simp add: pre_def es1_def length_entries)
  have es: "es = es1 @ (s, p) # es2" using id_take_nth_drop [OF assms(2)] e by (simp add: es1_def es2_def)
  have body: "concat (map entry_bytes es) @ ys = pre @ strncpy s IP_LEN @ htonl_bytes (of_nat p) @ post"
    by (subst es) (simp add: pre_def post_def)
  have "entry_ok (s, p)" using assms e by (metis list_all_length)
  then have l16: "length (strncpy s IP_LEN) = 16" by (simp add: strncpy_def IP_LEN_def)
  show "take 16 (drop (i * 20) (concat (map entry_bytes es) @ ys)) = strncpy (fst (es ! i)) IP_LEN"
    unfolding body e using len l16 by simp
  show "ntohl_at (concat (map entry_bytes es) @ ys) (i * 20 + 16) = of_nat (snd (es ! i))"
    unfolding body e using ntohl_htonl [of "pre @ strncpy s IP_LEN"] len l16 by simp
qed

section \<open>The whole list\<close>

text \<open>A peer other than the own one does not fit into its block.\<close>

lemma register_entry_listed:
  assumes "list_all entry_ok es" "i < length es" "terminated (ip my)" "terminated (port my)"
  shows "register_entry junk my (concat (map entry_bytes es) @ ys) i net =
    (if foreign my (es ! i) then None else Some net)"
proof -
  obtain s p where e: "es ! i = (s, p)" by (cases "es ! i")
  have ok: "entry_ok (s, p)" using assms(1,2) e by (metis list_all_length)
  note b = body_entry [OF assms(1,2), of ys, unfolded e fst_conv snd_conv]
  have "sprint_port (junk i) (of_nat p) = Some (port (stored_entry (junk i) (s, p)))"
    using ok by (simp add: sprint_port_decimal)
  moreover have "\<lparr>ip = strncpy s IP_LEN, port = port (stored_entry (junk i) (s, p))\<rparr> = stored_entry (junk i) (s, p)"
    by simp
  ultimately show ?thesis
    unfolding register_entry_def b e
    using stored_terminated [OF ok, of "junk i"] stored_own [OF ok, of my "junk i"] assms(3,4)
    by (simp add: Let_def IP_LEN_def PORT_LEN_def POINTER_LEN_def del: stored_entry.simps foreign.simps)
qed

lemma register_entries_listed:
  assumes "list_all entry_ok es" "terminated (ip my)" "terminated (port my)" "set is \<subseteq> {..<length es}"
  shows "register_entries junk my (concat (map entry_bytes es) @ ys) is net =
    (if \<exists>i \<in> set is. foreign my (es ! i) then None else Some net)"
  using assms(4)
  by (induction "is") (auto simp: register_entry_listed [OF assms(1) _ assms(2,3)] simp del: foreign.simps)

lemma register_entries_listed_all:
  assumes "list_all entry_ok es" "terminated (ip my)" "terminated (port my)"
  shows "register_entries junk my (concat (map entry_bytes es) @ ys) [0..<length es] net =
    (if list_ex (foreign my) es then None else Some net)"
proof -
  have "(\<exists>i \<in> set [0..<length es]. foreign my (es ! i)) \<longleftrightarrow> list_ex (foreign my) es"
    by (auto simp: list_ex_length)
  then show ?thesis by (subst register_entries_listed) (use assms in auto)
qed

text \<open>The slots of the list after \<^verbatim>\<open>realloc\<close>: one for every entry.\<close>

lemma note_network_listed:
  assumes "list_all entry_ok es" "terminated (ip my)" "terminated (port my)"
  shows "note_network junk my (concat (map entry_bytes es) @ [0]) (20 * length es) (initial_peers my) =
    (if list_ex (foreign my) es \<or> 1 < length es then None
     else Some \<lparr>network = take (length es) [Some my], peer_count = length es\<rparr>)"
proof -
  define n where "n = length es"
  define net where "net = take n [Some my] @ replicate (n - 1) None"
  have "(8 * n + 1) div 8 = n" by simp
  then have noted: "note_network junk my (concat (map entry_bytes es) @ [0]) (20 * n) (initial_peers my) =
      Option.bind (register_entries junk my (concat (map entry_bytes es) @ [0]) [0..<n] net) (\<lambda>net.
      Option.bind (print_peers net n) (\<lambda>_. Some \<lparr>network = net, peer_count = n\<rparr>))"
    by (simp add: note_network_def initial_peers_def POINTER_LEN_def Let_def net_def del: add_Suc_right)
  have "print_peers net n = (if 1 < n then None else Some ())"
  proof (cases n)
    case (Suc m)
    then show ?thesis using assms(2,3) by (cases m) (simp_all add: print_peers_def net_def printable_def)
  qed (simp add: print_peers_def net_def)
  then show ?thesis
    unfolding n_def [symmetric] noted
    using register_entries_listed_all [OF assms, of junk "[0]" net]
    by (auto simp: n_def [symmetric] net_def)
qed

section \<open>Registrations in general\<close>

lemma register_entry_none_stored: "register_entry junk my body i net = Some net' \<Longrightarrow> net' = net"
  by (auto simp: register_entry_def Let_def POINTER_LEN_def IP_LEN_def split: option.splits if_splits)

lemma register_entries_none_stored: "register_entries junk my body is net = Some net' \<Longrightarrow> net' = net"
proof (induction "is" arbitrary: net)
  case (Cons i "is")
  obtain net1 where "register_entry junk my body i net = Some net1" "register_entries junk my body is net1 = Some net'"
    using Cons.prems by (auto split: bind_splits)
  then show ?case using register_entry_none_stored Cons.IH by blast
qed simp

text \<open>Whatever the reply was, the only peer on the list is the own one.\<close>

definition knows_only :: "peer_address \<Rightarrow> peers \<Rightarrow> bool" where
  "knows_only my ps \<longleftrightarrow> (\<forall>slot \<in> set (take (peer_count ps) (network ps)). slot = None \<or> slot = Some my)"

lemma choose_peer_only: "knows_only my ps \<Longrightarrow> choose_peer ps my r = None"
proof -
  assume only: "knows_only my ps"
  let ?net = "take (peer_count ps) (network ps)"
  show "choose_peer ps my r = None"
  proof (cases "None \<in> set ?net")
    case True
    then show ?thesis by (simp add: choose_peer_def Let_def)
  next
    case False
    then have "set (map the ?net) \<subseteq> {my}" using only by (force simp: knows_only_def)
    then have "filter (\<lambda>p. c_string (ip p) \<noteq> c_string (ip my) \<or> c_string (port p) \<noteq> c_string (port my)) (map the ?net) = []"
      by (auto simp: filter_empty_conv)
    then show ?thesis by (simp add: choose_peer_def get_random_peer_def Let_def)
  qed
qed

lemma initial_only: "knows_only my (initial_peers my)"
  by (simp add: knows_only_def initial_peers_def POINTER_LEN_def)

lemma note_network_only:
  assumes "note_network junk my body len (initial_peers my) = Some ps"
  shows "knows_only my ps"
proof -
  obtain slots where "network ps = take slots [Some my] @ replicate (slots - 1) None"
    using assms register_entries_none_stored
    by (fastforce simp: note_network_def Let_def initial_peers_def POINTER_LEN_def split: bind_splits)
  then show ?thesis
    by (auto simp: knows_only_def dest!: in_set_takeD)
qed

lemma message_only:
  assumes "message_to h my command body socket ses (initial_peers my) = Some out"
  shows "knows_only my (peers_after (initial_peers my) out)"
proof -
  have noted: "knows_only my ps" if "note_reply junk my command ses' (initial_peers my) = Some ps" for junk ses' ps
    using that initial_only note_network_only by (auto simp: note_reply_def Let_def split: if_splits)
  show ?thesis
    using assms initial_only noted
    by (auto simp: message_to_def andthen_def peers_after_def split: option.splits sum.splits)
qed

section \<open>Talking to a reliable peer\<close>

text \<open>The connection takes the request and then delivers \<open>bs\<close>.\<close>

definition answers :: "'s host \<Rightarrow> ('s \<Rightarrow> bool) \<Rightarrow> ('s \<Rightarrow> byte list) \<Rightarrow> peer_address \<Rightarrow> cint \<Rightarrow> byte list \<Rightarrow> 's \<Rightarrow> byte list \<Rightarrow> bool" where
  "answers h ok stream my command request_body socket bs \<longleftrightarrow>
     (\<exists>b s'. rio_writen (sys_write h) (request (c_string (ip my)) (port_number my) command request_body) socket = Some (b, s') \<and>
        ok s' \<and> stream s' = bs)"

lemma length_request: "length (request own p command body) = 28 + length body"
  by (simp add: request_def strncpy_def IP_LEN_def)

context reliable_source
begin

lemma send_message_receives:
  assumes "answers h ok stream my command body socket bs" "rd = sys_read h" "length body \<le> 8000"
    "command \<noteq> COMMAND_INFORM" "length (msg_buf ses) = MAX_MSG_LEN"
  obtains ses1 where "send_message (sys_read h) (sys_write h) (c_string (ip my)) (port_number my) command body socket ses =
      receive_reply rd command ses1" "session_ok ok ses1" "incoming stream ses1 = bs" "outfile ses1 = outfile ses"
proof -
  let ?msg = "request (c_string (ip my)) (port_number my) command body"
  have len: "length ?msg \<le> MAX_MSG_LEN" using assms(3) by (simp add: length_request MAX_MSG_LEN_def)
  obtain b s' where w: "rio_writen (sys_write h) ?msg socket = Some (b, s')" "ok s'" "stream s' = bs"
    using assms(1) by (auto simp: answers_def)
  let ?ses = "ses\<lparr>rio := rio_readinitb s' (rio ses), msg_buf := copy_at (msg_buf ses) 0 ?msg\<rparr>"
  have "rio_ok ok (rio_readinitb s' (rio ses))" "rio_stream stream (rio_readinitb s' (rio ses)) = bs"
    using w by (simp_all add: rio_ok_def rio_stream_def rio_readinitb_def unread_def)
  then show thesis
    using that [of ?ses] assms(2,4,5) len w by (simp add: send_message_def Let_def session_ok_def incoming_def copy_at_def)
qed

end

text \<open>The length of the last payload, after at least one block.\<close>

lemma block_loop_length:
  "block_loop read command ref_count ref_hash first k ses = Some (Inr ses') \<Longrightarrow> k \<noteq> 0 \<Longrightarrow>
   unat (reply_length (session.header ses')) \<le> MAX_MSG_LEN"
proof (induction k arbitrary: first ses)
  case (Suc k)
  then obtain s t where st: "receive_block read command s = Some (Inr t)"
      "block_loop read command ref_count ref_hash False k t = Some (Inr ses')"
    by (auto simp: andthen_eq_Inr)
  show ?case
  proof (cases "k = 0")
    case True
    have "unat (reply_length (session.header s)) \<le> MAX_MSG_LEN"
      using st(1) by (auto simp: receive_block_def Let_def andthen_eq_Inr split: if_splits)
    then show ?thesis using st(2) True receive_block_header [OF st(1)] by simp
  next
    case False
    then show ?thesis using Suc.IH [OF st(2)] by simp
  qed
qed simp

lemma receive_outfile: "receive read n ses = Some (Inr ses') \<Longrightarrow> outfile ses' = outfile ses"
  by (auto simp: receive_def split: option.splits if_splits prod.splits)

lemma retrieved_length:
  assumes "receive_reply read COMMAND_RETREIVE ses = Some (Inr ses')" "outfile ses' \<noteq> outfile ses"
  shows "unat (reply_length (session.header ses')) \<le> MAX_MSG_LEN"
proof -
  obtain s t where s: "receive_header read ses = Some (Inr s)"
      "block_loop read COMMAND_RETREIVE (block_count (session.header s)) (total_hash (session.header s)) True
        (unat (block_count (session.header s))) s = Some (Inr t)" "check_file t = Some (Inr ses')"
    using assms(1) by (auto simp: receive_reply_def andthen_eq_Inr)
  have t: "t = ses'" using s(3) by (auto simp: check_file_def split: option.splits if_splits)
  have "outfile s = outfile ses" using s(1) receive_outfile by (auto simp: receive_header_def andthen_eq_Inr)
  then have "unat (block_count (session.header s)) \<noteq> 0"
    using s(2) t assms(2) by (cases "unat (block_count (session.header s))") auto
  then show ?thesis using block_loop_length [OF s(2)] t by simp
qed

context reliable_source
begin

lemma message_retrieves:
  assumes "answers h ok stream my COMMAND_RETREIVE body socket (concat (map (block_message content) order))"
    and "rd = sys_read h" "length body \<le> 8000" "length (msg_buf ses) = MAX_MSG_LEN" "outfile ses = []"
    and "content \<noteq> []" "0 \<notin> set content" "length content < 2 ^ 31" "mset order = mset [0..<num_blocks content]"
  obtains ses' where "message_to h my COMMAND_RETREIVE body socket ses ps = Some (Inr (ses', ps))" "outfile ses' = content"
proof -
  obtain ses1 where ses1: "send_message (sys_read h) (sys_write h) (c_string (ip my)) (port_number my) COMMAND_RETREIVE body socket ses =
      receive_reply rd COMMAND_RETREIVE ses1" "session_ok ok ses1"
      "incoming stream ses1 = concat (map (block_message content) order) @ []" "outfile ses1 = []"
    using send_message_receives [OF assms(1-3) _ assms(4)] assms(5)
    by (auto simp: COMMAND_RETREIVE_def COMMAND_INFORM_def)
  obtain ses' where ses': "receive_reply rd COMMAND_RETREIVE ses1 = Some (Inr ses')" "outfile ses' = content"
    using receive_reply_file [OF assms(6-9) ses1(2,4,3)] by blast
  have "unat (reply_length (session.header ses')) \<le> MAX_MSG_LEN"
    using retrieved_length [OF ses'(1)] ses'(2) ses1(4) assms(6) by simp
  moreover have "COMMAND_RETREIVE \<noteq> COMMAND_REGISTER" by (simp add: COMMAND_REGISTER_def COMMAND_RETREIVE_def)
  ultimately have "message_to h my COMMAND_RETREIVE body socket ses ps = Some (Inr (ses', ps))"
    by (simp add: message_to_def ses1(1) ses'(1) note_reply_def Let_def)
  then show thesis using that ses'(2) by blast
qed

end

section \<open>Properties\<close>


text \<open>The own address, and a network of two other peers and the own one.\<close>

definition own_address :: peer_address where
  "own_address = \<lparr>ip = strncpy (ascii ''127.0.0.1'') 16, port = strncpy (ascii ''5000'') 8\<rparr>"

definition three_peers :: "(byte list \<times> nat) list" where
  "three_peers = [(ascii ''127.0.0.1'', 6001), (ascii ''10.0.0.7'', 5000), (ascii ''127.0.0.1'', 5000)]"

lemma own_address_terminated: "terminated (ip own_address)" "terminated (port own_address)"
  by (simp_all add: own_address_def ascii_def terminated_def strncpy_def)

lemma three_peers_ok: "list_all entry_ok three_peers" "list_all entry_ok (drop 2 three_peers)"
  by (simp_all add: three_peers_def ascii_def)

lemma three_peers_foreign: "list_ex (foreign own_address) three_peers" "\<not> list_ex (foreign own_address) (drop 2 three_peers)"
  by (simp_all add: three_peers_def own_address_def ascii_def strncpy_def c_string_def decimal.simps byte_of_char)


text \<open>
  C16: a request for a file on a reliable connection, from the bytes of the request on: the peer that
  answers with the blocks of a file without zero bytes, in any order, has it written into
  the file that was created for it, and the list of peers stays as it is.
\<close>

theorem request_retrieves_file:
  assumes "reliable_source (sys_read h) ok stream interrupts"
    and "answers h ok stream my COMMAND_RETREIVE path socket (concat (map (block_message content) order))"
    and "length path \<le> 8000" and "length (msg_buf ses) = MAX_MSG_LEN" and "outfile ses = []"
    and "content \<noteq> []" and "0 \<notin> set content" and "length content < 2 ^ 31"
    and "mset order = mset [0..<num_blocks content]"
  shows "\<exists>ses'. message_to h my COMMAND_RETREIVE path socket ses ps = Some (Inr (ses', ps)) \<and> outfile ses' = content"
  by (rule reliable_source.message_retrieves [OF assms(1,2) refl assms(3-9)]) blast

text \<open>A host whose connections take everything at once and deliver what was scripted.\<close>

definition scripted_host :: "scripted host" where
  "scripted_host = \<lparr>sys_read = scripted_read, sys_write = (\<lambda>bs s. (Put (length bs), s)),
     stack_junk = (\<lambda>i. replicate 8 255)\<rparr>"

lemma scripted_answers:
  "answers scripted_host (\<lambda>_. True) fst my command body (bs, ks) bs"
proof -
  have "request (c_string (ip my)) (port_number my) command body \<noteq> []"
    using length_request [of "c_string (ip my)" "port_number my" command body] by auto
  then show ?thesis by (auto simp: answers_def scripted_host_def rio_writen.simps)
qed

theorem request_retrieves_file_witness:
  "\<exists>ses'. message_to scripted_host own_address COMMAND_RETREIVE (ascii ''tiny.txt'') (block_message [65, 66] 0, [100, 0, 1])
     (fresh_session []) (initial_peers own_address) = Some (Inr (ses', initial_peers own_address)) \<and> outfile ses' = [65, 66]"
proof (rule request_retrieves_file [where order = "[0]" and content = "[65, 66]"])
  show "reliable_source (sys_read scripted_host) (\<lambda>_. True) fst (\<lambda>s. length (snd s))"
    by (simp add: scripted_host_def scripted.reliable_source_axioms)
qed (simp_all add: scripted_answers num_blocks_def BLOCK_LEN_eq fresh_session_def)

text \<open>
  The client thread does not come to its end, whatever the connections deliver: noting a reply
  that names another peer writes behind a block, and without such a reply the only peer is the
  own one, so that \<^verbatim>\<open>get_random_peer\<close> divides by zero.
\<close>

theorem client_thread_undefined: "client_thread h connect ses r my (initial_peers my) peer = None"
  by (auto simp: client_thread_def Let_def choose_peer_only [OF message_only] split: bind_splits)

end
