(* ===== verification/Peer_Main.thy ===== *)
theory Peer_Main
  imports Config Peer_Network
begin

text \<open>
  The peer as a program, \<^verbatim>\<open>main\<close> of \<^verbatim>\<open>A4/src/peer.c\<close>: the configuration is read, the list of peers
  set up with the own address, and the client thread started if the configuration names a
  peer. The server thread is an empty function. \<open>files\<close> are the readable files, \<open>connect\<close>, \<open>ses\<close> and
  \<open>r\<close> as in \<open>client_thread\<close>. The outer \<open>None\<close> is undefined behaviour, \<open>Inl ()\<close> the exit with a
  failure, \<open>Inr None\<close> a peer without a client thread.

  The lemmas put the parts together, from the configuration file to the files written.
\<close>

definition peer_main :: "'s host \<Rightarrow> (string \<rightharpoonup> string) \<Rightarrow> (nat \<Rightarrow> peer_address \<Rightarrow> 's) \<Rightarrow> (nat \<Rightarrow> 's session) \<Rightarrow> (nat \<Rightarrow> nat) \<Rightarrow>
    string list \<Rightarrow> (unit + ((verdict + 's session \<times> peers) \<times> (verdict + 's session \<times> peers)) option) option" where
  "peer_main h files connect ses r argv =
     (if length argv \<noteq> 2 then Some (Inl ())
      else case files (argv ! 1) of None \<Rightarrow> None
      | Some content \<Rightarrow>
          (case read_peer_config content of
             None \<Rightarrow> None
           | Some (Inl u) \<Rightarrow> Some (Inl u)
           | Some (Inr c) \<Rightarrow>
               let my_address = \<lparr>ip = ascii (own_ip c), port = ascii (own_port c)\<rparr>;
                   peer_addr = \<lparr>ip = ascii (other_ip c), port = ascii (other_port c)\<rparr>
               in if hd (other_ip c) \<noteq> CHR ''x'' \<and> hd (other_port c) \<noteq> CHR ''x''
                  then map_option (\<lambda>x. Inr (Some x))
                    (client_thread h connect ses r my_address (initial_peers my_address) peer_addr)
                  else Some (Inr None)))"

text \<open>An address as the configuration file gives it.\<close>

definition address_record :: "nat \<times> nat \<times> nat \<times> nat \<Rightarrow> nat \<Rightarrow> peer_address" where
  "address_record q p = \<lparr>ip = strncpy (ascii (dotted q)) 16, port = strncpy (ascii (decimal p)) 8\<rparr>"

lemma ascii_zero_padded: "ascii (zero_padded n v) = strncpy (ascii v) n" if "length v \<le> n"
  using that by (simp add: ascii_def zero_padded_def strncpy_def)

lemma address_record_terminated:
  assumes "address q p"
  shows "terminated (ip (address_record q p))" and "terminated (port (address_record q p))"
  using address_facts(2,6) [OF assms] by (simp_all add: address_record_def terminated_def strncpy_def)

lemma peer_main_starts:
  assumes "address q1 p1" "address q2 p2" "files cfg = Some (config_file peer_keys q1 p1 q2 p2)"
  shows "peer_main h files connect ses r [prog, cfg] =
    map_option (\<lambda>x. Inr (Some x)) (client_thread h connect ses r (address_record q1 p1)
      (initial_peers (address_record q1 p1)) (address_record q2 p2))"
proof -
  obtain c where c: "read_peer_config (config_file peer_keys q1 p1 q2 p2) = Some (Inr c)"
    "own_ip c = zero_padded 16 (dotted q1)" "own_port c = zero_padded 8 (decimal p1)"
    "other_ip c = zero_padded 16 (dotted q2)" "other_port c = zero_padded 8 (decimal p2)"
    using config_read_back [OF peer_keys_ok assms(1,2) peer_config_fresh] by (auto simp: read_peer_config_def)
  note A = address_facts [OF assms(1)] and B = address_facts [OF assms(2)]
  have records: "\<lparr>ip = ascii (own_ip c), port = ascii (own_port c)\<rparr> = address_record q1 p1"
    "\<lparr>ip = ascii (other_ip c), port = ascii (other_port c)\<rparr> = address_record q2 p2"
    using A(2,6) B(2,6) by (simp_all add: c address_record_def ascii_zero_padded)
  have digit: "hd (decimal n @ xs) \<noteq> CHR ''x''" for n xs
    using decimal_head [of n] by (auto simp: is_digit_def)
  obtain a b d e where "q2 = (a, b, d, e)" by (cases q2)
  then have "hd (other_ip c) \<noteq> CHR ''x''" "hd (other_port c) \<noteq> CHR ''x''"
    using digit by (simp_all add: c zero_padded_def)
  then show ?thesis using c(1) assms(3) records by (simp add: peer_main_def Let_def)
qed

section \<open>Properties\<close>



end
