(* ===== verification/Signature.thy ===== *)
theory Signature
  imports Peer
begin

text \<open>
  The signature of the file server's client \<^verbatim>\<open>A3/src/networking.c\<close>: \<^verbatim>\<open>get_signature\<close> joins the
  password and the salt and hashes the result with \<^verbatim>\<open>get_data_sha\<close>, which is the same code
  as in \<^verbatim>\<open>peer.c\<close>. The password is the buffer of \<^verbatim>\<open>PASSWORD_LEN\<close> bytes after the input loop of
  \<^verbatim>\<open>main\<close>, which fills it up with zeros; the salt is a string of at most \<^verbatim>\<open>SALT_LEN\<close> bytes.

  \<^verbatim>\<open>register_user\<close> and \<^verbatim>\<open>get_file\<close> are modelled up to the header of the response, which \<^verbatim>\<open>get_file\<close>
  copies into a structure that is too small for the copy, whatever the server sends.

  The lemmas show which bytes the hash depends on and what the server is sent.
\<close>

definition PASSWORD_LEN :: nat where "PASSWORD_LEN = 16"
definition SALT_LEN :: nat where "SALT_LEN = 64"
definition SHA256_HASH_WORDS :: cint where "SHA256_HASH_WORDS = 8"

text \<open>
  \<^verbatim>\<open>strncpy(result, password, PASSWORD_LEN)\<close> leaves the rest of \<^verbatim>\<open>result\<close> as it was (\<open>garbage\<close>),
  and \<^verbatim>\<open>strncat\<close> appends at the first zero; \<open>None\<close> if there is no zero or no room.
\<close>

definition strncpy_into :: "byte list \<Rightarrow> byte list \<Rightarrow> nat \<Rightarrow> byte list" where
  "strncpy_into result s n = copy_at result 0 (strncpy (c_string s) n)"

definition strncat :: "byte list \<Rightarrow> byte list \<Rightarrow> nat \<Rightarrow> byte list option" where
  "strncat result s n =
     (let at = length (c_string result); src = take n (c_string s) @ [0]
      in if length result < at + length src then None else Some (copy_at result at src))"

definition get_signature :: "byte list \<Rightarrow> byte list \<Rightarrow> byte list \<Rightarrow> byte list option" where
  "get_signature garbage password salt =
     Option.bind (strncat (strncpy_into garbage password PASSWORD_LEN) salt SALT_LEN)
       (\<lambda>result. get_data_sha result SHA256_HASH_WORDS)"

lemma c_string_nonzero: "0 \<notin> set s \<Longrightarrow> c_string s = s" "0 \<notin> set s \<Longrightarrow> c_string (s @ 0 # t) = s"
  by (induction s) (auto simp: c_string_def)

text \<open>With a password shorter than its buffer the copy is ended by a zero.\<close>

lemma strncpy_into_short:
  assumes "0 \<notin> set pw" and "length pw < PASSWORD_LEN" and "length garbage = PASSWORD_LEN + SALT_LEN + 1"
  shows "strncpy_into garbage (pw @ 0 # junk) PASSWORD_LEN =
    pw @ 0 # replicate (PASSWORD_LEN - length pw - 1) 0 @ drop PASSWORD_LEN garbage"
proof -
  have "replicate (PASSWORD_LEN - length pw) (0 :: byte) = 0 # replicate (PASSWORD_LEN - length pw - 1) 0"
    using assms(2) by (metis Suc_diff_1 replicate_Suc zero_less_diff)
  then show ?thesis
    using assms by (simp add: strncpy_into_def strncpy_def c_string_nonzero copy_at_def)
qed

lemma get_signature_short:
  assumes "0 \<notin> set pw" and "length pw < PASSWORD_LEN" and "length garbage = PASSWORD_LEN + SALT_LEN + 1"
    and "0 \<notin> set salt" and "length salt = SALT_LEN"
  shows "get_signature garbage (pw @ 0 # junk) salt = Some (sha (take 8 (pw @ salt)))"
proof -
  let ?r = "strncpy_into garbage (pw @ 0 # junk) PASSWORD_LEN"
  have r: "?r = pw @ 0 # replicate (PASSWORD_LEN - length pw - 1) 0 @ drop PASSWORD_LEN garbage"
    using assms(1-3) by (rule strncpy_into_short)
  then have len: "length ?r = PASSWORD_LEN + SALT_LEN + 1" using assms(2,3) by simp
  have at: "length (c_string ?r) = length pw" unfolding r by (simp add: c_string_nonzero assms(1))
  let ?s = "copy_at ?r (length pw) (salt @ [0])"
  have "strncat ?r salt SALT_LEN = Some ?s"
    using assms(2,4,5) len at by (simp add: strncat_def Let_def c_string_nonzero)
  moreover have "?s = (pw @ salt) @ 0 # drop (length pw + Suc (length salt)) ?r"
    unfolding copy_at_def by (subst (1) r) simp
  moreover have "8 \<le> length (pw @ salt)" using assms(5) by (simp add: SALT_LEN_def)
  ultimately show ?thesis
    by (simp add: get_signature_def get_data_sha_eq SHA256_HASH_WORDS_def)
qed

section \<open>Requests\<close>

definition USERNAME_LEN :: nat where "USERNAME_LEN = 16"
definition PATH_LEN :: nat where "PATH_LEN = 128"

text \<open>The bytes of a \<^verbatim>\<open>Request_t\<close>: its header, with the length as it lies in memory, and its payload.\<close>

definition request_bytes :: "byte list \<Rightarrow> byte list \<Rightarrow> byte list \<Rightarrow> byte list \<Rightarrow> byte list" where
  "request_bytes username sig len payload = strncpy (c_string username) USERNAME_LEN @ sig @ len @ payload"

text \<open>
  \<^verbatim>\<open>bytearray\<close> is an array of \<^verbatim>\<open>sizeof(Request_t)\<close> pointers, eight times as long as the request
  that is copied to its start; \<open>junk\<close> is what it held.
\<close>

definition to_send :: "byte list \<Rightarrow> byte list \<Rightarrow> byte list" where
  "to_send junk r = copy_at junk 0 r"

text \<open>What \<^verbatim>\<open>register_user\<close> passes to \<^verbatim>\<open>send\<close>; the payload of its request is not set.\<close>

definition register_user :: "byte list \<Rightarrow> byte list \<Rightarrow> byte list \<Rightarrow> byte list \<Rightarrow> byte list \<Rightarrow> byte list \<Rightarrow> byte list option" where
  "register_user garbage payload junk username password salt =
     Option.bind (get_signature garbage password salt) (\<lambda>sig.
     Some (to_send junk (request_bytes username sig [0, 0, 0, 0] payload)))"

text \<open>\<^verbatim>\<open>strcpy(r.payload, to_get)\<close>\<close>

definition strcpy_into :: "byte list \<Rightarrow> byte list \<Rightarrow> byte list option" where
  "strcpy_into buf s =
     (if length buf < length (c_string s) + 1 then None else Some (copy_at buf 0 (c_string s @ [0])))"

definition get_file_request ::
    "byte list \<Rightarrow> byte list \<Rightarrow> byte list \<Rightarrow> byte list \<Rightarrow> byte list \<Rightarrow> byte list \<Rightarrow> byte list \<Rightarrow> byte list option" where
  "get_file_request garbage payload junk username password salt to_get =
     Option.bind (get_signature garbage password salt) (\<lambda>sig.
     Option.bind (strcpy_into payload to_get) (\<lambda>payload.
     Some (to_send junk (request_bytes username sig (htonl_bytes (of_nat (length (c_string to_get)))) payload))))"

text \<open>
  The response header: \<^verbatim>\<open>recv\<close> stores up to \<^verbatim>\<open>RESPONSE_HEADER_LEN\<close> bytes into \<^verbatim>\<open>bufr\<close>, an array of
  1024 pointers, and all of \<^verbatim>\<open>bufr\<close> is copied into \<^verbatim>\<open>rst\<close>.
\<close>

definition RESPONSE_HEADER_LEN :: nat where "RESPONSE_HEADER_LEN = 80"

definition memcpy_to :: "nat \<Rightarrow> byte list \<Rightarrow> byte list option" where
  "memcpy_to dest_size src = (if dest_size < length src then None else Some src)"

definition get_file_header :: "byte list \<Rightarrow> byte list \<Rightarrow> byte list option" where
  "get_file_header bufr received =
     memcpy_to RESPONSE_HEADER_LEN (copy_at bufr 0 (take RESPONSE_HEADER_LEN received))"

section \<open>Properties\<close>

text \<open>
  The signature is the hash of the first eight bytes of the password and the salt
  joined: for a password of eight or more characters it does not depend on the salt, nor
  on the characters after the eighth.
\<close>

theorem signature_ignores_salt:
  assumes "0 \<notin> set pw" and "8 \<le> length pw" and "length pw < PASSWORD_LEN"
    and "length garbage = PASSWORD_LEN + SALT_LEN + 1"
    and "0 \<notin> set salt" and "length salt = SALT_LEN"
  shows "get_signature garbage (pw @ 0 # junk) salt = Some (sha (take 8 pw))"
  using get_signature_short [OF assms(1,3-6)] assms(2) by simp

theorem signature_ignores_salt_witness:
  "get_signature (replicate 81 7) ([1, 2, 3, 4, 5, 6, 7, 8, 9] @ 0 # replicate 6 0) (replicate 64 48) =
    Some (sha (take 8 [1, 2, 3, 4, 5, 6, 7, 8, 9]))"
  by (rule signature_ignores_salt) (simp_all add: PASSWORD_LEN_def SALT_LEN_def)

text \<open>
  A registration sends the name, padded to 16 bytes, the signature and a length of zero, and
  a request for a file the same with the length of the path, and the path; both are
  followed by bytes of the stack up to eight times the size of the request. The copy of
  the response header then overruns its structure, whatever was received.
\<close>

theorem file_requests:
  assumes "0 \<notin> set pw" and "length pw < PASSWORD_LEN" and "length garbage = PASSWORD_LEN + SALT_LEN + 1"
    and "0 \<notin> set salt" and "length salt = SALT_LEN"
    and "length payload = PATH_LEN" and "length junk = 8 * 180"
    and "0 \<notin> set name" and "0 \<notin> set path" and "length path < PATH_LEN" and "length bufr = 8192"
  shows "register_user garbage payload junk (name @ [0]) (pw @ 0 # pad) salt =
      Some (strncpy name 16 @ sha (take 8 (pw @ salt)) @ htonl_bytes 0 @ payload @ drop 180 junk) \<and>
    get_file_request garbage payload junk (name @ [0]) (pw @ 0 # pad) salt (path @ [0]) =
      Some (strncpy name 16 @ sha (take 8 (pw @ salt)) @ htonl_bytes (of_nat (length path)) @
        path @ 0 # drop (length path + 1) payload @ drop 180 junk) \<and>
    get_file_header bufr received = None"
proof -
  have c: "c_string (name @ [0]) = name" "c_string (path @ [0]) = path"
    using assms(8,9) c_string_nonzero(2) [of _ "[]"] by auto
  have sg: "get_signature garbage (pw @ 0 # pad) salt = Some (sha (take 8 (pw @ salt)))"
    using assms(1-5) by (rule get_signature_short)
  have len: "length (strncpy name 16) = 16" by (simp add: strncpy_def)
  have p: "strcpy_into payload (path @ [0]) = Some (path @ 0 # drop (length path + 1) payload)"
    using assms(6,10) by (simp add: strcpy_into_def c copy_at_def)
  have "htonl_bytes 0 = [0, 0, 0, 0]" by (simp add: htonl_bytes_def byte_of_def)
  then have "register_user garbage payload junk (name @ [0]) (pw @ 0 # pad) salt =
      Some (strncpy name 16 @ sha (take 8 (pw @ salt)) @ htonl_bytes 0 @ payload @ drop 180 junk)"
    using assms(6) len by (simp add: register_user_def sg to_send_def copy_at_def request_bytes_def c USERNAME_LEN_def PATH_LEN_def)
  moreover have "length (path @ 0 # drop (length path + 1) payload) = 128"
    using assms(6,10) by (simp add: PATH_LEN_def)
  then have "get_file_request garbage payload junk (name @ [0]) (pw @ 0 # pad) salt (path @ [0]) =
      Some (strncpy name 16 @ sha (take 8 (pw @ salt)) @ htonl_bytes (of_nat (length path)) @
        path @ 0 # drop (length path + 1) payload @ drop 180 junk)"
    using len by (simp add: get_file_request_def sg p to_send_def copy_at_def request_bytes_def c USERNAME_LEN_def)
  moreover have "get_file_header bufr received = None"
    using assms(11) by (simp add: get_file_header_def memcpy_to_def copy_at_def RESPONSE_HEADER_LEN_def)
  ultimately show ?thesis by blast
qed

theorem file_requests_witness:
  "register_user (replicate 81 7) (replicate 128 9) (replicate 1440 5) ([97] @ [0]) ([1, 2, 3] @ 0 # []) (replicate 64 48) =
      Some (strncpy [97] 16 @ sha (take 8 ([1, 2, 3] @ replicate 64 48)) @ htonl_bytes 0 @ replicate 128 9 @ drop 180 (replicate 1440 5)) \<and>
    get_file_request (replicate 81 7) (replicate 128 9) (replicate 1440 5) ([97] @ [0]) ([1, 2, 3] @ 0 # []) (replicate 64 48) ([98, 99] @ [0]) =
      Some (strncpy [97] 16 @ sha (take 8 ([1, 2, 3] @ replicate 64 48)) @ htonl_bytes (of_nat (length [98, 99 :: byte])) @
        [98, 99] @ 0 # drop (length [98, 99 :: byte] + 1) (replicate 128 9) @ drop 180 (replicate 1440 5)) \<and>
    get_file_header (replicate 8192 0) [] = None"
  by (rule file_requests) (simp_all add: PASSWORD_LEN_def SALT_LEN_def PATH_LEN_def)

end
