(* ===== verification/Networking_Main.thy ===== *)
theory Networking_Main
  imports Config Signature Peer_Network
begin

text \<open>
  \<^verbatim>\<open>main\<close> of the file server's client, \<^verbatim>\<open>A3/src/networking.c\<close>: the configuration, the name and the
  password typed in, the line written to \<^verbatim>\<open>userInformations.txt\<close>, and the calls of
  \<^verbatim>\<open>register_user\<close> and \<^verbatim>\<open>get_file\<close>. What lies outside the program is the record \<open>env\<close>: the files,
  the terminal, whether a connection is opened and what the server answers, and the
  bytes that the buffers on the stack happen to hold. The result is how the program
  ends, with the effects it had until then.

  The lemmas show what the typed words and the line become; the theorems that the client
  registers the user, and that its first request for a file leaves an empty file behind and
  then undefined behaviour.
\<close>

section \<open>What is typed in\<close>

text \<open>
  \<^verbatim>\<open>scanf("%16s", buf)\<close>: the next word, at most 16 characters and a zero behind them; nothing is
  stored at the end of the input.
\<close>

definition scan_word :: "byte list \<Rightarrow> string \<Rightarrow> (byte list \<times> string) option" where
  "scan_word buf input =
     (let s = dropWhile is_space input; w = take 16 (takeWhile (\<lambda>c. \<not> is_space c) s)
      in if s = [] then Some (buf, [])
         else if length buf < length w + 1 then None
         else Some (copy_at buf 0 (ascii w @ [0]), drop (length w) s))"

text \<open>The loop over \<^verbatim>\<open>getchar\<close>, and the one that puts zeros behind the word.\<close>

definition skip_line :: "string \<Rightarrow> string" where
  "skip_line s = drop 1 (dropWhile (\<lambda>c. c \<noteq> newline) s)"

definition clean_up :: "byte list \<Rightarrow> byte list option" where
  "clean_up buf =
     (if 0 \<in> set buf then Some (c_string buf @ replicate (length buf - length (c_string buf)) 0) else None)"

definition enter :: "byte list \<Rightarrow> string \<Rightarrow> (byte list \<times> string) option" where
  "enter buf input =
     Option.bind (scan_word buf input) (\<lambda>(buf, input).
     Option.bind (clean_up buf) (\<lambda>buf. Some (buf, skip_line input)))"

section \<open>The line for the user\<close>

definition salt_text :: string where
  "salt_text = ''0123456789012345678901234567890123456789012345678901234567890123''"

definition user_salt :: "byte list" where
  "user_salt = strncpy (ascii salt_text) (SALT_LEN + 1)"

text \<open>\<^verbatim>\<open>strcat\<close> appends at the first zero; \<open>None\<close> if there is no zero or no room.\<close>

definition strcat :: "byte list \<Rightarrow> byte list \<Rightarrow> byte list option" where
  "strcat buf s =
     (let at = length (c_string buf); src = c_string s @ [0]
      in if length buf < at + length src then None else Some (copy_at buf at src))"

definition user_line :: "byte list \<Rightarrow> byte list \<Rightarrow> byte list option" where
  "user_line buf username =
     Option.bind (strcat buf username) (\<lambda>buf.
     Option.bind (strcat buf (ascii '' '')) (\<lambda>buf.
     Option.bind (strcat buf user_salt) (\<lambda>buf.
     strcat buf (ascii [newline]))))"

text \<open>
  The file is opened for appending, which fails if \<open>old\<close> is \<open>None\<close>, or else created; \<^verbatim>\<open>fputc\<close> to
  a null pointer is undefined.
\<close>

definition write_user :: "byte list option \<Rightarrow> bool \<Rightarrow> byte list \<Rightarrow> byte list option" where
  "write_user old creatable line =
     (case old of Some content \<Rightarrow> Some (content @ c_string line)
      | None \<Rightarrow> if creatable then Some (c_string line) else None)"

section \<open>The answer to a request for a file\<close>

definition MAX_PAYLOAD :: nat where "MAX_PAYLOAD = 1024 - RESPONSE_HEADER_LEN"

text \<open>
  \<^verbatim>\<open>get_file\<close> behind the request: the header, the payload, received into an array of \<^verbatim>\<open>MAX_PAYLOAD\<close>
  pointers, and what is written to the file. For more than one block all of that array is
  copied into a block of \<^verbatim>\<open>MAX_PAYLOAD\<close> bytes, so that the loop for the other blocks is not reached.
\<close>

definition get_file_answer :: "byte list \<Rightarrow> byte list \<Rightarrow> byte list \<Rightarrow> byte list \<Rightarrow> byte list option" where
  "get_file_answer bufr payload head body =
     Option.bind (get_file_header bufr head) (\<lambda>rst.
       let len = unat (ntohl_at rst 0); blockcount = unat (ntohl_at rst 12); received = take len body
       in if length payload < length received then None
          else let payload = copy_at payload 0 received
          in if blockcount = 1 then (if length payload < len then None else Some (take len payload))
             else if 1 < blockcount then Option.bind (memcpy_to MAX_PAYLOAD payload) (\<lambda>_. None)
             else Some [])"

section \<open>The program\<close>

datatype ending = Exit_Failure | Exit_Success | Undefined

record effects =
  users :: "byte list option"
  sent :: "byte list list"
  disk :: "string \<rightharpoonup> byte list"

text \<open>
  The functions take the number of the call that opens a connection. \<open>disk\<close> are the files that
  are opened for writing, by name, \<open>disk_before\<close> as the program finds them; \<open>openable\<close> are the names for which
  \<^verbatim>\<open>fopen(name, "wb")\<close> succeeds.
\<close>

record env =
  files :: "string \<rightharpoonup> string"
  terminal :: string
  creatable :: bool
  openable :: "string \<Rightarrow> bool"
  disk_before :: "string \<rightharpoonup> byte list"
  connected :: "nat \<Rightarrow> bool"
  answer_header :: "nat \<Rightarrow> byte list"
  answer_body :: "nat \<Rightarrow> byte list"
  name_buf :: "byte list"
  password_buf :: "byte list"
  line_buf :: "byte list"
  result_buf :: "nat \<Rightarrow> byte list"
  request_payload :: "nat \<Rightarrow> byte list"
  bytearray :: "nat \<Rightarrow> byte list"
  bufr :: "nat \<Rightarrow> byte list"
  payload_buf :: "nat \<Rightarrow> byte list"

definition call_register :: "env \<Rightarrow> nat \<Rightarrow> byte list \<Rightarrow> byte list \<Rightarrow> effects \<Rightarrow> ending option \<times> effects" where
  "call_register e k username password fx =
     (if \<not> connected e k then (None, fx)
      else case register_user (result_buf e k) (request_payload e k) (bytearray e k) username password user_salt of
        None \<Rightarrow> (Some Undefined, fx)
      | Some m \<Rightarrow> (None, fx\<lparr>sent := sent fx @ [m]\<rparr>))"

text \<open>
  \<^verbatim>\<open>fopen(to_get, "wb")\<close> creates the file or empties it; its result is not looked at, and to write
  to or close a null pointer is undefined.
\<close>

definition open_wb :: "env \<Rightarrow> string \<Rightarrow> effects \<Rightarrow> effects" where
  "open_wb e path fx = (if openable e path then fx\<lparr>disk := (disk fx)(path \<mapsto> [])\<rparr> else fx)"

definition call_get_file :: "env \<Rightarrow> nat \<Rightarrow> byte list \<Rightarrow> byte list \<Rightarrow> string \<Rightarrow> effects \<Rightarrow> ending option \<times> effects" where
  "call_get_file e k username password to_get fx =
     (if \<not> connected e k then (None, fx)
      else case get_file_request (result_buf e k) (request_payload e k) (bytearray e k) username password user_salt
          (ascii to_get @ [0]) of
        None \<Rightarrow> (Some Undefined, fx)
      | Some m \<Rightarrow>
          (let fx = open_wb e to_get (fx\<lparr>sent := sent fx @ [m]\<rparr>)
           in case get_file_answer (bufr e k) (payload_buf e k) (answer_header e k) (answer_body e k) of
             None \<Rightarrow> (Some Undefined, fx)
           | Some content \<Rightarrow>
               if openable e to_get then (None, fx\<lparr>disk := (disk fx)(to_get \<mapsto> content)\<rparr>)
               else (Some Undefined, fx)))"

text \<open>One call after the other, unless the program has ended.\<close>

definition and_then :: "ending option \<times> effects \<Rightarrow> (effects \<Rightarrow> ending option \<times> effects) \<Rightarrow> ending option \<times> effects" where
  "and_then r f = (case r of (None, fx) \<Rightarrow> f fx | (Some e, fx) \<Rightarrow> (Some e, fx))"

definition run_calls :: "env \<Rightarrow> byte list \<Rightarrow> byte list \<Rightarrow> effects \<Rightarrow> ending \<times> effects" where
  "run_calls e username password fx =
     (case and_then (and_then (call_register e 0 username password fx)
         (call_get_file e 1 username password ''tiny.txt'')) (call_get_file e 2 username password ''hamlet.txt'') of
        (None, fx) \<Rightarrow> (Exit_Success, fx)
      | (Some x, fx) \<Rightarrow> (x, fx))"

definition networking_main :: "env \<Rightarrow> byte list option \<Rightarrow> string list \<Rightarrow> ending \<times> effects" where
  "networking_main e old argv =
     (let fx = \<lparr>users = old, sent = [], disk = disk_before e\<rparr>
      in if length argv \<noteq> 2 then (Exit_Failure, fx)
         else case Option.bind (files e (argv ! 1)) read_networking_config of
           None \<Rightarrow> (Undefined, fx)
         | Some (Inl _) \<Rightarrow> (Exit_Failure, fx)
         | Some (Inr _) \<Rightarrow>
             (case Option.bind (enter (name_buf e) (terminal e)) (\<lambda>(username, input).
                 Option.bind (enter (password_buf e) input) (\<lambda>(password, _).
                 Option.bind (user_line (line_buf e) username) (\<lambda>line.
                 Option.bind (write_user old (creatable e) line) (\<lambda>info. Some (username, password, info))))) of
                None \<Rightarrow> (Undefined, fx)
              | Some (username, password, info) \<Rightarrow> run_calls e username password (fx\<lparr>users := Some info\<rparr>)))"

section \<open>Typed words\<close>

text \<open>A word as it can be typed in.\<close>

definition word_ok :: "string \<Rightarrow> bool" where
  "word_ok w \<longleftrightarrow> w \<noteq> [] \<and> (\<forall>c \<in> set w. \<not> is_space c \<and> c \<noteq> CHR 0x00)"

lemma ascii_nonzero: "0 \<notin> set (ascii s)" if "CHR 0x00 \<notin> set s"
proof
  assume "0 \<in> set (ascii s)"
  then obtain c where c: "c \<in> set s" "(of_char c :: byte) = 0" by (auto simp: ascii_def)
  have "(of_char (char_of (of_char c :: nat)) :: byte) = word_of_nat (of_char c)" by (rule byte_of_char) simp
  with c(2) have "unat (word_of_nat (of_char c) :: byte) = 0" by simp
  then have "of_char c = (0 :: nat)" by (simp only: unat_of_nat) simp
  then have "c = char_of (0 :: nat)" by (metis char_of_char)
  then show False using c(1) that by (simp add: char_of_def)
qed

lemma scan_word_ok:
  assumes "word_ok w" and "is_space c"
  shows "scan_word buf (w @ c # input) =
    (if length buf < min 16 (length w) + 1 then None
     else Some (copy_at buf 0 (ascii (take 16 w) @ [0]), drop 16 w @ c # input))"
proof -
  have "dropWhile is_space (w @ c # input) = w @ c # input" "takeWhile (\<lambda>c. \<not> is_space c) (w @ c # input) = w"
    using assms by (cases w; auto simp: word_ok_def takeWhile_append2)+
  then show ?thesis using assms(1) by (simp add: scan_word_def Let_def word_ok_def min_def)
qed

lemma enter_ok:
  assumes "word_ok w" and "length w < length buf" and "length w \<le> 16"
  shows "enter buf (w @ newline # input) = Some (strncpy (ascii w) (length buf), input)"
proof -
  have nz: "0 \<notin> set (ascii w)" using assms(1) by (auto intro!: ascii_nonzero simp: word_ok_def)
  let ?b = "ascii w @ 0 # drop (length w + 1) buf"
  have "scan_word buf (w @ newline # input) = Some (?b, newline # input)"
    using scan_word_ok [OF assms(1), of newline buf input] assms(2,3) by (simp add: is_space_def copy_at_def)
  moreover have "clean_up ?b = Some (strncpy (ascii w) (length buf))"
    using assms(2) by (simp add: clean_up_def c_string_zero nz strncpy_def)
  ultimately show ?thesis by (simp add: enter_def skip_line_def)
qed

section \<open>The line\<close>

lemma strcat_ok:
  assumes "0 \<notin> set s" "0 \<notin> set (c_string t)" "length s + length (c_string t) + 1 \<le> length (s @ 0 # g)"
  shows "\<exists>g'. strcat (s @ 0 # g) t = Some ((s @ c_string t) @ 0 # g') \<and> length g' + length (c_string t) = length g"
  using assms by (intro exI [of _ "drop (length (c_string t)) g"]) (simp add: strcat_def c_string_zero copy_at_def)

lemma salt_text: "length salt_text = SALT_LEN" "0 \<notin> set (ascii salt_text)"
  by (auto simp: salt_text_def SALT_LEN_def intro!: ascii_nonzero)

lemma c_string_salt: "c_string user_salt = ascii salt_text"
  unfolding user_salt_def by (rule c_string_strncpy) (simp_all add: salt_text)

lemma user_line_ok:
  assumes "length (0 # g) = 84" and "word_ok user" and "length user < 16"
  shows "\<exists>line. user_line (0 # g) (strncpy (ascii user) 16) = Some line \<and>
    c_string line = ascii (user @ '' '' @ salt_text @ [newline])"
proof -
  have user: "0 \<notin> set (ascii user)" using assms(2) by (auto intro!: ascii_nonzero simp: word_ok_def)
  have cn: "c_string (strncpy (ascii user) 16) = ascii user" using user assms(3) by (intro c_string_strncpy) simp_all
  have blank: "0 \<notin> set (ascii '' '')" "0 \<notin> set (ascii [newline])" by (auto intro!: ascii_nonzero)
  have cb: "c_string (ascii '' '') = ascii '' ''" "c_string (ascii [newline]) = ascii [newline]"
    using blank by (simp_all add: c_string_nonzero(1))
  obtain g1 where 1: "strcat (0 # g) (strncpy (ascii user) 16) = Some (ascii user @ 0 # g1)" "length g1 + length user = 83"
    using strcat_ok [of "[]" "strncpy (ascii user) 16" g] user cn assms(1,3) by auto
  obtain g2 where 2: "strcat (ascii user @ 0 # g1) (ascii '' '') = Some ((ascii user @ ascii '' '') @ 0 # g2)"
    "length g2 + 1 = length g1"
    using strcat_ok [OF user, of "ascii '' ''" g1] blank cb 1(2) assms(3) by auto
  obtain g3 where 3: "strcat ((ascii user @ ascii '' '') @ 0 # g2) user_salt =
      Some (((ascii user @ ascii '' '') @ ascii salt_text) @ 0 # g3)" "length g3 + 64 = length g2"
    using strcat_ok [of "ascii user @ ascii '' ''" user_salt g2] user blank c_string_salt salt_text 1(2) 2(2) assms(3)
    by (auto simp: SALT_LEN_def)
  obtain g4 where 4: "strcat (((ascii user @ ascii '' '') @ ascii salt_text) @ 0 # g3) (ascii [newline]) =
      Some ((((ascii user @ ascii '' '') @ ascii salt_text) @ ascii [newline]) @ 0 # g4)"
    using strcat_ok [of "(ascii user @ ascii '' '') @ ascii salt_text" "ascii [newline]" g3] user blank cb salt_text
      1(2) 2(2) 3(2) assms(3) by auto
  have "ascii (user @ '' '' @ salt_text @ [newline]) = ((ascii user @ ascii '' '') @ ascii salt_text) @ ascii [newline]"
    by (simp add: ascii_def)
  then show ?thesis
    using user blank salt_text by (simp add: user_line_def 1 2 3 4 c_string_zero del: append_assoc)
qed

section \<open>The requests\<close>

lemma c_string_idem: "c_string (c_string s) = c_string s" "c_string (c_string s @ [0]) = c_string s"
proof -
  have "0 \<notin> set (c_string s)" by (auto simp: c_string_def dest: set_takeWhileD)
  then show "c_string (c_string s) = c_string s" "c_string (c_string s @ [0]) = c_string s"
    by (simp_all add: c_string_nonzero)
qed

lemma requests_c_string:
  "register_user g p j u pw s = register_user g p j (c_string u @ [0]) pw (c_string s)"
  "get_file_request g p j u pw s path = get_file_request g p j (c_string u @ [0]) pw (c_string s) path"
  by (simp_all add: register_user_def get_file_request_def get_signature_def strncat_def request_bytes_def c_string_idem)

text \<open>The sizes of the buffers.\<close>

definition stack_ok :: "env \<Rightarrow> bool" where
  "stack_ok e \<longleftrightarrow> length (name_buf e) = 16 \<and> length (password_buf e) = 16 \<and> length (line_buf e) = 84 \<and>
     (\<forall>k. length (result_buf e k) = PASSWORD_LEN + SALT_LEN + 1 \<and> length (request_payload e k) = PATH_LEN \<and>
       length (bytearray e k) = 8 * 180 \<and> length (bufr e k) = 8192)"

text \<open>The messages for a user: the name, the signature, the length of the path, and the rest.\<close>

definition credentials :: "string \<Rightarrow> string \<Rightarrow> byte list" where
  "credentials user pw = strncpy (ascii user) 16 @ sha (take 8 (ascii pw @ ascii salt_text))"

definition registration :: "env \<Rightarrow> nat \<Rightarrow> string \<Rightarrow> string \<Rightarrow> byte list" where
  "registration e k user pw =
     credentials user pw @ htonl_bytes 0 @ request_payload e k @ drop 180 (bytearray e k)"

definition retrieval :: "env \<Rightarrow> nat \<Rightarrow> string \<Rightarrow> string \<Rightarrow> string \<Rightarrow> byte list" where
  "retrieval e k user pw path =
     credentials user pw @ htonl_bytes (of_nat (length path)) @
       ascii path @ 0 # drop (length path + 1) (request_payload e k) @ drop 180 (bytearray e k)"

lemma calls_ok:
  assumes "stack_ok e" and "word_ok user" "length user < 16" and "word_ok pw" "length pw < 16"
  shows "call_register e k (strncpy (ascii user) 16) (strncpy (ascii pw) 16) fx =
      (None, if connected e k then fx\<lparr>sent := sent fx @ [registration e k user pw]\<rparr> else fx)"
    and "CHR 0x00 \<notin> set path \<Longrightarrow> length path < PATH_LEN \<Longrightarrow>
      call_get_file e k (strncpy (ascii user) 16) (strncpy (ascii pw) 16) path fx =
      (if connected e k then (Some Undefined, open_wb e path (fx\<lparr>sent := sent fx @ [retrieval e k user pw path]\<rparr>)) else (None, fx))"
proof -
  have nz: "0 \<notin> set (ascii user)" "0 \<notin> set (ascii pw)"
    using assms(2,4) by (auto intro!: ascii_nonzero simp: word_ok_def)
  have cu: "c_string (strncpy (ascii user) 16) = ascii user" using nz(1) assms(3) by (intro c_string_strncpy) simp_all
  have pad: "strncpy (ascii pw) 16 = ascii pw @ 0 # replicate (16 - length pw - 1) 0"
    using assms(5) unfolding strncpy_def by (cases "16 - length pw") simp_all
  have len: "length (ascii pw) < PASSWORD_LEN" "length (ascii salt_text) = SALT_LEN"
    using assms(5) by (simp_all add: PASSWORD_LEN_def salt_text)
  have st: "length (result_buf e k) = PASSWORD_LEN + SALT_LEN + 1" "length (request_payload e k) = PATH_LEN"
    "length (bytearray e k) = 8 * 180" "length (bufr e k) = 8192" using assms(1) by (simp_all add: stack_ok_def)
  note sends = file_requests [OF nz(2) len(1) st(1) salt_text(2) len(2) st(2,3) nz(1) _ _ st(4)]
  show "call_register e k (strncpy (ascii user) 16) (strncpy (ascii pw) 16) fx =
      (None, if connected e k then fx\<lparr>sent := sent fx @ [registration e k user pw]\<rparr> else fx)"
    unfolding call_register_def requests_c_string(1) [of _ _ _ _ _ user_salt] cu c_string_salt pad
    by (simp add: sends [of "[]"] registration_def credentials_def PATH_LEN_def)
  assume path: "CHR 0x00 \<notin> set path" "length path < PATH_LEN"
  then have "0 \<notin> set (ascii path)" "length (ascii path) < PATH_LEN" by (simp_all add: ascii_nonzero)
  note sends = sends [OF this]
  show "call_get_file e k (strncpy (ascii user) 16) (strncpy (ascii pw) 16) path fx =
      (if connected e k then (Some Undefined, open_wb e path (fx\<lparr>sent := sent fx @ [retrieval e k user pw path]\<rparr>)) else (None, fx))"
    unfolding call_get_file_def requests_c_string(2) [of _ _ _ _ _ user_salt] cu c_string_salt pad get_file_answer_def
    by (simp add: sends retrieval_def credentials_def Let_def)
qed

lemma networking_main_typed:
  assumes "address q1 p1" "address q2 p2" "files e cfg = Some (config_file networking_keys q1 p1 q2 p2)"
    and "stack_ok e" "hd (line_buf e) = 0"
    and "word_ok user" "length user < 16" and "word_ok pw" "length pw < 16"
    and "terminal e = user @ newline # pw @ newline # tail"
  shows "networking_main e (Some old) [prog, cfg] =
    run_calls e (strncpy (ascii user) 16) (strncpy (ascii pw) 16)
      \<lparr>users = Some (old @ ascii (user @ '' '' @ salt_text @ [newline])), sent = [], disk = disk_before e\<rparr>"
proof -
  obtain c where c: "read_networking_config (config_file networking_keys q1 p1 q2 p2) = Some (Inr c)"
    using config_read_back [OF networking_keys_ok assms(1,2) networking_config_fresh]
    by (auto simp: read_networking_config_def)
  have len: "length (name_buf e) = 16" "length (password_buf e) = 16" using assms(4) by (simp_all add: stack_ok_def)
  obtain g where g: "line_buf e = 0 # g" "length (0 # g) = 84"
    using assms(4,5) by (cases "line_buf e") (auto simp: stack_ok_def)
  obtain line where line: "user_line (line_buf e) (strncpy (ascii user) 16) = Some line"
    "c_string line = ascii (user @ '' '' @ salt_text @ [newline])"
    using user_line_ok [OF g(2) assms(6,7)] g(1) by auto
  have "enter (name_buf e) (terminal e) = Some (strncpy (ascii user) 16, pw @ newline # tail)"
    using enter_ok [OF assms(6), of "name_buf e"] assms(7,10) len(1) by simp
  moreover have "enter (password_buf e) (pw @ newline # tail) = Some (strncpy (ascii pw) 16, tail)"
    using enter_ok [OF assms(8), of "password_buf e"] assms(9) len(2) by simp
  ultimately show ?thesis using c assms(3) line by (simp add: networking_main_def Let_def write_user_def)
qed

section \<open>Properties\<close>

text \<open>
  C35: with a valid configuration, a name and a password of less than 16 characters, a file for
  the users and a line buffer that happens to start with a zero, the client appends the name and
  the salt to its file and sends the registration. Its first request for a file that
  reaches the server is the last thing it sends; it then creates the local file of that name,
  or empties it if there is one, and its behaviour is undefined before anything is written
  to it, whatever the server answers. It exits normally, with no file touched, only if
  neither of the connections for the two files opens.
\<close>

theorem networking_client_outcome:
  assumes "address q1 p1" and "address q2 p2" and "files e cfg = Some (config_file networking_keys q1 p1 q2 p2)"
    and "stack_ok e" and "hd (line_buf e) = 0"
    and "word_ok user" "length user < 16" and "word_ok pw" "length pw < 16"
    and "terminal e = user @ newline # pw @ newline # tail"
  shows "networking_main e (Some old) [prog, cfg] =
    (if connected e 1 \<or> connected e 2 then Undefined else Exit_Success,
     \<lparr>users = Some (old @ ascii (user @ '' '' @ salt_text @ [newline])),
      sent = (if connected e 0 then [registration e 0 user pw] else []) @
        (if connected e 1 then [retrieval e 1 user pw ''tiny.txt'']
         else if connected e 2 then [retrieval e 2 user pw ''hamlet.txt''] else []),
      disk = (let path = if connected e 1 then ''tiny.txt'' else ''hamlet.txt''
        in if (connected e 1 \<or> connected e 2) \<and> openable e path then (disk_before e)(path \<mapsto> [])
           else disk_before e)\<rparr>)"
  using networking_main_typed [OF assms]
  by (simp add: run_calls_def calls_ok [OF assms(4,6-9)] and_then_def PATH_LEN_def open_wb_def)

theorem networking_client_outcome_witness:
  "\<exists>e. networking_main e (Some [1]) [''networking'', ''my.cfg''] =
    (Undefined, \<lparr>users = Some (1 # ascii (''me '' @ salt_text @ [newline])),
      sent = [registration e 0 ''me'' ''pw'', retrieval e 1 ''me'' ''pw'' ''tiny.txt''], disk = [''tiny.txt'' \<mapsto> []]\<rparr>)"
proof -
  let ?e = "\<lparr>files = [''my.cfg'' \<mapsto> config_file networking_keys (127, 0, 0, 1) 5000 (10, 0, 0, 7) 5000],
    terminal = ''me'' @ newline # ''pw'' @ newline # [], creatable = True, openable = (\<lambda>_. True),
    disk_before = [''tiny.txt'' \<mapsto> [65, 66]], connected = (\<lambda>k. True),
    answer_header = (\<lambda>k. replicate 80 0), answer_body = (\<lambda>k. []),
    name_buf = replicate 16 7, password_buf = replicate 16 8, line_buf = 0 # replicate 83 9,
    result_buf = (\<lambda>k. replicate 81 1), request_payload = (\<lambda>k. replicate 128 2), bytearray = (\<lambda>k. replicate 1440 3),
    bufr = (\<lambda>k. replicate 8192 4), payload_buf = (\<lambda>k. replicate 7552 5)\<rparr>"
  have "stack_ok ?e" by (simp add: stack_ok_def PASSWORD_LEN_def SALT_LEN_def PATH_LEN_def)
  moreover have "word_ok ''me''" "word_ok ''pw''" by (simp_all add: word_ok_def is_space_def)
  ultimately have "networking_main ?e (Some [1]) [''networking'', ''my.cfg''] =
    (if connected ?e 1 \<or> connected ?e 2 then Undefined else Exit_Success,
     \<lparr>users = Some ([1] @ ascii (''me'' @ '' '' @ salt_text @ [newline])),
      sent = (if connected ?e 0 then [registration ?e 0 ''me'' ''pw''] else []) @
        (if connected ?e 1 then [retrieval ?e 1 ''me'' ''pw'' ''tiny.txt'']
         else if connected ?e 2 then [retrieval ?e 2 ''me'' ''pw'' ''hamlet.txt''] else []),
      disk = (let path = if connected ?e 1 then ''tiny.txt'' else ''hamlet.txt''
        in if (connected ?e 1 \<or> connected ?e 2) \<and> openable ?e path then (disk_before ?e)(path \<mapsto> [])
           else disk_before ?e)\<rparr>)"
    by (intro networking_client_outcome [of "(127, 0, 0, 1)" 5000 "(10, 0, 0, 7)" 5000])
      (simp_all add: address_def)
  then show ?thesis by (intro exI [of _ ?e]) simp
qed

text \<open>A name of 16 or more characters is stored with a zero behind the end of its buffer.\<close>

theorem long_name_overruns:
  assumes "address q1 p1" and "address q2 p2" and "files e cfg = Some (config_file networking_keys q1 p1 q2 p2)"
    and "length (name_buf e) = 16" and "word_ok user" "16 \<le> length user" and "terminal e = user @ newline # tail"
  shows "networking_main e old [prog, cfg] = (Undefined, \<lparr>users = old, sent = [], disk = disk_before e\<rparr>)"
proof -
  obtain c where c: "read_networking_config (config_file networking_keys q1 p1 q2 p2) = Some (Inr c)"
    using config_read_back [OF networking_keys_ok assms(1,2) networking_config_fresh]
    by (auto simp: read_networking_config_def)
  have "scan_word (name_buf e) (terminal e) = None"
    using scan_word_ok [OF assms(5), of newline "name_buf e" tail] assms(4,6,7) by (simp add: is_space_def)
  then show ?thesis using c assms(3) by (simp add: networking_main_def Let_def enter_def)
qed

end
