(* ===== verification/Sockets.thy ===== *)
theory Sockets
  imports Main
begin

text \<open>
  Opening connections in \<^verbatim>\<open>A3/src/compsys_helpers.c\<close> (the same file as
  \<^verbatim>\<open>A4/src/compsys_helpers.c\<close>): \<^verbatim>\<open>compsys_helper_open_clientfd\<close> and
  \<^verbatim>\<open>compsys_helper_open_listenfd\<close>, which walk through the addresses of a host. The calls of the
  socket library are parameters on a state \<open>'s\<close> of the system; descriptors and results are
  integers. What the manual pages promise of them is \<open>sockets_ok\<close>, with the set of open
  descriptors as \<open>fds\<close>.

  The lemmas show that a call opens the one descriptor it returns and leaves no other open.
\<close>

section \<open>Operations\<close>

text \<open>\<open>None\<close> for the host is the null pointer; \<open>None\<close> as a result is an error of \<^verbatim>\<open>getaddrinfo\<close>.\<close>

record ('a, 's) sockets =
  getaddrinfo :: "string option \<Rightarrow> string \<Rightarrow> 'a list option"
  new_socket :: "'a \<Rightarrow> 's \<Rightarrow> int \<times> 's"
  reuse_address :: "int \<Rightarrow> 's \<Rightarrow> 's"
  connect_to :: "int \<Rightarrow> 'a \<Rightarrow> 's \<Rightarrow> int \<times> 's"
  bind_to :: "int \<Rightarrow> 'a \<Rightarrow> 's \<Rightarrow> int \<times> 's"
  listen_on :: "int \<Rightarrow> 's \<Rightarrow> int \<times> 's"
  close_fd :: "int \<Rightarrow> 's \<Rightarrow> int \<times> 's"

datatype attempt = Opened int | Exhausted | Close_failed

primrec connect_loop :: "('a, 's) sockets \<Rightarrow> 'a list \<Rightarrow> 's \<Rightarrow> attempt \<times> 's" where
  "connect_loop n [] s = (Exhausted, s)"
| "connect_loop n (p # ps) s =
     (case new_socket n p s of (clientfd, s) \<Rightarrow>
        if clientfd < 0 then connect_loop n ps s
        else case connect_to n clientfd p s of (r, s) \<Rightarrow>
          if r \<noteq> - 1 then (Opened clientfd, s)
          else case close_fd n clientfd s of (c, s) \<Rightarrow>
            if c < 0 then (Close_failed, s) else connect_loop n ps s)"

definition open_clientfd :: "('a, 's) sockets \<Rightarrow> string \<Rightarrow> string \<Rightarrow> 's \<Rightarrow> int \<times> 's" where
  "open_clientfd n hostname port s =
     (case getaddrinfo n (Some hostname) port of
        None \<Rightarrow> (- 2, s)
      | Some listp \<Rightarrow>
          (case connect_loop n listp s of
             (Opened clientfd, s) \<Rightarrow> (clientfd, s)
           | (_, s) \<Rightarrow> (- 1, s)))"

primrec bind_loop :: "('a, 's) sockets \<Rightarrow> 'a list \<Rightarrow> 's \<Rightarrow> attempt \<times> 's" where
  "bind_loop n [] s = (Exhausted, s)"
| "bind_loop n (p # ps) s =
     (case new_socket n p s of (listenfd, s) \<Rightarrow>
        if listenfd < 0 then bind_loop n ps s
        else case bind_to n listenfd p (reuse_address n listenfd s) of (r, s) \<Rightarrow>
          if r = 0 then (Opened listenfd, s)
          else case close_fd n listenfd s of (c, s) \<Rightarrow>
            if c < 0 then (Close_failed, s) else bind_loop n ps s)"

definition open_listenfd :: "('a, 's) sockets \<Rightarrow> string \<Rightarrow> 's \<Rightarrow> int \<times> 's" where
  "open_listenfd n port s =
     (case getaddrinfo n None port of
        None \<Rightarrow> (- 2, s)
      | Some listp \<Rightarrow>
          (case bind_loop n listp s of
             (Opened listenfd, s) \<Rightarrow>
               (case listen_on n listenfd s of (r, s) \<Rightarrow>
                  if r < 0 then (- 1, snd (close_fd n listenfd s)) else (listenfd, s))
           | (_, s) \<Rightarrow> (- 1, s)))"

section \<open>Descriptors\<close>

text \<open>
  A new socket has a descriptor that was not open; the other calls neither open nor close
  any; a close that succeeds closes its descriptor.
\<close>

definition sockets_ok :: "('a, 's) sockets \<Rightarrow> ('s \<Rightarrow> int set) \<Rightarrow> bool" where
  "sockets_ok n fds \<longleftrightarrow>
     (\<forall>p s fd s'. new_socket n p s = (fd, s') \<longrightarrow>
        (if fd < 0 then fds s' = fds s else fd \<notin> fds s \<and> fds s' = insert fd (fds s))) \<and>
     (\<forall>fd p s. fds (snd (connect_to n fd p s)) = fds s \<and> fds (snd (bind_to n fd p s)) = fds s \<and>
        fds (snd (listen_on n fd s)) = fds s \<and> fds (reuse_address n fd s) = fds s) \<and>
     (\<forall>fd s s' c. close_fd n fd s = (c, s') \<and> 0 \<le> c \<longrightarrow> fds s' = fds s - {fd})"

definition closes :: "('a, 's) sockets \<Rightarrow> bool" where
  "closes n \<longleftrightarrow> (\<forall>fd s. 0 \<le> fst (close_fd n fd s))"

lemma sockets_okD:
  assumes "sockets_ok n fds"
  shows "new_socket n p s = (fd, s') \<Longrightarrow> fd < 0 \<Longrightarrow> fds s' = fds s"
    and "new_socket n p s = (fd, s') \<Longrightarrow> \<not> fd < 0 \<Longrightarrow> fd \<notin> fds s \<and> fds s' = insert fd (fds s)"
    and "connect_to n fd p s = (r, s') \<Longrightarrow> fds s' = fds s"
    and "bind_to n fd p (reuse_address n fd s) = (r, s') \<Longrightarrow> fds s' = fds s"
    and "listen_on n fd s = (r, s') \<Longrightarrow> fds s' = fds s"
    and "close_fd n fd s = (c, s') \<Longrightarrow> \<not> c < 0 \<Longrightarrow> fds s' = fds s - {fd}"
  using assms unfolding sockets_ok_def by (metis snd_conv not_less)+

lemma connect_loop_fds:
  assumes ok: "sockets_ok n fds" and "connect_loop n ps s = (a, s')"
  shows "(case a of
      Opened fd \<Rightarrow> 0 \<le> fd \<and> fd \<notin> fds s \<and> fds s' = insert fd (fds s) \<and>
        (\<exists>p t r. p \<in> set ps \<and> connect_to n fd p t = (r, s') \<and> r \<noteq> - 1)
    | Exhausted \<Rightarrow> fds s' = fds s
    | Close_failed \<Rightarrow> \<not> closes n)"
  using assms(2)
proof (induction ps arbitrary: s)
  case (Cons p ps)
  note ok = sockets_okD [OF ok]
  obtain fd s1 where s1: "new_socket n p s = (fd, s1)" by fastforce
  show ?case
  proof (cases "fd < 0")
    case True
    then have "connect_loop n ps s1 = (a, s')" using Cons.prems s1 by simp
    then show ?thesis using Cons.IH [of s1] ok(1) [OF s1 True] by (auto split: attempt.splits)
  next
    case False
    obtain r s2 where s2: "connect_to n fd p s1 = (r, s2)" by fastforce
    obtain c s3 where s3: "close_fd n fd s2 = (c, s3)" by fastforce
    note f = ok(2) [OF s1 False] ok(3) [OF s2]
    consider "r \<noteq> - 1" | "r = - 1" "c < 0" | "r = - 1" "\<not> c < 0" by blast
    then show ?thesis
    proof cases
      case 1
      then have "a = Opened fd" "s' = s2" using Cons.prems s1 s2 False by simp_all
      then show ?thesis using f 1 s2 False by auto
    next
      case 2
      then have "a = Close_failed" using Cons.prems s1 s2 s3 False by simp
      moreover have "fst (close_fd n fd s2) < 0" using 2 s3 by simp
      ultimately show ?thesis by (force simp: closes_def not_le)
    next
      case 3
      then have "connect_loop n ps s3 = (a, s')" using Cons.prems s1 s2 s3 False by simp
      moreover have "fds s3 = fds s" using ok(6) [OF s3 3(2)] f by auto
      ultimately show ?thesis using Cons.IH [of s3] by (auto split: attempt.splits)
    qed
  qed
qed simp

lemma bind_loop_fds:
  assumes ok: "sockets_ok n fds" and "bind_loop n ps s = (a, s')"
  shows "(case a of
      Opened fd \<Rightarrow> 0 \<le> fd \<and> fd \<notin> fds s \<and> fds s' = insert fd (fds s) \<and>
        (\<exists>p t. p \<in> set ps \<and> bind_to n fd p t = (0, s'))
    | Exhausted \<Rightarrow> fds s' = fds s
    | Close_failed \<Rightarrow> \<not> closes n)"
  using assms(2)
proof (induction ps arbitrary: s)
  case (Cons p ps)
  note ok = sockets_okD [OF ok]
  obtain fd s1 where s1: "new_socket n p s = (fd, s1)" by fastforce
  show ?case
  proof (cases "fd < 0")
    case True
    then have "bind_loop n ps s1 = (a, s')" using Cons.prems s1 by simp
    then show ?thesis using Cons.IH [of s1] ok(1) [OF s1 True] by (auto split: attempt.splits)
  next
    case False
    obtain r s2 where s2: "bind_to n fd p (reuse_address n fd s1) = (r, s2)" by fastforce
    obtain c s3 where s3: "close_fd n fd s2 = (c, s3)" by fastforce
    note f = ok(2) [OF s1 False] ok(4) [OF s2]
    consider "r = 0" | "r \<noteq> 0" "c < 0" | "r \<noteq> 0" "\<not> c < 0" by blast
    then show ?thesis
    proof cases
      case 1
      then have "a = Opened fd" "s' = s2" using Cons.prems s1 s2 False by simp_all
      then show ?thesis using f 1 s2 False by auto
    next
      case 2
      then have "a = Close_failed" using Cons.prems s1 s2 s3 False by simp
      moreover have "fst (close_fd n fd s2) < 0" using 2 s3 by simp
      ultimately show ?thesis by (force simp: closes_def not_le)
    next
      case 3
      then have "bind_loop n ps s3 = (a, s')" using Cons.prems s1 s2 s3 False by simp
      moreover have "fds s3 = fds s" using ok(6) [OF s3 3(2)] f by auto
      ultimately show ?thesis using Cons.IH [of s3] by (auto split: attempt.splits)
    qed
  qed
qed simp

section \<open>Properties\<close>

text \<open>
  C34: unless a close fails, \<^verbatim>\<open>open_clientfd\<close> and \<^verbatim>\<open>open_listenfd\<close> leave open at most the
  descriptor they return, which was not open before and is connected to one of the
  addresses, or listening; with a negative result no descriptor has been opened.
\<close>

theorem sockets_leak_nothing:
  assumes "sockets_ok n fds" and "closes n"
  shows "(case open_clientfd n hostname port s of (r, s') \<Rightarrow>
      if 0 \<le> r then r \<notin> fds s \<and> fds s' = insert r (fds s) \<and>
        (\<exists>listp p t c. getaddrinfo n (Some hostname) port = Some listp \<and> p \<in> set listp \<and>
          connect_to n r p t = (c, s') \<and> c \<noteq> - 1)
      else fds s' = fds s) \<and>
    (case open_listenfd n port s of (r, s') \<Rightarrow>
      if 0 \<le> r then r \<notin> fds s \<and> fds s' = insert r (fds s) \<and> (\<exists>t c. listen_on n r t = (c, s') \<and> 0 \<le> c)
      else fds s' = fds s)"
proof (rule conjI)
  show "(case open_clientfd n hostname port s of (r, s') \<Rightarrow>
      if 0 \<le> r then r \<notin> fds s \<and> fds s' = insert r (fds s) \<and>
        (\<exists>listp p t c. getaddrinfo n (Some hostname) port = Some listp \<and> p \<in> set listp \<and>
          connect_to n r p t = (c, s') \<and> c \<noteq> - 1)
      else fds s' = fds s)"
  proof (cases "getaddrinfo n (Some hostname) port")
    case (Some listp)
    obtain a s1 where a: "connect_loop n listp s = (a, s1)" by fastforce
    show ?thesis using connect_loop_fds [OF assms(1) a] a assms(2) Some
      by (cases a) (auto simp: open_clientfd_def)
  qed (simp add: open_clientfd_def)
next
  show "case open_listenfd n port s of (r, s') \<Rightarrow>
      if 0 \<le> r then r \<notin> fds s \<and> fds s' = insert r (fds s) \<and> (\<exists>t c. listen_on n r t = (c, s') \<and> 0 \<le> c)
      else fds s' = fds s"
  proof (cases "getaddrinfo n None port")
    case (Some listp)
    obtain a s1 where a: "bind_loop n listp s = (a, s1)" by fastforce
    show ?thesis
    proof (cases a)
      case (Opened fd)
      obtain r s2 where r: "listen_on n fd s1 = (r, s2)" by fastforce
      obtain c s3 where c: "close_fd n fd s2 = (c, s3)" by fastforce
      have "\<not> c < 0" using assms(2) c by (metis closes_def fst_conv not_less)
      then have "fds s3 = fds s2 - {fd}" using sockets_okD(6) [OF assms(1) c] by blast
      moreover have "fds s2 = fds s1" using sockets_okD(5) [OF assms(1) r] .
      ultimately show ?thesis
        using bind_loop_fds [OF assms(1) a] a r c Opened Some
        by (cases "r < 0") (auto simp: open_listenfd_def not_less intro!: exI [of _ s1])
    qed (use bind_loop_fds [OF assms(1) a] a assms(2) Some in \<open>auto simp: open_listenfd_def\<close>)
  qed (simp add: open_listenfd_def)
qed

text \<open>Three addresses: no socket for the first, no connection to the second.\<close>

definition three_addresses :: "(nat, int list) sockets" where
  "three_addresses =
     \<lparr>getaddrinfo = (\<lambda>host port. Some [0, 1, 2]),
      new_socket = (\<lambda>p s. if p = 0 then (- 1, s) else (fold max s 0 + 1, (fold max s 0 + 1) # s)),
      reuse_address = (\<lambda>fd s. s),
      connect_to = (\<lambda>fd p s. (if p = 2 then 0 else - 1, s)),
      bind_to = (\<lambda>fd p s. (if p = 2 then 0 else - 1, s)),
      listen_on = (\<lambda>fd s. (0, s)),
      close_fd = (\<lambda>fd s. (0, removeAll fd s))\<rparr>"

lemma fold_max_above: "x \<in> set s \<Longrightarrow> x \<le> fold max s (a :: int)" "a \<le> fold max s a"
proof (induction s arbitrary: a)
  case (Cons y s)
  {
    case 1
    then show ?case using Cons.IH(2) [of "max y a"] Cons.IH(1) [of "max y a"] by auto
  next
    case 2
    then show ?case using Cons.IH(2) [of "max y a"] by simp
  }
qed simp_all

lemma three_addresses_ok: "sockets_ok three_addresses set" "closes three_addresses"
proof -
  have "fold max s 0 + 1 \<notin> set s" "\<not> fold max s 0 + 1 < (0 :: int)" for s
    using fold_max_above(1) [of "fold max s 0 + 1" s 0] fold_max_above(2) [of 0 s] by auto
  then show "sockets_ok three_addresses set" by (auto simp: sockets_ok_def three_addresses_def)
  show "closes three_addresses" by (simp add: closes_def three_addresses_def)
qed

theorem sockets_leak_nothing_witness:
  "(case open_clientfd three_addresses ''localhost'' ''5000'' [3, 1] of (r, s') \<Rightarrow>
      r = 4 \<and> r \<notin> set [3, 1] \<and> set s' = insert r (set [3, 1]))"
proof -
  have r: "open_clientfd three_addresses ''localhost'' ''5000'' [3, 1] = (4, [4, 3, 1])"
    by (simp add: open_clientfd_def three_addresses_def)
  show ?thesis
    using sockets_leak_nothing [OF three_addresses_ok, where hostname = "''localhost''" and port = "''5000''" and s = "[3, 1]",
        THEN conjunct1] unfolding r by simp
qed

end
