(* ===== verification/File_Type.thy ===== *)
theory File_Type
  imports Prelude
begin

text \<open>
  Telling the type of a file from its bytes, \<^verbatim>\<open>A0/file.c\<close>. A file is the list of its bytes;
  opening it and \<^verbatim>\<open>strerror\<close> are parameters. \<open>scan\<close> is the loop over the buffer, with the
  number of continuation bytes that are still missing as its state.

  The lemmas show that UTF-8 text is recognised as such or as ASCII, which files are
  called ASCII, and where the loop decides too early.
\<close>

section \<open>The program\<close>

datatype FileTypes = empty | ASCII | ISO | UTF | data

text \<open>One iteration per byte; the tests are made in this order.\<close>

fun scan :: "nat \<Rightarrow> byte list \<Rightarrow> FileTypes" where
  "scan byteMissing [] = (if byteMissing \<noteq> 0 then ISO else ASCII)"
| "scan byteMissing (b # buffer) =
     (if b = 0x0 then data
      else if 0x80 \<le> b \<and> b \<le> 0x9F then UTF
      else if byteMissing = 0 \<and> 0x80 \<le> b \<and> b \<le> 0xBF then ISO
      else if 0xC0 \<le> b \<and> b \<le> 0xDF then (if byteMissing \<noteq> 0 then ISO else scan 1 buffer)
      else if 0xE0 \<le> b \<and> b \<le> 0xEF then (if byteMissing \<noteq> 0 then ISO else scan 2 buffer)
      else if 0xF0 \<le> b \<and> b \<le> 0xF7 then (if byteMissing \<noteq> 0 then ISO else scan 3 buffer)
      else if byteMissing \<noteq> 0 \<and> 0xA0 \<le> b \<and> b \<le> 0xBF
      then (if byteMissing - 1 = 0 then UTF else scan (byteMissing - 1) buffer)
      else scan byteMissing buffer)"

text \<open>
  \<^verbatim>\<open>size\<close> is an \<^verbatim>\<open>int\<close>: the length of the file is converted to it. With a negative size the
  buffer cannot be allocated and \<^verbatim>\<open>fread\<close> writes through the null pointer: \<open>None\<close>.
\<close>

definition CheckType :: "byte list \<Rightarrow> FileTypes option" where
  "CheckType file =
     (let size = word_of_nat (length file) :: cint
      in if size = 0 then Some empty
         else if sint size < 0 then None
         else Some (scan 0 (take (nat (sint size)) file)))"

definition print_error :: "('e \<Rightarrow> string) \<Rightarrow> string \<Rightarrow> 'e \<Rightarrow> string" where
  "print_error strerror path errnum = path @ '': cannot determine ('' @ strerror errnum @ '')'' @ [CHR 0x0A]"

definition PrintSuccess :: "string \<Rightarrow> FileTypes \<Rightarrow> string" where
  "PrintSuccess str fileTypes =
     (let fileType = (case fileTypes of
          empty \<Rightarrow> ''empty'' | ASCII \<Rightarrow> ''ASCII text'' | UTF \<Rightarrow> ''UTF-8 text''
        | ISO \<Rightarrow> ''ISO-8859 text'' | _ \<Rightarrow> ''data'')
      in str @ '': '' @ fileType @ [CHR 0x0A])"

text \<open>
  The exit status and the text on the standard output; \<^verbatim>\<open>argv\<close> has the name of the program
  as its first element, and falling off the end of \<^verbatim>\<open>main\<close> returns 0.
\<close>

definition main :: "(string \<Rightarrow> 'e + byte list) \<Rightarrow> ('e \<Rightarrow> string) \<Rightarrow> string list \<Rightarrow> (int \<times> string) option" where
  "main fopen strerror argv =
     (if length argv \<noteq> 2 then Some (1, [])
      else case fopen (argv ! 1) of
        Inr file \<Rightarrow> map_option (\<lambda>t. (0, PrintSuccess (argv ! 1) t)) (CheckType file)
      | Inl errno \<Rightarrow> Some (0, print_error strerror (argv ! 1) errno))"

section \<open>Files of moderate size\<close>

lemma CheckType_scan:
  assumes "length file < 2 ^ 31"
  shows "CheckType file = Some (if file = [] then empty else scan 0 file)"
proof -
  let ?n = "word_of_nat (length file) :: cint"
  have n: "unat ?n = length file"
    using assms by (simp add: unat_of_nat)
  moreover have "sint ?n = int (length file)"
    using assms by (simp add: sint_of_nat)
  moreover have "?n = 0 \<longleftrightarrow> file = []"
    using n by (metis length_0_conv unat_eq_zero)
  ultimately show ?thesis by (simp add: CheckType_def Let_def)
qed

section \<open>UTF-8\<close>

text \<open>The encoding of a code point, and the bytes that continue one.\<close>

definition octet :: "nat \<Rightarrow> byte" where "octet n = word_of_nat n"

definition utf8 :: "nat \<Rightarrow> byte list" where
  "utf8 c = map octet
     (if c < 0x80 then [c]
      else if c < 0x800 then [0xC0 + c div 64, 0x80 + c mod 64]
      else if c < 0x10000 then [0xE0 + c div 4096, 0x80 + c div 64 mod 64, 0x80 + c mod 64]
      else [0xF0 + c div 262144, 0x80 + c div 4096 mod 64, 0x80 + c div 64 mod 64, 0x80 + c mod 64])"

definition code_point :: "nat \<Rightarrow> bool" where
  "code_point c \<longleftrightarrow> 0 < c \<and> c < 0x110000"

definition continuation :: "byte \<Rightarrow> bool" where
  "continuation b \<longleftrightarrow> 0x80 \<le> b \<and> b \<le> 0xBF"

lemma octet_bounds:
  assumes "n < 256"
  shows "0x80 \<le> octet n \<longleftrightarrow> 0x80 \<le> n" "octet n \<le> 0x9F \<longleftrightarrow> n \<le> 0x9F"
    "0xA0 \<le> octet n \<longleftrightarrow> 0xA0 \<le> n" "octet n \<le> 0xBF \<longleftrightarrow> n \<le> 0xBF"
    "0xC0 \<le> octet n \<longleftrightarrow> 0xC0 \<le> n" "octet n \<le> 0xDF \<longleftrightarrow> n \<le> 0xDF"
    "0xE0 \<le> octet n \<longleftrightarrow> 0xE0 \<le> n" "octet n \<le> 0xEF \<longleftrightarrow> n \<le> 0xEF"
    "0xF0 \<le> octet n \<longleftrightarrow> 0xF0 \<le> n" "octet n \<le> 0xF7 \<longleftrightarrow> n \<le> 0xF7"
    "octet n = 0 \<longleftrightarrow> n = 0"
  using assms by (simp_all add: octet_def word_le_nat_alt unat_of_nat word_unat_eq_iff)

lemma scan_continuation:
  "bs \<noteq> [] \<Longrightarrow> \<forall>b \<in> set bs. continuation b \<Longrightarrow> scan (length bs) (bs @ rest) = UTF"
proof (induction bs)
  case (Cons b bs)
  then have b: "0x80 \<le> b" "b \<le> 0xBF" by (simp_all add: continuation_def)
  then have "b \<noteq> 0" "\<not> 0xC0 \<le> b" "\<not> 0xE0 \<le> b" "\<not> 0xF0 \<le> b" "\<not> b \<le> 0x9F \<Longrightarrow> 0xA0 \<le> b"
    by (auto simp: word_le_nat_alt word_unat_eq_iff)
  then show ?case using Cons b by auto
qed simp

lemma scan_head:
  assumes "n < 256"
  shows "n \<noteq> 0 \<Longrightarrow> n < 0x80 \<Longrightarrow> scan m (octet n # bs) = scan m bs"
    "0xC0 \<le> n \<Longrightarrow> n \<le> 0xDF \<Longrightarrow> scan 0 (octet n # bs) = scan 1 bs"
    "0xE0 \<le> n \<Longrightarrow> n \<le> 0xEF \<Longrightarrow> scan 0 (octet n # bs) = scan 2 bs"
    "0xF0 \<le> n \<Longrightarrow> n \<le> 0xF7 \<Longrightarrow> scan 0 (octet n # bs) = scan 3 bs"
  using assms by (simp_all add: octet_bounds)

lemma continuation_octet: "continuation (octet (0x80 + n mod 64))"
proof -
  have "n mod 64 < 64" by simp
  then have "0x80 + n mod 64 < 256" "0x80 + n mod 64 \<le> 0xBF" by linarith+
  then show ?thesis by (simp add: continuation_def octet_bounds)
qed

text \<open>Any bytes may follow: the scan does not look at them.\<close>

lemma scan_utf8:
  assumes "code_point c"
  shows "scan 0 (utf8 c @ rest) = (if c < 0x80 then scan 0 rest else UTF)"
proof -
  let ?c0 = "octet (0x80 + c mod 64)" and ?c1 = "octet (0x80 + c div 64 mod 64)"
    and ?c2 = "octet (0x80 + c div 4096 mod 64)"
  have c: "0 < c" "c < 0x110000" using assms by (simp_all add: code_point_def)
  have tails: "scan 1 (?c0 # rest) = UTF" "scan 2 (?c1 # ?c0 # rest) = UTF" "scan 3 (?c2 # ?c1 # ?c0 # rest) = UTF"
    using scan_continuation [of "[?c0]" rest] scan_continuation [of "[?c1, ?c0]" rest]
      scan_continuation [of "[?c2, ?c1, ?c0]" rest]
    by (simp_all add: continuation_octet numeral_2_eq_2 numeral_3_eq_3 del: scan.simps)
  consider (1) "c < 0x80" | (2) "0x80 \<le> c" "c < 0x800" | (3) "0x800 \<le> c" "c < 0x10000" | (4) "0x10000 \<le> c"
    by linarith
  then show ?thesis
  proof cases
    case 1
    then show ?thesis using c scan_head(1) [of c 0 rest] by (simp add: utf8_def del: scan.simps)
  next
    case 2
    then have "c div 64 < 32" by linarith
    then show ?thesis using 2 tails(1) scan_head(2) [of "0xC0 + c div 64"]
      by (simp add: utf8_def del: scan.simps)
  next
    case 3
    then have "c div 4096 < 16" by linarith
    then show ?thesis using 3 tails(2) scan_head(3) [of "0xE0 + c div 4096"]
      by (simp add: utf8_def del: scan.simps)
  next
    case 4
    then have "c div 262144 < 5" using c by linarith
    then show ?thesis using 4 tails(3) scan_head(4) [of "0xF0 + c div 262144"]
      by (simp add: utf8_def del: scan.simps)
  qed
qed

lemma scan_text:
  "\<forall>c \<in> set cs. code_point c \<Longrightarrow>
   scan 0 (concat (map utf8 cs) @ rest) = (if \<forall>c \<in> set cs. c < 0x80 then scan 0 rest else UTF)"
  by (induction cs) (auto simp: scan_utf8 simp del: scan.simps)

section \<open>What is called ASCII\<close>

text \<open>The bytes that leave the loop as it was.\<close>

definition passed_over :: "byte \<Rightarrow> bool" where
  "passed_over b \<longleftrightarrow> 0 < b \<and> b < 0x80 \<or> 0xF8 \<le> b"

lemma scan_searching: "m \<noteq> 0 \<Longrightarrow> scan m bs \<noteq> ASCII"
  by (induction m bs rule: scan.induct) auto

lemma scan_passed_over: "passed_over b \<Longrightarrow> scan m (b # bs) = scan m bs"
proof -
  assume "passed_over b"
  then have "b \<noteq> 0" "0x80 \<le> b \<Longrightarrow> 0xF8 \<le> b" by (auto simp: passed_over_def)
  then show ?thesis by (auto simp: word_le_nat_alt)
qed

lemma scan_not_passed_over: "\<not> passed_over b \<Longrightarrow> scan 0 (b # bs) \<noteq> ASCII"
proof -
  assume "\<not> passed_over b"
  then have "b = 0 \<or> 0x80 \<le> b \<and> b \<le> 0xF7" by (auto simp: passed_over_def word_le_nat_alt word_less_nat_alt word_unat_eq_iff)
  then show ?thesis using scan_searching [of 1] scan_searching [of 2] scan_searching [of 3]
    by (auto simp: word_le_nat_alt)
qed

lemma scan_ASCII: "scan 0 bs = ASCII \<longleftrightarrow> (\<forall>b \<in> set bs. passed_over b)"
proof (induction bs)
  case (Cons b bs)
  then show ?case
    using scan_passed_over [of b 0 bs] scan_not_passed_over [of b bs] by (cases "passed_over b") (auto simp del: scan.simps)
qed simp

section \<open>Properties\<close>

text \<open>
  C30: UTF-8 text is recognised: for a file that starts with the encodings of code points
  other than 0, one of them not ASCII, the program prints \<^verbatim>\<open>UTF-8 text\<close>, whatever bytes
  follow (a NUL byte or malformed text is then not seen). Text of ASCII characters only is
  called ASCII, and an empty file empty. (\<^verbatim>\<open>test.sh\<close> compares with \<^verbatim>\<open>file(1)\<close>, which prints
  \<^verbatim>\<open>Unicode text, UTF-8 text\<close> for the files \<^verbatim>\<open>utf_1\<close> to \<^verbatim>\<open>utf_4\<close> of the tests: the name is that of
  the program.)
\<close>

theorem utf8_text_recognised:
  assumes "\<forall>c \<in> set cs. code_point c" and "length (concat (map utf8 cs) @ rest) < 2 ^ 31"
    and "fopen path = Inr (concat (map utf8 cs) @ rest)"
  shows "if \<exists>c \<in> set cs. 0x80 \<le> c
    then main fopen strerror [prog, path] = Some (0, path @ '': UTF-8 text'' @ [CHR 0x0A])
    else CheckType (concat (map utf8 cs)) = Some (if cs = [] then empty else ASCII)"
proof -
  have "scan 0 (concat (map utf8 cs) @ r) = (if \<forall>c \<in> set cs. c < 0x80 then scan 0 r else UTF)" for r
    using assms(1) by (rule scan_text)
  from this [of "[]"] this [of rest]
  have "scan 0 (concat (map utf8 cs)) = (if \<forall>c \<in> set cs. c < 0x80 then ASCII else UTF)"
    "scan 0 (concat (map utf8 cs) @ rest) = (if \<forall>c \<in> set cs. c < 0x80 then scan 0 rest else UTF)"
    by (simp_all del: scan.simps(2) cong: if_cong)
  moreover have "concat (map utf8 cs) = [] \<longleftrightarrow> cs = []" by (cases cs) (simp_all add: utf8_def)
  ultimately show ?thesis
    using assms(2,3)
    by (auto simp: main_def CheckType_scan PrintSuccess_def not_less not_le simp del: scan.simps)
qed

theorem utf8_text_recognised_witness:
  "if \<exists>c \<in> set [0x48, 0x20AC :: nat]. 0x80 \<le> c
    then main (\<lambda>_. Inr (concat (map utf8 [0x48, 0x20AC]) @ [0, 0xFF]) :: nat + byte list) (\<lambda>_. []) [''file'', ''f'']
      = Some (0, ''f'' @ '': UTF-8 text'' @ [CHR 0x0A])
    else CheckType (concat (map utf8 [0x48, 0x20AC])) = Some (if [0x48, 0x20AC :: nat] = [] then empty else ASCII)"
  by (rule utf8_text_recognised [where rest = "[0, 0xFF]"]) (simp_all add: code_point_def utf8_def)

text \<open>
  A file is called ASCII text exactly if each of its bytes is an ASCII character other
  than NUL or one of 0xF8 to 0xFF, which occur in no ASCII (and no UTF-8) text: the loop has
  no case for them.
\<close>

theorem ascii_answer_exact:
  assumes "file \<noteq> []" and "length file < 2 ^ 31"
  shows "CheckType file = Some ASCII \<longleftrightarrow> (\<forall>b \<in> set file. 0 < b \<and> b < 0x80 \<or> 0xF8 \<le> b)"
  using assms by (simp add: CheckType_scan scan_ASCII passed_over_def)

theorem ascii_answer_exact_witness:
  "CheckType [0x41, 0xFF] = Some ASCII \<longleftrightarrow> (\<forall>b \<in> set [0x41, 0xFF]. 0 < b \<and> b < 0x80 \<or> 0xF8 \<le> (b :: byte))"
  by (rule ascii_answer_exact) simp_all

text \<open>
  The length of the file is kept in an \<^verbatim>\<open>int\<close>: a file of a multiple of four gibibytes is
  called empty, and one between two and four gibibytes makes the program read into a null
  pointer.
\<close>

theorem file_size_wraps:
  "(length file = 2 ^ 32 * k \<longrightarrow> CheckType file = Some empty) \<and>
   (2 ^ 31 \<le> length file \<and> length file < 2 ^ 32 \<longrightarrow> CheckType file = None)"
proof (intro conjI impI)
  assume "length file = 2 ^ 32 * k"
  then have "unat (word_of_nat (length file) :: cint) = 0" by (simp only: unat_of_nat) simp
  then have "(word_of_nat (length file) :: cint) = 0" by (simp only: unat_eq_zero)
  then show "CheckType file = Some empty" by (simp add: CheckType_def)
next
  assume l: "2 ^ 31 \<le> length file \<and> length file < 2 ^ 32"
  let ?n = "word_of_nat (length file) :: cint"
  have u: "unat ?n = length file" using l by (simp add: unat_of_nat)
  then have "?n \<noteq> 0" using l by auto
  moreover have "sint ?n < 0"
  proof -
    have "length file div 2 ^ 31 = 1" using l by (intro div_nat_eqI) simp_all
    then have "bit (length file) 31" by (simp only: bit_iff_odd) simp
    then have "bit ?n (LENGTH(32) - Suc 0)" by (simp add: bit_simps)
    then show ?thesis by (simp only: bit_last_iff)
  qed
  ultimately show "CheckType file = None" by (simp add: CheckType_def Let_def)
qed

theorem file_size_wraps_witness:
  "CheckType (replicate (2 ^ 32) 0x41) = Some empty \<and> CheckType (replicate (2 ^ 31) 0x41) = None"
  using file_size_wraps [of "replicate (2 ^ 32) 0x41" 1] file_size_wraps [of "replicate (2 ^ 31) 0x41" 0]
  by simp

end
