(* ===== verification/Spec2Isabelle.thy ===== *)
theory Spec2Isabelle
  imports Sim_Main Radix_Heap Tiny_Programs Histogram_Threads Place_Programs
    Sha256_Builds Peer_Main Networking_Main Sockets File_Type
begin

text \<open>
  The repository holds seven independent C programs (\<^verbatim>\<open>A0\<close> to \<^verbatim>\<open>A6\<close>). This development models
  the parts with logic of their own; paths are relative to \<^verbatim>\<open>src/\<close>.

  \<^bold>\<open>Conventions.\<close> A C \<^verbatim>\<open>int\<close> or \<^verbatim>\<open>unsigned\<close> is a \<open>32 word\<close> (\<open>cint\<close>), an \<^verbatim>\<open>int64_t\<close> or \<^verbatim>\<open>uint64_t\<close> a
  \<open>64 word\<close>, a byte an \<open>8 word\<close>; signed readings go through \<open>sint\<close>, so that additions and
  casts wrap around as on the compiled machine. Sizes and indices that are never stored
  are natural numbers, with the casts of the source written out where they matter. A
  call that ends the process, runs into undefined behaviour or does not return is a
  value: \<open>Inl\<close> of a reason (\<open>stop\<close> in the simulator) or \<open>None\<close>. \<^verbatim>\<open>malloc\<close> and \<^verbatim>\<open>calloc\<close> are taken
  to succeed, with blocks of the size that was asked for and not more; what is printed is modelled where it is the result of the program
  (\<open>File_Type\<close>, \<open>Tiny_Programs\<close>). System calls, \<^verbatim>\<open>atof\<close>, \<^verbatim>\<open>qsort\<close> and the arithmetic of \<^verbatim>\<open>double\<close> are
  parameters; what is assumed of them are the locales \<open>byte_source\<close>, \<open>reliable_source\<close> and
  \<open>byte_sink\<close> of \<open>Robust_IO\<close> and \<open>sorter\<close> of \<open>Coord_Query\<close>: \<^verbatim>\<open>qsort\<close> sorts if the comparison is
  consistent on the array, as the C standard demands, and is undefined (\<open>None\<close>) otherwise.

  \<^bold>\<open>Telling file types\<close> (\<^verbatim>\<open>A0\<close>). \<open>File_Type\<close>: \<^verbatim>\<open>file.c\<close>, the scan of the bytes as a state machine and
  the line the program prints.

  \<^bold>\<open>The RISC-V simulator\<close> (\<^verbatim>\<open>A5/src\<close>). \<^verbatim>\<open>main\<close> loads a disassembly listing into a memory and a
  table of instruction texts, copies the program's arguments and calls \<^verbatim>\<open>simulate\<close>.
  \<open>Sim_Memory\<close>: \<^verbatim>\<open>memory.c\<close>, the two-level page table, refined to a flat little-endian byte
  memory. \<open>Sim_Assembly\<close>: \<^verbatim>\<open>assembly.c\<close>, the hash table with linear probing, refined to a
  map; addresses below \<open>ADDR_LIMIT\<close> = 5 * 2^28 - 1 keep the growth of the table below 2^31
  entries, so that all its loops end. \<open>Sim_Decode\<close>, \<open>Sim_Exec\<close>: \<^verbatim>\<open>simulate.c\<close>, field
  extraction and the switch, one definition per opcode; \<open>simulate\<close> is the endless loop and
  \<open>run n\<close> its first \<open>n\<close> iterations, which agree (\<open>simulate_adequate\<close>), so no fuel bound is
  needed. \<open>Sim_Spec\<close>: an RV32IM machine and the simulation of it by the code on the
  instructions the code implements as the manual says, the deviations of the others.
  \<open>Sim_Load\<close>: \<^verbatim>\<open>read_exec.c\<close> with its \<^verbatim>\<open>sscanf\<close> formats and \<^verbatim>\<open>pass_args_to_program\<close> of \<^verbatim>\<open>main.c\<close>,
  for listings whose lines fit into the buffers (\<open>item_ok\<close>), which those of the repository do not;
  the argument block has room for \<open>BLOCK\<close> = 2^24 bytes before its addresses wrap. \<open>Sim_Main\<close>:
  \<^verbatim>\<open>main\<close> of \<^verbatim>\<open>main.c\<close>, the parts put together.

  \<^bold>\<open>The radix sort for that machine\<close> (\<^verbatim>\<open>A6\<close>). \<open>Radix_Tree\<close>: \<^verbatim>\<open>radix.c\<close>, the tree as a datatype
  with the fields of \<^verbatim>\<open>struct node\<close>, its operations and the main loop, against a bag of
  numbers (locale \<open>number_bag\<close>). \<open>Tiny_Lib\<close>: the number conversions of \<^verbatim>\<open>lib.c\<close>. \<open>Block_Allocator\<close>: its
  \<^verbatim>\<open>allocate\<close> and \<^verbatim>\<open>release\<close> on a memory of words, with an invariant on the free lists and the
  blocks a program holds, and the version of \<^verbatim>\<open>A5/resources/tiny_riscv\<close>. \<open>Radix_Heap\<close>: \<^verbatim>\<open>radix.c\<close>
  again, from its arguments on, with the nodes as blocks of that allocator and pointers to
  pointers as places; a relation between the words in memory and the datatype carries the
  theorems of \<open>Radix_Tree\<close> over. Its bound of 8 million numbers keeps the heap, which starts at
  2^25, below the end of the address space at 240 bytes per node. \<open>Tiny_Programs\<close>: the small
  programs of \<^verbatim>\<open>A5/resources/tiny_riscv\<close>, from the characters typed in to the text printed.

  \<^bold>\<open>The job queue and its programs\<close> (\<^verbatim>\<open>A2\<close>). \<open>Job_Queue\<close>: the critical sections of
  \<^verbatim>\<open>job_queue.c\<close> as functions, against a bounded list (locale \<open>bounded_fifo\<close>). \<open>Job_Threads\<close>:
  \<^verbatim>\<open>main\<close> and the workers of \<^verbatim>\<open>fauxgrep-mt.c\<close>, \<^verbatim>\<open>fhistogram-mt.c\<close> and \<^verbatim>\<open>fibs.c\<close> as a step
  relation with broadcasts and spurious wake-ups; an invariant by rule induction,
  termination by a weight, and what a run ends with: all jobs done, or a worker that locks the
  mutex which \<^verbatim>\<open>job_queue_destroy\<close> has destroyed in the meantime (undefined; the step
  \<open>lock_destroyed\<close>). \<open>Job_Activities\<close>: what a worker does with its job
  in steps on a shared state, with the induction over runs, and the locale
  \<open>shrinking_activity\<close> for their termination. \<open>Job_Programs\<close>: options and jobs,
  \<^verbatim>\<open>fauxgrep.c\<close>, and the threads that print lines as an instance. \<open>Histogram\<close>: \<^verbatim>\<open>histogram.h\<close>,
  the counting of \<^verbatim>\<open>fhistogram.c\<close>, and two merges at the same time. \<open>Histogram_Threads\<close>: the
  whole of \<^verbatim>\<open>fhistogram.c\<close> and \<^verbatim>\<open>fhistogram-mt.c\<close>, its threads at the granularity of loads and
  stores of the global counters as another instance.

  \<^bold>\<open>Place queries\<close> (\<^verbatim>\<open>A1\<close>). \<open>Records\<close>: \<^verbatim>\<open>record.c\<close>, reading the tab separated file, with
  the set of the columns a row has filled, as the other fields must not be used. \<open>Id_Query\<close>:
  the three indexes by identifier as instances of the locale \<open>id_index\<close>, and the query
  loop over them. \<open>Coord_Query\<close>: queries by coordinates, with the naive search (locale
  \<open>nearest_index\<close>) and with the tree of \<^verbatim>\<open>coord_query_kdtree.c\<close>. \<open>Place_Programs\<close>: the programs, from
  the file of places and the lines typed in to the text printed, and \<^verbatim>\<open>random_ids.c\<close>.

  \<^bold>\<open>The file server's clients\<close> (\<^verbatim>\<open>A3\<close>, \<^verbatim>\<open>A4\<close>). \<open>Sha256\<close>: \<^verbatim>\<open>sha256.c\<close> against FIPS 180-4, for
  every way of splitting the message; \<open>Sha256_Builds\<close>: its other builds, chosen by macros, on
  machines of either byte order, and the test program. \<open>Robust_IO\<close>: \<^verbatim>\<open>compsys_helpers.c\<close>, reading and writing
  in spite of short transfers and interruptions; the buffered reader is again a byte
  source (\<^theory_text>\<open>sublocale\<close>). \<open>Sockets\<close>: opening connections, with the descriptors that stay
  open. \<open>Peer\<close>: \<^verbatim>\<open>send_message\<close> of \<^verbatim>\<open>peer.c\<close> on top of the hash and the transfers: a retrieval
  puts the blocks of a file together. \<open>Peer_Network\<close>: the list of peers, which replies to a
  registration are noted inside the reserved blocks, and \<^verbatim>\<open>client_thread\<close> over all of it. \<open>Config\<close>: the configuration files of both clients and the checks of \<^verbatim>\<open>common.c\<close>.
  \<open>Peer_Main\<close>: \<^verbatim>\<open>main\<close> of \<^verbatim>\<open>peer.c\<close> from the configuration file on, and why no run of it gets to a download.
  \<open>Signature\<close>: the signature of \<^verbatim>\<open>networking.c\<close> and the requests of \<^verbatim>\<open>register_user\<close> and
  \<^verbatim>\<open>get_file\<close>; \<open>Networking_Main\<close>: its \<^verbatim>\<open>main\<close>, from the words typed in to the messages sent
  and the files created.

  \<^bold>\<open>The theorems.\<close> Each theory ends with its properties, each with a witness at a concrete
  input. They state refinements of abstract machines (simulator, memory, table, bag,
  queue), functional behaviour on whole inputs (loader, records, retrieval, histograms),
  invariants and liveness of the threads, equivalence with a standard (immediates, hash),
  round trips, and the exact conditions under which the code goes wrong.

  \<^bold>\<open>Not modelled.\<close> Printing of traces, timing, opening files and walking directories: calls into
  libraries without logic of their own. The system call stubs of the RISC-V programs, which are inline
  assembly. The loop over further blocks in \<^verbatim>\<open>A3\<close>'s \<^verbatim>\<open>get_file\<close>, which
  is behind two copies that overrun their targets on every call; the server side of \<^verbatim>\<open>A4\<close>,
  which is empty functions.
  \<^verbatim>\<open>A4/src/sha256.c\<close> and \<^verbatim>\<open>compsys_helpers.c\<close> are the files of \<^verbatim>\<open>A3\<close> again and are modelled once.
\<close>

end
